(* ===== verification/Prelude.thy ===== *)
theory Prelude
  imports Main "HOL-Library.Word" "HOL-Library.AList" "HOL-Library.Monad_Syntax"
begin

text \<open>
  The vocabulary the component theories share: machine integers and their little-endian
  byte form, Rust slices and the panics of an access out of range, UTF-8 strings, hash maps
  as association lists, and the general lemmas about them. Nothing here is specific to one
  source file; what is modelled is the part of the Rust standard library the sources use.
\<close>

unbundle bit_operations_syntax

section \<open>Types and collections\<close>

type_synonym byte = "8 word"
type_synonym u16 = "16 word"
type_synonym u32 = "32 word"
type_synonym u64 = "64 word"

text \<open>
  A computation that may panic: \<open>None\<close> is the panic of the running task. Sizes and offsets
  (\<open>usize\<close>) are \<open>nat\<close> where they cannot reach \<open>2 ^ 64\<close>.
\<close>

type_synonym 'a run = "'a option"

named_theorems le_simps \<open>little-endian byte encodings and their lengths\<close>
named_theorems slice_simps \<open>slices, patches and splits of byte buffers\<close>
named_theorems hmap_simps \<open>lookups in hash maps after an update\<close>
named_theorems run_simps \<open>operations that do not panic, as plain values\<close>

section \<open>Little-endian integers\<close>

text \<open>
  \<open>to_le_bytes\<close> and \<open>from_le_bytes\<close> of the unsigned integer types, for every width at once:
  \<open>to_le n w\<close> is the \<open>n\<close> low bytes of \<open>w\<close>, lowest first.
\<close>

fun to_le :: "nat \<Rightarrow> 'a::len word \<Rightarrow> byte list" where
  "to_le 0 w = []"
| "to_le (Suc n) w = ucast w # to_le n (drop_bit 8 w)"

fun from_le :: "byte list \<Rightarrow> 'a::len word" where
  "from_le [] = 0"
| "from_le (b # bs) = ucast b OR push_bit 8 (from_le bs)"

abbreviation u16_le :: "u16 \<Rightarrow> byte list" where "u16_le \<equiv> to_le 2"
abbreviation u32_le :: "u32 \<Rightarrow> byte list" where "u32_le \<equiv> to_le 4"

lemma unat_word_of_nat: "n < 2 ^ LENGTH('a) \<Longrightarrow> unat (word_of_nat n :: 'a::len word) = n"
  by (simp add: unat_of_nat)

lemma length_to_le [simp, le_simps]: "length (to_le n w) = n"
  by (induction n arbitrary: w) auto

lemma to_le_eq_Nil [simp]: "to_le n w = [] \<longleftrightarrow> n = 0"
  by (cases n) auto

lemma from_to_le_take: "from_le (to_le n w) = take_bit (8 * n) w"
proof (induction n arbitrary: w)
  case 0
  then show ?case by simp
next
  case (Suc n)
  show ?case
  proof (rule bit_word_eqI)
    fix i assume "i < LENGTH('a)"
    then show "bit (from_le (to_le (Suc n) w) :: 'a word) i \<longleftrightarrow> bit (take_bit (8 * Suc n) w) i"
      by (auto simp: Suc bit_simps)
  qed
qed

lemma from_to_le [le_simps]:
  assumes "LENGTH('a) \<le> 8 * n"
  shows "from_le (to_le n w) = (w :: 'a::len word)"
proof -
  have "take_bit (8 * n) w = w"
    using assms by (intro bit_word_eqI) (auto simp: bit_simps)
  then show ?thesis by (simp add: from_to_le_take)
qed

lemma from_to_le_u16 [simp]: "from_le (to_le 2 (w :: u16)) = w"
  by (rule from_to_le) simp

lemma from_to_le_u32 [simp]: "from_le (to_le 4 (w :: u32)) = w"
  by (rule from_to_le) simp

lemma bit_from_le_high:
  "8 * length bs \<le> i \<Longrightarrow> \<not> bit (from_le bs :: 'a::len word) i"
proof (induction bs arbitrary: i)
  case (Cons b bs)
  then have "8 \<le> i" "8 * length bs \<le> i - 8" by auto
  with Cons.IH[of "i - 8"] show ?case
    by (auto simp: bit_simps dest: bit_imp_le_length)
qed simp

lemma to_from_le:
  "8 * length bs \<le> LENGTH('a) \<Longrightarrow> to_le (length bs) (from_le bs :: 'a::len word) = bs"
proof (induction bs)
  case (Cons b bs)
  have low: "ucast (ucast b OR push_bit 8 (from_le bs) :: 'a word) = b"
    using Cons.prems by (intro bit_word_eqI) (auto simp: bit_simps)
  have high: "drop_bit 8 (ucast b OR push_bit 8 (from_le bs) :: 'a word) = from_le bs"
  proof (rule bit_word_eqI)
    fix i assume "i < LENGTH('a)"
    have "\<not> bit b (8 + i)" by (simp add: bit_word.rep_eq)
    moreover have "LENGTH('a) \<le> 8 + i \<Longrightarrow> \<not> bit (from_le bs :: 'a word) i"
      using Cons.prems by (intro bit_from_le_high) auto
    ultimately show "bit (drop_bit 8 (ucast b OR push_bit 8 (from_le bs) :: 'a word)) i
        \<longleftrightarrow> bit (from_le bs :: 'a word) i"
      using \<open>i < LENGTH('a)\<close> by (cases "LENGTH('a) \<le> 8 + i") (auto simp: bit_simps)
  qed
  from Cons show ?case by (simp only: length_Cons to_le.simps from_le.simps low high) simp
qed simp


lemma u32_le_from_le: "length bs = 4 \<Longrightarrow> u32_le (from_le bs) = bs"
  using to_from_le [of bs, where ?'a = 32] by simp

lemma u16_le_from_le: "length bs = 2 \<Longrightarrow> u16_le (from_le bs) = bs"
  using to_from_le [of bs, where ?'a = 16] by simp

section \<open>Slices of byte buffers\<close>

text \<open>
  \<open>rd\<close> and \<open>slice\<close> are \<open>buf[i]\<close> and \<open>buf[a..b]\<close>: out of range they panic. \<open>patch\<close> is
  \<open>buf[a..b].copy_from_slice(new)\<close>, which also panics when the lengths differ.
\<close>

definition rd :: "'a list \<Rightarrow> nat \<Rightarrow> 'a run" where
  "rd buf i = (if i < length buf then Some (buf ! i) else None)"

definition slice :: "'a list \<Rightarrow> nat \<Rightarrow> nat \<Rightarrow> 'a list run" where
  "slice buf a b =
     (if a \<le> b \<and> b \<le> length buf then Some (take (b - a) (drop a buf)) else None)"

definition patch :: "'a list \<Rightarrow> nat \<Rightarrow> nat \<Rightarrow> 'a list \<Rightarrow> 'a list run" where
  "patch buf a b new =
     (if a \<le> b \<and> b \<le> length buf \<and> length new = b - a
      then Some (take a buf @ new @ drop b buf) else None)"

text \<open>\<open>BytesMut::split_to(n)\<close>: the first \<open>n\<close> bytes, and what stays in the buffer.\<close>

definition split_to :: "nat \<Rightarrow> 'a list \<Rightarrow> ('a list \<times> 'a list) run" where
  "split_to n buf = (if n \<le> length buf then Some (take n buf, drop n buf) else None)"

text \<open>\<open>Buf::advance(n)\<close> drops the first \<open>n\<close> bytes, and panics if there are fewer.\<close>

definition advance :: "nat \<Rightarrow> 'a list \<Rightarrow> 'a list run" where
  "advance n buf = (if n \<le> length buf then Some (drop n buf) else None)"

lemma rd_in [run_simps]: "i < length buf \<Longrightarrow> rd buf i = Some (buf ! i)"
  by (simp add: rd_def)

lemma slice_in [run_simps]:
  "a \<le> b \<Longrightarrow> b \<le> length buf \<Longrightarrow> slice buf a b = Some (take (b - a) (drop a buf))"
  by (simp add: slice_def)

lemma patch_in [run_simps]:
  "a \<le> b \<Longrightarrow> b \<le> length buf \<Longrightarrow> length new = b - a \<Longrightarrow>
   patch buf a b new = Some (take a buf @ new @ drop b buf)"
  by (simp add: patch_def)

lemma patch_SomeD:
  "patch buf a b new = Some buf' \<Longrightarrow>
   a \<le> b \<and> b \<le> length buf \<and> length new = b - a \<and> buf' = take a buf @ new @ drop b buf"
  by (auto simp: patch_def split: if_splits)

lemma length_patch [slice_simps]: "patch buf a b new = Some buf' \<Longrightarrow> length buf' = length buf"
  by (auto dest!: patch_SomeD)

lemma split_to_in [run_simps]: "n \<le> length buf \<Longrightarrow> split_to n buf = Some (take n buf, drop n buf)"
  by (simp add: split_to_def)

lemma advance_in [run_simps]: "n \<le> length buf \<Longrightarrow> advance n buf = Some (drop n buf)"
  by (simp add: advance_def)

text \<open>Patching a window that is made of known parts: the form the serialisers use.\<close>

lemma patch_middle [slice_simps]:
  assumes "a = length xs" and "b = length xs + length old" and "length new = length old"
  shows "patch (xs @ old @ ys) a b new = Some (xs @ new @ ys)"
  using assms by (simp add: patch_def)

lemma take_one_drop: "k < length xs \<Longrightarrow> take 1 (drop k xs) = [xs ! k]"
  by (simp add: take_Suc_conv_app_nth)

text \<open>Buckets of a partition, put one after the other, hold no element twice.\<close>

lemma distinct_concat_buckets:
  "(\<And>s. s < n \<Longrightarrow> distinct (h s)) \<Longrightarrow> (\<And>s x. s < n \<Longrightarrow> x \<in> set (h s) \<Longrightarrow> bucket x = s) \<Longrightarrow>
   distinct (concat (map h [0..<n]))"
proof (induction n)
  case (Suc n)
  then have "distinct (concat (map h [0..<n]))" and "distinct (h n)" by auto
  moreover have "set (concat (map h [0..<n])) \<inter> set (h n) = {}"
  proof (rule equals0I)
    fix x assume "x \<in> set (concat (map h [0..<n])) \<inter> set (h n)"
    then obtain s where "s < n" "x \<in> set (h s)" "x \<in> set (h n)" by auto
    with Suc.prems(2) [of s x] Suc.prems(2) [of n x] show False by simp
  qed
  ultimately show ?case by simp
qed simp

text \<open>\<open>Iterator::position\<close>: the index of the first element that satisfies the predicate.\<close>

fun position :: "('a \<Rightarrow> bool) \<Rightarrow> 'a list \<Rightarrow> nat option" where
  "position P [] = None"
| "position P (x # xs) = (if P x then Some 0 else map_option Suc (position P xs))"

lemma position_None_iff: "position P xs = None \<longleftrightarrow> (\<forall>x\<in>set xs. \<not> P x)"
  by (induction xs) auto

lemma position_SomeD:
  "position P xs = Some n \<Longrightarrow> n < length xs \<and> P (xs ! n) \<and> (\<forall>m<n. \<not> P (xs ! m))"
proof (induction xs arbitrary: n)
  case (Cons x xs)
  show ?case
  proof (cases "P x")
    case False
    with Cons.prems obtain m where m: "position P xs = Some m" "n = Suc m" by auto
    from Cons.IH[OF m(1)] m(2) False show ?thesis by (auto simp: nth_Cons split: nat.splits)
  qed (use Cons.prems in auto)
qed simp

section \<open>UTF-8 strings\<close>

text \<open>
  A Rust \<open>String\<close> is its UTF-8 bytes: a \<open>string\<close> of HOL holds one \<open>char\<close> per byte.
  \<open>utf8_valid\<close> is the check of \<open>std::str::from_utf8\<close> (the well-formed byte sequences of
  the Unicode standard: no overlong form, no surrogate, nothing above U+10FFFF).
\<close>

definition byte_of_char :: "char \<Rightarrow> byte" where
  "byte_of_char c = word_of_nat (of_char c)"

definition char_of_byte :: "byte \<Rightarrow> char" where
  "char_of_byte b = char_of (unat b)"

definition as_bytes :: "string \<Rightarrow> byte list" where
  "as_bytes s = map byte_of_char s"

definition of_bytes :: "byte list \<Rightarrow> string" where
  "of_bytes bs = map char_of_byte bs"

definition cont_byte :: "byte \<Rightarrow> bool" where
  "cont_byte b \<longleftrightarrow> 0x80 \<le> b \<and> b \<le> 0xBF"

definition utf8_second :: "byte \<Rightarrow> byte \<Rightarrow> bool" where
  "utf8_second b c \<longleftrightarrow>
     (if b = 0xE0 then 0xA0 \<le> c \<and> c \<le> 0xBF
      else if b = 0xED then 0x80 \<le> c \<and> c \<le> 0x9F
      else if b = 0xF0 then 0x90 \<le> c \<and> c \<le> 0xBF
      else if b = 0xF4 then 0x80 \<le> c \<and> c \<le> 0x8F
      else cont_byte c)"

text \<open>
  The length the lead byte announces (0: not a lead byte), and the length of the well-formed
  encoded scalar value at the front, if there is one.
\<close>

definition utf8_width :: "byte \<Rightarrow> nat" where
  "utf8_width b =
     (if b < 0x80 then 1
      else if 0xC2 \<le> b \<and> b \<le> 0xDF then 2
      else if 0xE0 \<le> b \<and> b \<le> 0xEF then 3
      else if 0xF0 \<le> b \<and> b \<le> 0xF4 then 4
      else 0)"

definition utf8_first :: "byte list \<Rightarrow> nat option" where
  "utf8_first bs =
     (case bs of
        [] \<Rightarrow> None
      | b # _ \<Rightarrow>
          let w = utf8_width b in
          if 0 < w \<and> w \<le> length bs \<and> (1 < w \<longrightarrow> utf8_second b (bs ! 1)) \<and>
             list_all cont_byte (take (w - 2) (drop 2 bs))
          then Some w else None)"

lemma utf8_first_bounds: "utf8_first bs = Some n \<Longrightarrow> 0 < n \<and> n \<le> length bs"
  by (simp add: utf8_first_def Let_def split: list.splits if_splits)

lemma utf8_first_append: "utf8_first xs = Some n \<Longrightarrow> utf8_first (xs @ ys) = Some n"
  by (auto simp: utf8_first_def Let_def nth_append split: list.splits if_splits)

function utf8_valid :: "byte list \<Rightarrow> bool" where
  "utf8_valid bs =
     (if bs = [] then True
      else case utf8_first bs of None \<Rightarrow> False | Some n \<Rightarrow> utf8_valid (drop n bs))"
  by pat_completeness auto
termination
  by (relation "measure length") (auto dest: utf8_first_bounds)

declare utf8_valid.simps [simp del]

lemma utf8_valid_Nil [simp]: "utf8_valid []"
  by (simp add: utf8_valid.simps)

definition from_utf8 :: "byte list \<Rightarrow> string option" where
  "from_utf8 bs = (if utf8_valid bs then Some (of_bytes bs) else None)"

lemma byte_of_char_of_byte [simp]: "byte_of_char (char_of_byte b) = b"
proof -
  have "unat b < 256" using unsigned_less [of b] by simp
  then show ?thesis by (simp add: byte_of_char_def char_of_byte_def)
qed

lemma char_of_byte_of_char [simp]: "char_of_byte (byte_of_char c) = c"
  by (simp add: byte_of_char_def char_of_byte_def unat_of_nat)

lemma of_bytes_as_bytes [simp]: "of_bytes (as_bytes s) = s"
  by (simp add: of_bytes_def as_bytes_def comp_def)

lemma as_bytes_of_bytes [simp]: "as_bytes (of_bytes bs) = bs"
  by (simp add: of_bytes_def as_bytes_def comp_def)

lemma length_as_bytes [simp]: "length (as_bytes s) = length s"
  by (simp add: as_bytes_def)

lemma length_of_bytes [simp]: "length (of_bytes bs) = length bs"
  by (simp add: of_bytes_def)

lemma from_utf8_SomeD: "from_utf8 bs = Some s \<Longrightarrow> utf8_valid bs \<and> as_bytes s = bs"
  by (auto simp: from_utf8_def split: if_splits)

text \<open>ASCII text is valid, so every literal segment name of the sources is.\<close>

lemma utf8_valid_ascii: "\<forall>b\<in>set bs. b < 0x80 \<Longrightarrow> utf8_valid bs"
proof (induction bs)
  case (Cons b bs)
  then show ?case by (simp add: utf8_valid.simps [of "b # bs"] utf8_first_def utf8_width_def)
qed simp

text \<open>Concatenation of valid texts is valid: what joins the codec names relies on.\<close>

lemma utf8_valid_append: "utf8_valid xs \<Longrightarrow> utf8_valid ys \<Longrightarrow> utf8_valid (xs @ ys)"
proof (induction xs rule: utf8_valid.induct)
  case (1 xs)
  show ?case
  proof (cases "xs = []")
    case False
    with "1.prems" obtain n where n: "utf8_first xs = Some n" "utf8_valid (drop n xs)"
      by (auto simp: utf8_valid.simps [of xs] split: option.splits)
    have "utf8_valid (drop n xs @ ys)" using "1.IH" False n "1.prems" by blast
    moreover have "drop n (xs @ ys) = drop n xs @ ys"
      using utf8_first_bounds [OF n(1)] by simp
    ultimately show ?thesis
      using False utf8_first_append [OF n(1)] by (simp add: utf8_valid.simps [of "xs @ ys"])
  qed (use "1.prems" in simp)
qed

section \<open>Hash maps\<close>

text \<open>
  A \<open>HashMap\<close> is an association list with distinct keys. Its order stands for the
  (unspecified) iteration order of the Rust map: a statement about every such list covers
  every order. A \<open>HashSet\<close> is a list of which only membership is read, or whose order is
  the iteration order where the code iterates over it.
\<close>

type_synonym ('k, 'v) hmap = "('k \<times> 'v) list"

definition hm_ok :: "('k, 'v) hmap \<Rightarrow> bool" where
  "hm_ok m = distinct (map fst m)"

definition hm_get :: "('k, 'v) hmap \<Rightarrow> 'k \<Rightarrow> 'v option" where
  "hm_get m k = map_of m k"

definition hm_insert :: "'k \<Rightarrow> 'v \<Rightarrow> ('k, 'v) hmap \<Rightarrow> ('k, 'v) hmap" where
  "hm_insert k v m = AList.update k v m"

definition hm_remove :: "'k \<Rightarrow> ('k, 'v) hmap \<Rightarrow> ('k, 'v) hmap" where
  "hm_remove k m = AList.delete k m"

definition hm_retain :: "('k \<Rightarrow> 'v \<Rightarrow> bool) \<Rightarrow> ('k, 'v) hmap \<Rightarrow> ('k, 'v) hmap" where
  "hm_retain P m = filter (\<lambda>(k, v). P k v) m"

definition hm_keys :: "('k, 'v) hmap \<Rightarrow> 'k list" where
  "hm_keys m = map fst m"

definition hm_values :: "('k, 'v) hmap \<Rightarrow> 'v list" where
  "hm_values m = map snd m"

abbreviation hm_has :: "('k, 'v) hmap \<Rightarrow> 'k \<Rightarrow> bool" where
  "hm_has m k \<equiv> hm_get m k \<noteq> None"

lemma hm_get_Nil [simp]: "hm_get [] k = None"
  by (simp add: hm_get_def)

lemma hm_get_Cons [simp]: "hm_get ((k, v) # m) k' = (if k = k' then Some v else hm_get m k')"
  by (simp add: hm_get_def)

lemma hm_ok_Nil [simp]: "hm_ok []"
  by (simp add: hm_ok_def)

lemma hm_get_insert [hmap_simps]: "hm_get (hm_insert k v m) = (hm_get m)(k \<mapsto> v)"
  by (simp add: hm_get_def hm_insert_def update_conv' fun_eq_iff)

lemma hm_get_remove [hmap_simps]: "hm_get (hm_remove k m) = (hm_get m)(k := None)"
  by (simp add: hm_get_def hm_remove_def delete_conv' fun_eq_iff)

lemma hm_get_retain [hmap_simps]:
  "hm_ok m \<Longrightarrow> hm_get (hm_retain P m) k =
     (case hm_get m k of None \<Rightarrow> None | Some v \<Rightarrow> if P k v then Some v else None)"
proof (induction m)
  case (Cons kv m)
  obtain k' v' where kv: "kv = (k', v')" by (cases kv)
  have notin: "hm_get m k' = None"
    using Cons.prems by (simp add: kv hm_ok_def hm_get_def map_of_eq_None_iff)
  have "hm_ok m" using Cons.prems by (simp add: hm_ok_def)
  with Cons.IH notin show ?case
    by (auto simp: kv hm_retain_def split: option.splits)
qed (simp add: hm_retain_def)

lemma hm_ok_insert [simp]: "hm_ok m \<Longrightarrow> hm_ok (hm_insert k v m)"
  by (simp add: hm_ok_def hm_insert_def distinct_update)

lemma hm_ok_remove [simp]: "hm_ok m \<Longrightarrow> hm_ok (hm_remove k m)"
  by (simp add: hm_ok_def hm_remove_def distinct_delete)

lemma hm_ok_retain [simp]: "hm_ok m \<Longrightarrow> hm_ok (hm_retain P m)"
  by (induction m) (auto simp: hm_ok_def hm_retain_def)

lemma hm_keys_iff: "k \<in> set (hm_keys m) \<longleftrightarrow> hm_has m k"
  by (simp add: hm_keys_def hm_get_def map_of_eq_None_iff)

lemma set_hm_keys: "set (hm_keys m) = {k. hm_has m k}"
  using hm_keys_iff by fastforce

lemma hm_values_iff: "hm_ok m \<Longrightarrow> v \<in> set (hm_values m) \<longleftrightarrow> (\<exists>k. hm_get m k = Some v)"
  by (auto simp: hm_values_def hm_get_def hm_ok_def intro: map_of_SomeD image_eqI [where x = "(_, v)"] dest: map_of_SomeD)

lemma hm_get_append [hmap_simps]:
  "hm_get (m @ n) k = (case hm_get m k of None \<Rightarrow> hm_get n k | Some v \<Rightarrow> Some v)"
  by (simp add: hm_get_def map_add_def split: option.splits)

lemma hm_get_SomeD: "hm_get m k = Some v \<Longrightarrow> (k, v) \<in> set m"
  by (simp add: hm_get_def map_of_SomeD)

lemma hm_get_in: "hm_ok m \<Longrightarrow> (k, v) \<in> set m \<Longrightarrow> hm_get m k = Some v"
  by (simp add: hm_get_def hm_ok_def)

lemma hm_ok_append: "hm_ok (m @ n) \<longleftrightarrow> hm_ok m \<and> hm_ok n \<and> (\<forall>k. hm_has m k \<longrightarrow> hm_get n k = None)"
  by (auto simp: hm_ok_def hm_get_def map_of_eq_None_iff)

lemma hm_value_in: "hm_get m k = Some v \<Longrightarrow> v \<in> set (hm_values m)"
  by (force simp: hm_values_def hm_get_def dest: map_of_SomeD)

lemma hm_empty_iff: "m = [] \<longleftrightarrow> (\<forall>k. hm_get m k = None)"
  by (cases m) (auto simp: hm_get_def split: if_splits)

section \<open>Decimal numbers and durations\<close>

text \<open>\<open>Display\<close> of the unsigned integer types.\<close>

fun dec :: "nat \<Rightarrow> string" where
  "dec n = (if n < 10 then [char_of (48 + n)] else dec (n div 10) @ [char_of (48 + n mod 10)])"

declare dec.simps [simp del]

lemma dec_digits: "set (dec n) \<subseteq> (\<lambda>d. char_of (48 + d)) ` {0..<(10::nat)}"
proof (induction n rule: dec.induct)
  case (1 n)
  show ?case
  proof (cases "n < 10")
    case False
    with "1.IH" show ?thesis by (auto simp: dec.simps [of n])
  qed (auto simp: dec.simps [of n])
qed

lemma dec_nonempty [simp]: "dec n \<noteq> []"
  by (subst dec.simps) simp

text \<open>A \<open>Duration\<close> is a number of nanoseconds.\<close>

type_synonym duration = nat

definition from_secs :: "u64 \<Rightarrow> duration" where
  "from_secs s = unat s * 1000000000"

definition from_millis :: "nat \<Rightarrow> duration" where
  "from_millis m = m * 1000000"

lemma from_secs_eq_0 [simp]: "from_secs s = 0 \<longleftrightarrow> s = 0"
  by (simp add: from_secs_def unat_0_iff)

lemma from_secs_pos [simp]: "0 < from_secs s \<longleftrightarrow> s \<noteq> 0"
  using from_secs_eq_0 [of s] by (metis bot_nat_0.not_eq_extremum)

section \<open>Text operations\<close>

text \<open>\<open>str::trim_start_matches\<close> with a text pattern, and \<open>trim_end_matches\<close> with a character.\<close>

fun starts_with :: "string \<Rightarrow> string \<Rightarrow> bool" where
  "starts_with s [] = True"
| "starts_with [] (p # ps) = False"
| "starts_with (c # s) (p # ps) = (c = p \<and> starts_with s ps)"

definition ends_with :: "string \<Rightarrow> string \<Rightarrow> bool" where
  "ends_with s suf = starts_with (rev s) (rev suf)"

lemma starts_with_iff: "starts_with s p \<longleftrightarrow> (\<exists>r. s = p @ r)"
  by (induction s p rule: starts_with.induct) auto

lemma ends_with_iff: "ends_with s p \<longleftrightarrow> (\<exists>r. s = r @ p)"
proof
  assume "ends_with s p"
  then obtain r where "rev s = rev p @ r" by (auto simp: ends_with_def starts_with_iff)
  then have "s = rev r @ p" by (metis rev_append rev_rev_ident)
  then show "\<exists>r. s = r @ p" ..
qed (auto simp: ends_with_def starts_with_iff)

function trim_start_matches :: "string \<Rightarrow> string \<Rightarrow> string" where
  "trim_start_matches p s =
     (if p \<noteq> [] \<and> starts_with s p then trim_start_matches p (drop (length p) s) else s)"
  by pat_completeness auto
termination
  by (relation "measure (length \<circ> snd)") (auto simp: starts_with_iff)

declare trim_start_matches.simps [simp del]

lemma trim_start_matches_stop: "\<not> starts_with s p \<Longrightarrow> trim_start_matches p s = s"
  by (simp add: trim_start_matches.simps)

lemma trim_start_matches_clean: "p \<noteq> [] \<Longrightarrow> \<not> starts_with (trim_start_matches p s) p"
proof (induction p s rule: trim_start_matches.induct)
  case (1 p s)
  show ?case
  proof (cases "starts_with s p")
    case True
    with 1 have "\<not> starts_with (trim_start_matches p (drop (length p) s)) p" by blast
    with True "1.prems" show ?thesis by (simp add: trim_start_matches.simps [of p s])
  qed (simp add: trim_start_matches_stop)
qed

lemma trim_start_matches_suffix: "\<exists>pre. s = pre @ trim_start_matches p s"
proof (induction p s rule: trim_start_matches.induct)
  case (1 p s)
  show ?case
  proof (cases "p \<noteq> [] \<and> starts_with s p")
    case True
    with 1 obtain pre where "drop (length p) s = pre @ trim_start_matches p (drop (length p) s)" by blast
    then have "s = (take (length p) s @ pre) @ trim_start_matches p (drop (length p) s)"
      by (metis append.assoc append_take_drop_id)
    with True show ?thesis by (metis trim_start_matches.simps)
  next
    case False
    then have "s = [] @ trim_start_matches p s" by (auto simp: trim_start_matches.simps [of p s])
    then show ?thesis by blast
  qed
qed

definition trim_end_char :: "char \<Rightarrow> string \<Rightarrow> string" where
  "trim_end_char c s = rev (dropWhile (\<lambda>x. x = c) (rev s))"

lemma trim_end_char_clean: "trim_end_char c s = [] \<or> last (trim_end_char c s) \<noteq> c"
proof (cases "dropWhile (\<lambda>x. x = c) (rev s)")
  case (Cons x xs)
  then have "x \<noteq> c" using hd_dropWhile [of "\<lambda>x. x = c" "rev s"] by simp
  with Cons show ?thesis by (simp add: trim_end_char_def)
qed (simp add: trim_end_char_def)

lemma trim_end_char_idem [simp]: "trim_end_char c (trim_end_char c s) = trim_end_char c s"
  by (simp add: trim_end_char_def)

text \<open>\<open>str::contains\<close> and \<open>str::split('/')\<close>.\<close>

fun contains :: "string \<Rightarrow> string \<Rightarrow> bool" where
  "contains [] p = (p = [])"
| "contains (c # s) p = (starts_with (c # s) p \<or> contains s p)"

fun split_char :: "char \<Rightarrow> string \<Rightarrow> string list" where
  "split_char c [] = [[]]"
| "split_char c (x # s) =
     (if x = c then [] # split_char c s
      else case split_char c s of [] \<Rightarrow> [[x]] | p # ps \<Rightarrow> (x # p) # ps)"

lemma split_char_nonempty [simp]: "split_char c s \<noteq> []"
  by (induction s) (auto split: list.splits)

lemma split_char_free: "c \<notin> set s \<Longrightarrow> split_char c s = [s]"
  by (induction s) auto

lemma split_char_append: "c \<notin> set p \<Longrightarrow> split_char c (p @ c # s) = p # split_char c s"
  by (induction p) auto

text \<open>
  \<open>str::trim\<close>: the encodings of the characters with the Unicode property \<open>White_Space\<close> are
  removed at both ends. On valid UTF-8 no encoding starts inside another, so comparing bytes is
  comparing characters.
\<close>

definition ws_encodings :: "byte list list" where
  "ws_encodings = [[0x09], [0x0A], [0x0B], [0x0C], [0x0D], [0x20], [0xC2, 0x85], [0xC2, 0xA0],
     [0xE1, 0x9A, 0x80], [0xE2, 0x80, 0x80], [0xE2, 0x80, 0x81], [0xE2, 0x80, 0x82],
     [0xE2, 0x80, 0x83], [0xE2, 0x80, 0x84], [0xE2, 0x80, 0x85], [0xE2, 0x80, 0x86],
     [0xE2, 0x80, 0x87], [0xE2, 0x80, 0x88], [0xE2, 0x80, 0x89], [0xE2, 0x80, 0x8A],
     [0xE2, 0x80, 0xA8], [0xE2, 0x80, 0xA9], [0xE2, 0x80, 0xAF], [0xE2, 0x81, 0x9F],
     [0xE3, 0x80, 0x80]]"

function strip_front :: "string list \<Rightarrow> string \<Rightarrow> string" where
  "strip_front ws s =
     (case find (\<lambda>w. w \<noteq> [] \<and> starts_with s w) ws of
        Some w \<Rightarrow> strip_front ws (drop (length w) s)
      | None \<Rightarrow> s)"
  by pat_completeness auto
termination
  by (relation "measure (length \<circ> snd)") (auto simp: find_Some_iff starts_with_iff)

declare strip_front.simps [simp del]

definition trim :: "string \<Rightarrow> string" where
  "trim s =
     (let ws = map of_bytes ws_encodings in rev (strip_front (map rev ws) (rev (strip_front ws s))))"

lemma strip_front_clean: "w \<in> set ws \<Longrightarrow> w \<noteq> [] \<Longrightarrow> \<not> starts_with (strip_front ws s) w"
proof (induction ws s rule: strip_front.induct)
  case (1 ws s)
  show ?case
  proof (cases "find (\<lambda>w. w \<noteq> [] \<and> starts_with s w) ws")
    case None
    then have "strip_front ws s = s" by (simp add: strip_front.simps [of ws s])
    with None "1.prems" show ?thesis by (auto simp: find_None_iff)
  next
    case (Some u)
    then have "strip_front ws s = strip_front ws (drop (length u) s)"
      by (simp add: strip_front.simps [of ws s])
    with "1.IH" [OF Some "1.prems"] show ?thesis by simp
  qed
qed

text \<open>A text that neither starts nor ends with white space is its own trim.\<close>

lemma trim_id:
  assumes "\<And>w. w \<in> set ws_encodings \<Longrightarrow> \<not> starts_with s (of_bytes w) \<and> \<not> ends_with s (of_bytes w)"
  shows "trim s = s"
proof -
  let ?ws = "map of_bytes ws_encodings"
  have "find (\<lambda>w. w \<noteq> [] \<and> starts_with s w) ?ws = None"
    using assms by (auto simp: find_None_iff)
  then have "strip_front ?ws s = s" by (simp add: strip_front.simps [of _ s])
  moreover have "find (\<lambda>w. w \<noteq> [] \<and> starts_with (rev s) w) (map rev ?ws) = None"
    using assms by (auto simp: find_None_iff ends_with_def)
  then have "strip_front (map rev ?ws) (rev s) = rev s" by (simp add: strip_front.simps [of _ "rev s"])
  ultimately show ?thesis by (simp add: trim_def Let_def)
qed

end
