(* ===== verification/Errors.thy ===== *)
theory Errors
  imports Prelude
begin

text \<open>
  The error values of \<open>src/error.rs\<close>, with the text their \<open>Display\<close> gives (it is what
  ends up in the messages other errors are built from). \<open>RZ_\<close> prefixes the variants of
  \<open>RZError\<close>, \<open>FE_\<close> those of \<open>ForwardError\<close>.
\<close>

datatype rz_error =
    RZ_ParseError string
  | RZ_Config string
  | RZ_Io string
  | RZ_Http string
  | RZ_Resolver string
  | RZ_NoRoute string
  | RZ_Timeout
  | RZ_ConnectionClosed
  | RZ_Validation string
  | RZ_System string
  | RZ_Forward string

fun rz_error_display :: "rz_error \<Rightarrow> string" where
  "rz_error_display (RZ_ParseError m) = ''parse error: '' @ m"
| "rz_error_display (RZ_Config m) = ''config error: '' @ m"
| "rz_error_display (RZ_Io m) = ''IO error: '' @ m"
| "rz_error_display (RZ_Http m) = ''HTTP error: '' @ m"
| "rz_error_display (RZ_Resolver m) = ''resolver error: '' @ m"
| "rz_error_display (RZ_NoRoute m) = ''no route for segment: '' @ m"
| "rz_error_display RZ_Timeout = ''timeout''"
| "rz_error_display RZ_ConnectionClosed = ''connection closed''"
| "rz_error_display (RZ_Validation m) = ''validation error: '' @ m"
| "rz_error_display (RZ_System m) = ''system error: '' @ m"
| "rz_error_display (RZ_Forward m) = ''forward error: '' @ m"

text \<open>\<open>From<std::io::Error>\<close>: what the question mark operator does to an I/O error.\<close>

definition rz_error_from_io :: "string \<Rightarrow> rz_error" where
  "rz_error_from_io e = RZ_Io e"

datatype forward_error =
    FE_UnknownSegment string
  | FE_NetworkError
  | FE_Timeout
  | FE_Internal string

fun forward_error_display :: "forward_error \<Rightarrow> string" where
  "forward_error_display (FE_UnknownSegment m) = ''unknown segment: '' @ m"
| "forward_error_display FE_NetworkError = ''network error''"
| "forward_error_display FE_Timeout = ''timeout''"
| "forward_error_display (FE_Internal m) = ''internal error: '' @ m"

text \<open>\<open>map_err\<close> and the question mark operator on results.\<close>

definition map_err :: "('e \<Rightarrow> 'f) \<Rightarrow> 'e + 'a \<Rightarrow> 'f + 'a" where
  "map_err f r = (case r of Inl e \<Rightarrow> Inl (f e) | Inr a \<Rightarrow> Inr a)"

definition bind_res :: "'e + 'a \<Rightarrow> ('a \<Rightarrow> 'e + 'b) \<Rightarrow> 'e + 'b" where
  "bind_res r k = (case r of Inl e \<Rightarrow> Inl e | Inr a \<Rightarrow> k a)"

lemma map_err_simps [simp]: "map_err f (Inl e) = Inl (f e)" "map_err f (Inr a) = Inr a"
  by (simp_all add: map_err_def)

lemma bind_res_simps [simp]: "bind_res (Inl e) k = Inl e" "bind_res (Inr a) k = k a"
  by (simp_all add: bind_res_def)

lemma map_err_eq_Inr [simp]: "map_err f r = Inr a \<longleftrightarrow> r = Inr a"
  by (cases r) auto

lemma bind_res_eq_Inr: "bind_res r k = Inr b \<longleftrightarrow> (\<exists>a. r = Inr a \<and> k a = Inr b)"
  by (cases r) auto

end
