(* ===== verification/Protocol.thy ===== *)
theory Protocol
  imports Errors
begin

text \<open>
  The wire format, from \<open>src/protocol.rs\<close>: the decoder of router frames, the builders of
  error responses and keepalive frames, the search for the next magic byte, and the
  serialisers of the two answers the router gives itself. Every access to the buffer goes
  through the checked operations of the prelude, so that \<open>None\<close> is a panic of the code.
\<close>

section \<open>Constants and frames\<close>

definition ROUTER_MAGIC :: byte where "ROUTER_MAGIC = 0xFE"
definition SHARD_MAGIC :: byte where "SHARD_MAGIC = 0xFF"
definition KEEPALIVE_SEGMENT :: string where "KEEPALIVE_SEGMENT = ''__keepalive__''"

lemma magics_differ: "ROUTER_MAGIC \<noteq> SHARD_MAGIC"
  by (simp add: ROUTER_MAGIC_def SHARD_MAGIC_def)

record router_frame =
  rf_segment :: string
  rf_is_write :: bool
  rf_clrid_offset :: nat
  rf_original_clrid :: u32
  rf_frame_len :: nat

section \<open>The decoder\<close>

definition MAX_TOTAL_LEN :: nat where "MAX_TOTAL_LEN = 16 * 1024 * 1024"

definition try_decode_router :: "byte list \<Rightarrow> (rz_error + router_frame option) run" where
  "try_decode_router buf =
     (if length buf < 5 then Some (Inr None)
      else do {
        m \<leftarrow> rd buf 0;
        if m \<noteq> ROUTER_MAGIC then Some (Inl (RZ_ParseError ''bad router magic''))
        else do {
          len_bytes \<leftarrow> slice buf 1 5;
          let total_len = unat (from_le len_bytes :: u32);
          let frame_len = 5 + total_len;
          if total_len > MAX_TOTAL_LEN then Some (Inl (RZ_ParseError ''frame too large''))
          else if length buf < frame_len then Some (Inr None)
          else if total_len < 2 then Some (Inl (RZ_ParseError ''router total_len too small''))
          else do {
            seg_len_byte \<leftarrow> rd buf 5;
            let seg_len = unat seg_len_byte;
            let seg_start = 6;
            let is_write_pos = seg_start + seg_len;
            if is_write_pos \<ge> frame_len
            then Some (Inl (RZ_ParseError ''segment length out of range''))
            else do {
              seg_bytes \<leftarrow> slice buf seg_start (seg_start + seg_len);
              case from_utf8 seg_bytes of
                None \<Rightarrow> Some (Inl (RZ_ParseError ''segment not utf-8''))
              | Some segment \<Rightarrow> do {
                  w \<leftarrow> rd buf is_write_pos;
                  let is_write = (w = 0x01);
                  let shard_start = is_write_pos + 1;
                  no_shard \<leftarrow> (if shard_start + 9 > frame_len then Some True
                    else do { s \<leftarrow> rd buf shard_start; Some (s \<noteq> SHARD_MAGIC) });
                  if no_shard then Some (Inl (RZ_ParseError ''missing shard magic''))
                  else do {
                    clrid_bytes \<leftarrow> slice buf (shard_start + 1) (shard_start + 5);
                    Some (Inr (Some \<lparr>rf_segment = segment, rf_is_write = is_write,
                      rf_clrid_offset = shard_start + 1,
                      rf_original_clrid = from_le clrid_bytes,
                      rf_frame_len = frame_len\<rparr>))
                  }
                }
            }
          }
        }
      })"

text \<open>
  The same decoder with the accesses written as plain list operations. It is what the proofs
  use; \<open>try_decode_router_run\<close> says the two agree, so no access of the code is out of range.
\<close>

definition total_len :: "byte list \<Rightarrow> nat" where
  "total_len buf = unat (from_le (take 4 (drop 1 buf)) :: u32)"

definition seg_len :: "byte list \<Rightarrow> nat" where
  "seg_len buf = unat (buf ! 5)"

definition decode_router :: "byte list \<Rightarrow> rz_error + router_frame option" where
  "decode_router buf =
     (if length buf < 5 then Inr None
      else if buf ! 0 \<noteq> ROUTER_MAGIC then Inl (RZ_ParseError ''bad router magic'')
      else if total_len buf > MAX_TOTAL_LEN then Inl (RZ_ParseError ''frame too large'')
      else if length buf < 5 + total_len buf then Inr None
      else if total_len buf < 2 then Inl (RZ_ParseError ''router total_len too small'')
      else if 6 + seg_len buf \<ge> 5 + total_len buf
        then Inl (RZ_ParseError ''segment length out of range'')
      else case from_utf8 (take (seg_len buf) (drop 6 buf)) of
        None \<Rightarrow> Inl (RZ_ParseError ''segment not utf-8'')
      | Some segment \<Rightarrow>
          if 7 + seg_len buf + 9 > 5 + total_len buf \<or> buf ! (7 + seg_len buf) \<noteq> SHARD_MAGIC
          then Inl (RZ_ParseError ''missing shard magic'')
          else Inr (Some \<lparr>rf_segment = segment, rf_is_write = (buf ! (6 + seg_len buf) = 0x01),
                 rf_clrid_offset = 8 + seg_len buf,
                 rf_original_clrid = from_le (take 4 (drop (8 + seg_len buf) buf)),
                 rf_frame_len = 5 + total_len buf\<rparr>))"

lemma try_decode_router_run [run_simps]: "try_decode_router buf = Some (decode_router buf)"
proof (cases "length buf < 5")
  case False
  then have "slice buf 1 5 = Some (take 4 (drop 1 buf))" and "rd buf 0 = Some (buf ! 0)"
    by (auto simp: slice_def rd_def)
  note [simp] = this [folded One_nat_def] this
  from False show ?thesis
    by (simp add: try_decode_router_def decode_router_def total_len_def [symmetric]
        seg_len_def [symmetric] rd_in slice_in Let_def del: One_nat_def
        cong: if_cong option.case_cong) (simp split: option.split)
qed (simp add: try_decode_router_def decode_router_def)

section \<open>The frame grammar\<close>

text \<open>
  The layout the comment of \<open>build_keepalive_frame\<close> gives, as a function from the parts of a
  frame to its bytes: magic, length, segment length, segment, write flag, then the shard frame
  (its magic, the correlation id and at least four more bytes).
\<close>

definition frame_body :: "string \<Rightarrow> byte \<Rightarrow> u32 \<Rightarrow> byte list \<Rightarrow> byte list" where
  "frame_body seg w clrid rest =
     [word_of_nat (length seg)] @ as_bytes seg @ [w] @ [SHARD_MAGIC] @ u32_le clrid @ rest"

definition frame_bytes :: "string \<Rightarrow> byte \<Rightarrow> u32 \<Rightarrow> byte list \<Rightarrow> byte list" where
  "frame_bytes seg w clrid rest =
     [ROUTER_MAGIC] @ u32_le (word_of_nat (length (frame_body seg w clrid rest))) @
     frame_body seg w clrid rest"

text \<open>The parts a frame can be made of.\<close>

definition frame_parts_ok :: "string \<Rightarrow> byte list \<Rightarrow> bool" where
  "frame_parts_ok seg rest \<longleftrightarrow>
     length seg < 256 \<and> utf8_valid (as_bytes seg) \<and> 4 \<le> length rest \<and>
     7 + length seg + length rest \<le> MAX_TOTAL_LEN"

definition frame_of :: "string \<Rightarrow> byte \<Rightarrow> u32 \<Rightarrow> byte list \<Rightarrow> router_frame" where
  "frame_of seg w clrid rest = \<lparr>rf_segment = seg, rf_is_write = (w = 0x01),
     rf_clrid_offset = 8 + length seg, rf_original_clrid = clrid,
     rf_frame_len = 12 + length seg + length rest\<rparr>"

lemma length_frame_body [le_simps]:
  "length (frame_body seg w clrid rest) = 7 + length seg + length rest"
  by (simp add: frame_body_def)

lemma length_frame_bytes [le_simps]:
  "length (frame_bytes seg w clrid rest) = 12 + length seg + length rest"
  by (simp add: frame_bytes_def length_frame_body)

lemma total_len_frame_bytes:
  assumes "frame_parts_ok seg rest"
  shows "total_len (frame_bytes seg w clrid rest @ ys) = 7 + length seg + length rest"
proof -
  let ?n = "7 + length seg + length rest"
  have "?n < 2 ^ 32" using assms by (simp add: frame_parts_ok_def MAX_TOTAL_LEN_def)
  then have "unat (word_of_nat ?n :: u32) = ?n" by (intro unat_word_of_nat) simp
  then show ?thesis
    by (simp add: total_len_def frame_bytes_def length_frame_body del: of_nat_add)
qed

text \<open>Completeness: a frame at the front of the buffer is decoded, whatever follows it.\<close>

lemma decode_frame_bytes:
  assumes ok: "frame_parts_ok seg rest"
  shows "decode_router (frame_bytes seg w clrid rest @ ys) = Inr (Some (frame_of seg w clrid rest))"
proof -
  let ?buf = "frame_bytes seg w clrid rest @ ys"
  let ?hd = "ROUTER_MAGIC # u32_le (word_of_nat (7 + length seg + length rest))"
  have buf: "?buf = ?hd @ word_of_nat (length seg) # as_bytes seg @ w # SHARD_MAGIC #
      u32_le clrid @ rest @ ys"
    by (simp add: frame_bytes_def frame_body_def add.assoc)
  have hd: "length ?hd = 5" by simp
  have sl: "seg_len ?buf = length seg"
    using ok by (simp add: seg_len_def buf nth_append frame_parts_ok_def unat_of_nat)
  have tl: "total_len ?buf = 7 + length seg + length rest"
    by (rule total_len_frame_bytes [OF ok])
  have seg: "take (length seg) (drop 6 ?buf) = as_bytes seg"
    by (simp add: buf)
  have w: "?buf ! (6 + length seg) = w" and sm: "?buf ! (7 + length seg) = SHARD_MAGIC"
    by (simp_all add: buf nth_append nth_Cons')
  let ?pre = "?hd @ word_of_nat (length seg) # as_bytes seg @ [w, SHARD_MAGIC]"
  have "?buf = ?pre @ u32_le clrid @ rest @ ys" and pre: "length ?pre = 8 + length seg"
    unfolding buf by simp_all
  then have "drop (8 + length seg) ?buf = u32_le clrid @ rest @ ys"
    by (metis append_eq_conv_conj)
  then have cl: "take 4 (drop (8 + length seg) ?buf) = u32_le clrid" by simp
  have len: "length ?buf = 12 + length seg + length rest + length ys"
    by (simp add: length_frame_bytes)
  have m: "?buf ! 0 = ROUTER_MAGIC" by (simp add: buf)
  show ?thesis
    using ok unfolding decode_router_def sl tl seg w sm cl len m
    by (simp add: frame_parts_ok_def frame_of_def from_utf8_def)
qed

text \<open>What a successful decode says of the buffer; everything else about it follows from this.\<close>

lemma decode_router_SomeD:
  assumes "decode_router buf = Inr (Some f)"
  shows "5 \<le> length buf" "buf ! 0 = ROUTER_MAGIC" "total_len buf \<le> MAX_TOTAL_LEN"
    "5 + total_len buf \<le> length buf" "11 + seg_len buf \<le> total_len buf"
    "buf ! (7 + seg_len buf) = SHARD_MAGIC"
    "from_utf8 (take (seg_len buf) (drop 6 buf)) = Some (rf_segment f)"
    "f = \<lparr>rf_segment = rf_segment f, rf_is_write = (buf ! (6 + seg_len buf) = 0x01),
      rf_clrid_offset = 8 + seg_len buf,
      rf_original_clrid = from_le (take 4 (drop (8 + seg_len buf) buf)),
      rf_frame_len = 5 + total_len buf\<rparr>"
  using assms by (auto simp: decode_router_def split: if_splits option.splits)

text \<open>
  Soundness: what is decoded has the layout of the grammar, so the decoder accepts exactly
  the frames of the grammar.
\<close>

lemma decode_router_sound:
  assumes dec: "decode_router buf = Inr (Some f)"
  obtains w rest where "frame_parts_ok (rf_segment f) rest"
    and "take (rf_frame_len f) buf = frame_bytes (rf_segment f) w (rf_original_clrid f) rest"
    and "f = frame_of (rf_segment f) w (rf_original_clrid f) rest"
proof -
  note D = decode_router_SomeD [OF dec]
  define n where "n = seg_len buf"
  define t where "t = total_len buf"
  define w where "w = buf ! (6 + n)"
  define rest where "rest = take (t - 7 - n) (drop (12 + n) buf)"
  have bounds: "5 + t \<le> length buf" "11 + n \<le> t" "t \<le> MAX_TOTAL_LEN" "n < 256"
    using D(3-5) unsigned_less [of "buf ! 5", where ?'a = nat]
    by (simp_all add: n_def t_def seg_len_def)
  have seg: "as_bytes (rf_segment f) = take n (drop 6 buf)"
    and utf: "utf8_valid (as_bytes (rf_segment f))"
    using from_utf8_SomeD [OF D(7)] by (auto simp: n_def)
  have lseg: "length (rf_segment f) = n"
    using arg_cong [OF seg, of length] bounds by simp
  have lrest: "length rest = t - 7 - n" using bounds by (simp add: rest_def)
  have ok: "frame_parts_ok (rf_segment f) rest"
    using bounds utf by (simp add: frame_parts_ok_def lseg lrest)
  have "rf_original_clrid f = from_le (take 4 (drop (8 + n) buf))"
    by (subst D(8)) (simp add: n_def)
  then have clrid: "u32_le (rf_original_clrid f) = take 4 (drop (8 + n) buf)"
    using bounds by (simp add: u32_le_from_le)
  have "(word_of_nat t :: u32) = from_le (take 4 (drop 1 buf))"
    by (simp add: t_def total_len_def)
  then have lenb: "u32_le (word_of_nat t) = take 4 (drop 1 buf)"
    using bounds by (simp add: u32_le_from_le)
  have sl: "[word_of_nat n] = take 1 (drop 5 buf)"
    using bounds take_one_drop [of 5 buf] by (simp add: n_def seg_len_def)
  have "5 + t = 1 + (4 + (1 + (n + (1 + (1 + (4 + (t - 7 - n)))))))" using bounds by simp
  then have "take (5 + t) buf = take 1 buf @ take 4 (drop 1 buf) @ take 1 (drop 5 buf) @
      take n (drop 6 buf) @ take 1 (drop (6 + n) buf) @ take 1 (drop (7 + n) buf) @
      take 4 (drop (8 + n) buf) @ rest"
    by (simp only: take_add drop_drop rest_def) (simp add: add.commute)
  moreover have "take 1 buf = [ROUTER_MAGIC]"
    using D(1,2) by (cases buf) auto
  moreover have "take 1 (drop (6 + n) buf) = [w]" "take 1 (drop (7 + n) buf) = [SHARD_MAGIC]"
    using bounds D(6) take_one_drop [of "6 + n" buf] take_one_drop [of "7 + n" buf]
    by (simp_all add: w_def n_def)
  moreover have flen: "rf_frame_len f = 5 + t" by (subst D(8)) (simp add: t_def)
  moreover have "length (frame_body (rf_segment f) w (rf_original_clrid f) rest) = t"
    using bounds by (simp add: length_frame_body lseg lrest)
  ultimately have "take (rf_frame_len f) buf =
      frame_bytes (rf_segment f) w (rf_original_clrid f) rest"
    by (simp only: frame_bytes_def lenb) (simp add: frame_body_def seg lseg clrid sl)
  moreover have "f = frame_of (rf_segment f) w (rf_original_clrid f) rest"
    by (subst D(8), subst (2) D(8))
       (use bounds in \<open>simp add: frame_of_def lseg lrest n_def t_def w_def\<close>)
  ultimately show thesis using ok that by blast
qed

text \<open>Consequences the callers use: the frame lies in the buffer, and the id inside the frame.\<close>

lemma decode_router_bounds:
  assumes "decode_router buf = Inr (Some f)"
  shows "16 \<le> rf_frame_len f" "rf_frame_len f \<le> length buf"
    "rf_frame_len f \<le> 5 + MAX_TOTAL_LEN" "rf_clrid_offset f + 8 \<le> rf_frame_len f"
    "8 \<le> rf_clrid_offset f"
    "take 4 (drop (rf_clrid_offset f) (take (rf_frame_len f) buf)) = u32_le (rf_original_clrid f)"
proof -
  from assms obtain w rest where
    ok: "frame_parts_ok (rf_segment f) rest" and
    b: "take (rf_frame_len f) buf = frame_bytes (rf_segment f) w (rf_original_clrid f) rest" and
    f: "f = frame_of (rf_segment f) w (rf_original_clrid f) rest"
    by (rule decode_router_sound)
  have fl: "rf_frame_len f = 12 + length (rf_segment f) + length rest"
    and off: "rf_clrid_offset f = 8 + length (rf_segment f)"
    by (subst f, simp add: frame_of_def)+
  show "16 \<le> rf_frame_len f" "rf_clrid_offset f + 8 \<le> rf_frame_len f" "8 \<le> rf_clrid_offset f"
    "rf_frame_len f \<le> 5 + MAX_TOTAL_LEN"
    using ok by (simp_all add: fl off frame_parts_ok_def)
  show "rf_frame_len f \<le> length buf"
    using arg_cong [OF b, of length] by (simp add: length_frame_bytes fl)
  have "frame_bytes (rf_segment f) w (rf_original_clrid f) rest =
      ([ROUTER_MAGIC] @ u32_le (word_of_nat (length (frame_body (rf_segment f) w
        (rf_original_clrid f) rest))) @ [word_of_nat (length (rf_segment f))] @
        as_bytes (rf_segment f) @ [w, SHARD_MAGIC]) @ u32_le (rf_original_clrid f) @ rest"
    (is "_ = ?pre @ _ @ _")
    by (simp add: frame_bytes_def frame_body_def)
  moreover have "length ?pre = rf_clrid_offset f" by (simp add: off)
  ultimately show "take 4 (drop (rf_clrid_offset f) (take (rf_frame_len f) buf)) =
      u32_le (rf_original_clrid f)"
    unfolding b by (metis append_eq_conv_conj length_to_le)
qed

text \<open>More bytes never change a decision that has been made.\<close>

lemma decode_router_append:
  assumes "decode_router buf = Inr (Some f)"
  shows "decode_router (buf @ ys) = Inr (Some f)"
proof -
  from assms obtain w rest where
    ok: "frame_parts_ok (rf_segment f) rest" and
    b: "take (rf_frame_len f) buf = frame_bytes (rf_segment f) w (rf_original_clrid f) rest" and
    f: "f = frame_of (rf_segment f) w (rf_original_clrid f) rest"
    by (rule decode_router_sound)
  have "buf @ ys = frame_bytes (rf_segment f) w (rf_original_clrid f) rest @
      drop (rf_frame_len f) buf @ ys"
    using b by (metis append.assoc append_take_drop_id)
  then show ?thesis using decode_frame_bytes [OF ok] f by metis
qed

lemma decode_router_take:
  assumes "decode_router buf = Inr (Some f)"
  shows "decode_router (take (rf_frame_len f) buf) = Inr (Some f)"
proof -
  from assms obtain w rest where
    ok: "frame_parts_ok (rf_segment f) rest" and
    b: "take (rf_frame_len f) buf = frame_bytes (rf_segment f) w (rf_original_clrid f) rest" and
    f: "f = frame_of (rf_segment f) w (rf_original_clrid f) rest"
    by (rule decode_router_sound)
  show ?thesis
    using decode_frame_bytes [OF ok, of w "rf_original_clrid f" "[]"] f b by simp
qed

text \<open>
  A structural error needs the five header bytes, so the buffer it leaves is never empty; and
  a buffer that does not start with the magic byte is always one, once it has five bytes.
\<close>

lemma decode_router_Inl_length: "decode_router buf = Inl e \<Longrightarrow> 5 \<le> length buf"
  by (auto simp: decode_router_def split: if_splits)

lemma decode_router_bad_magic:
  "5 \<le> length buf \<Longrightarrow> buf ! 0 \<noteq> ROUTER_MAGIC \<Longrightarrow>
   decode_router buf = Inl (RZ_ParseError ''bad router magic'')"
  by (simp add: decode_router_def)

text \<open>A buffer that waits for more bytes is a strict prefix of the frame its header announces.\<close>

lemma decode_router_NoneD:
  "decode_router buf = Inr None \<Longrightarrow>
   length buf < 5 \<or> buf ! 0 = ROUTER_MAGIC \<and> total_len buf \<le> MAX_TOTAL_LEN \<and>
     length buf < 5 + total_len buf"
  by (auto simp: decode_router_def split: if_splits option.splits)

section \<open>Error responses and keepalive frames\<close>

definition ERROR_PAYLOAD :: "byte list" where
  "ERROR_PAYLOAD = [5] @ as_bytes ''ERROR'' @ [1, 0] @ [1, 0] @ [1] @ [4, 0, 0, 0]"

definition error_code_msg :: "byte \<Rightarrow> byte list" where
  "error_code_msg error_code =
     (if error_code = 1 then as_bytes ''404''
      else if error_code = 2 then as_bytes ''503''
      else if error_code = 3 then as_bytes ''408''
      else if error_code = 4 then as_bytes ''500''
      else as_bytes ''500'')"

definition build_error_response :: "u32 \<Rightarrow> byte \<Rightarrow> byte list" where
  "build_error_response clrid error_code =
     (let msg_bytes = error_code_msg error_code;
          msg_len = length msg_bytes;
          payload_len = length ERROR_PAYLOAD + 4 + msg_len
      in [0xFF] @ u32_le clrid @ u32_le (word_of_nat payload_len) @ ERROR_PAYLOAD @
         u32_le (word_of_nat msg_len) @ msg_bytes)"

definition build_keepalive_frame :: "u32 \<Rightarrow> byte list" where
  "build_keepalive_frame clrid =
     (let segment = as_bytes KEEPALIVE_SEGMENT;
          seg_len = (word_of_nat (length segment) :: byte);
          total_len = 1 + unat seg_len + 1 + 9
      in [ROUTER_MAGIC] @ u32_le (word_of_nat total_len) @ [seg_len] @ segment @ [0x00] @
         [SHARD_MAGIC] @ u32_le clrid @ [0, 0, 0, 0])"

lemma length_error_code_msg [simp]: "length (error_code_msg c) = 3"
  by (simp add: error_code_msg_def)

lemma length_build_error_response: "length (build_error_response clrid c) = 31"
  by (simp add: build_error_response_def ERROR_PAYLOAD_def Let_def)

text \<open>The keepalive frame is a frame of the grammar.\<close>

lemma length_KEEPALIVE_SEGMENT: "length KEEPALIVE_SEGMENT = 13"
  by (simp add: KEEPALIVE_SEGMENT_def)

lemma utf8_KEEPALIVE_SEGMENT: "utf8_valid (as_bytes KEEPALIVE_SEGMENT)"
  by (rule utf8_valid_ascii) (simp add: KEEPALIVE_SEGMENT_def as_bytes_def byte_of_char_def)

lemma build_keepalive_frame_grammar:
  "build_keepalive_frame clrid = frame_bytes KEEPALIVE_SEGMENT 0 clrid [0, 0, 0, 0]"
  by (simp add: build_keepalive_frame_def frame_bytes_def frame_body_def Let_def
      length_KEEPALIVE_SEGMENT)

lemma keepalive_parts_ok: "frame_parts_ok KEEPALIVE_SEGMENT [0, 0, 0, 0]"
  by (simp add: frame_parts_ok_def length_KEEPALIVE_SEGMENT utf8_KEEPALIVE_SEGMENT MAX_TOTAL_LEN_def)

section \<open>Resynchronisation\<close>

definition find_next_router_magic :: "byte list \<Rightarrow> nat \<Rightarrow> nat option run" where
  "find_next_router_magic buf from =
     (if from \<le> length buf
      then Some (map_option (\<lambda>p. from + p) (position (\<lambda>b. b = ROUTER_MAGIC) (drop from buf)))
      else None)"

lemma find_next_router_magic_run [run_simps]:
  "find_next_router_magic buf 0 = Some (position (\<lambda>b. b = ROUTER_MAGIC) buf)"
  by (cases "position (\<lambda>b. b = ROUTER_MAGIC) buf") (simp_all add: find_next_router_magic_def)

section \<open>Answers the router serialises itself\<close>

text \<open>
  One field of a reply is its id, its type, its length and its bytes. The 16-bit counter of
  \<open>serialize_get_segments\<close> is kept at its width: the release build wraps it around.
\<close>

fun put_segments :: "string list \<Rightarrow> byte list \<Rightarrow> u16 \<Rightarrow> byte list \<times> u16" where
  "put_segments [] buf total_fields = (buf, total_fields)"
| "put_segments (key # keys) buf total_fields =
     (let buf = buf @ u16_le (total_fields + 1) @ [0x01] @
            u32_le (word_of_nat (length key)) @ as_bytes key;
          total_fields = total_fields + 1;
          buf = buf @ u16_le (total_fields + 1) @ [0x03] @ u32_le 4 @ u32_le 0;
          total_fields = total_fields + 1
      in put_segments keys buf total_fields)"

definition serialize_get_segments :: "string list \<Rightarrow> u32 \<Rightarrow> byte list run" where
  "serialize_get_segments segments clrid = do {
     let buf = [0xFF] @ u32_le clrid;
     let payload_len_pos = length buf;
     let buf = buf @ u32_le 0;
     let payload_start = length buf;
     let buf = buf @ [7] @ as_bytes ''SUCCESS'';
     let fields_pos = length buf;
     let buf = buf @ u16_le 0;
     let (buf, total_fields) = put_segments segments buf 0;
     buf \<leftarrow> patch buf fields_pos (fields_pos + 2) (u16_le total_fields);
     let payload_len = length buf - payload_start;
     patch buf payload_len_pos (payload_len_pos + 4) (u32_le (word_of_nat payload_len))
   }"

definition serialize_codecs :: "u32 \<Rightarrow> byte list \<Rightarrow> byte list run" where
  "serialize_codecs clrid codec_bytes = do {
     let buf = [0xFF] @ u32_le clrid;
     let payload_len_pos = length buf;
     let buf = buf @ u32_le 0;
     let payload_start = length buf;
     let buf = buf @ [7] @ as_bytes ''SUCCESS'';
     let field_cnt_pos = length buf;
     let buf = buf @ u16_le 0;
     let buf = buf @ u16_le 1 @ [0x09] @ u32_le (word_of_nat (length codec_bytes)) @ codec_bytes;
     let field_count = (1 :: u16);
     buf \<leftarrow> patch buf field_cnt_pos (field_cnt_pos + 2) (u16_le field_count);
     let payload_len = length buf - payload_start;
     patch buf payload_len_pos (payload_len_pos + 4) (u32_le (word_of_nat payload_len))
   }"

text \<open>
  What the two are meant to produce: a reply with a status and a list of fields, written
  front to back with the counts known beforehand.
\<close>

type_synonym reply_field = "u16 \<times> byte \<times> byte list"

fun field_bytes :: "reply_field \<Rightarrow> byte list" where
  "field_bytes (i, t, d) = u16_le i @ [t] @ u32_le (word_of_nat (length d)) @ d"

definition reply_payload :: "string \<Rightarrow> reply_field list \<Rightarrow> byte list" where
  "reply_payload status flds =
     [word_of_nat (length status)] @ as_bytes status @ u16_le (word_of_nat (length flds)) @
     concat (map field_bytes flds)"

definition reply_bytes :: "u32 \<Rightarrow> byte list \<Rightarrow> byte list" where
  "reply_bytes clrid payload =
     [SHARD_MAGIC] @ u32_le clrid @ u32_le (word_of_nat (length payload)) @ payload"

fun segment_fields :: "nat \<Rightarrow> string list \<Rightarrow> reply_field list" where
  "segment_fields n [] = []"
| "segment_fields n (key # keys) =
     (word_of_nat (n + 1), 1, as_bytes key) # (word_of_nat (n + 2), 3, [0, 0, 0, 0]) #
     segment_fields (n + 2) keys"

lemma length_segment_fields [simp]: "length (segment_fields n keys) = 2 * length keys"
  by (induction n keys rule: segment_fields.induct) auto

lemma u32_le_0: "u32_le 0 = [0, 0, 0, 0]"
  by (simp add: numeral_eq_Suc)

lemma put_segments_eq:
  "put_segments keys buf (word_of_nat n) =
     (buf @ concat (map field_bytes (segment_fields n keys)), word_of_nat (n + 2 * length keys))"
proof (induction n keys arbitrary: buf rule: segment_fields.induct)
  case (2 n key keys)
  have "(word_of_nat n + 1 + 1 :: u16) = word_of_nat (n + 2)" by simp
  with "2.IH" show ?case by (simp add: Let_def u32_le_0 add.commute add.left_commute)
qed simp

lemma serialize_get_segments_eq:
  "serialize_get_segments segs clrid =
     Some (reply_bytes clrid (reply_payload ''SUCCESS'' (segment_fields 0 segs)))"
proof -
  define F where "F = concat (map field_bytes (segment_fields 0 segs))"
  have put: "put_segments segs buf 0 = (buf @ F, word_of_nat (2 * length segs))" for buf
    using put_segments_eq [of segs buf 0] by (simp add: F_def)
  show ?thesis
    unfolding serialize_get_segments_def
    by (simp add: put Let_def patch_def reply_bytes_def reply_payload_def F_def SHARD_MAGIC_def)
qed

lemma serialize_codecs_eq:
  "serialize_codecs clrid bs = Some (reply_bytes clrid (reply_payload ''SUCCESS'' [(1, 9, bs)]))"
  unfolding serialize_codecs_def
  by (simp add: Let_def patch_def reply_bytes_def reply_payload_def SHARD_MAGIC_def)

end
