(* ===== verification/Config.thy ===== *)
theory Config
  imports Errors
begin

text \<open>
  The configuration of \<open>src/config.rs\<close>: the record, the router mode with its text form, the
  checks \<open>Config::parse\<close> makes on what the command line parser (clap) returned, and the
  derived addresses and durations.
\<close>

datatype router_mode = ModeEdge | ModeZone

fun router_mode_from_str :: "string \<Rightarrow> string + router_mode" where
  "router_mode_from_str s =
     (if s = ''edge'' then Inr ModeEdge
      else if s = ''zone'' then Inr ModeZone
      else Inl (''unknown mode: '' @ s))"

fun router_mode_display :: "router_mode \<Rightarrow> string" where
  "router_mode_display ModeEdge = ''edge''"
| "router_mode_display ModeZone = ''zone''"

record config =
  cfg_mode :: router_mode
  cfg_listen_host :: string
  cfg_tcp_port :: u16
  cfg_api_listening_addr :: string
  cfg_api_port :: u16
  cfg_rzid_addr :: string
  cfg_rzpoint_addr :: string
  cfg_zone_id :: "string option"
  cfg_router_id :: "string option"
  cfg_max_connections :: nat
  cfg_conn_per_hop :: nat
  cfg_hop_tcp_port :: u16
  cfg_refresh_interval_secs :: u64
  cfg_heartbeat_interval_secs :: u64
  cfg_request_timeout_secs :: u64
  cfg_worker_threads :: nat
  cfg_app_keepalive_secs :: u64
  cfg_frame_timeout_secs :: u64
  cfg_idle_timeout_secs :: u64
  cfg_max_buffer_size :: nat
  cfg_max_frame_size :: nat

text \<open>The defaults of the command line, for the given required arguments.\<close>

definition default_config :: "string \<Rightarrow> string \<Rightarrow> config" where
  "default_config rzid_addr rzpoint_addr =
     \<lparr>cfg_mode = ModeEdge, cfg_listen_host = ''0.0.0.0'', cfg_tcp_port = 9000,
      cfg_api_listening_addr = ''0.0.0.0'', cfg_api_port = 9100,
      cfg_rzid_addr = rzid_addr, cfg_rzpoint_addr = rzpoint_addr,
      cfg_zone_id = None, cfg_router_id = None,
      cfg_max_connections = 10000, cfg_conn_per_hop = 4, cfg_hop_tcp_port = 9000,
      cfg_refresh_interval_secs = 10, cfg_heartbeat_interval_secs = 30,
      cfg_request_timeout_secs = 30, cfg_worker_threads = 4, cfg_app_keepalive_secs = 15,
      cfg_frame_timeout_secs = 20, cfg_idle_timeout_secs = 90,
      cfg_max_buffer_size = 262144, cfg_max_frame_size = 16384\<rparr>"

text \<open>\<open>Config::parse\<close> from the point where clap has returned a value.\<close>

definition config_check :: "config \<Rightarrow> rz_error + config" where
  "config_check config =
     (if cfg_mode config = ModeZone \<and>
         (cfg_zone_id config = None \<or> the (cfg_zone_id config) = [])
      then Inl (RZ_Config ''zone_id is required for zone mode'')
      else if cfg_mode config = ModeZone \<and>
         (cfg_router_id config = None \<or> the (cfg_router_id config) = [])
      then Inl (RZ_Config ''router_id is required for zone mode'')
      else if cfg_max_frame_size config > cfg_max_buffer_size config
      then Inl (RZ_Config ''max_frame_size cannot be larger than max_buffer_size'')
      else if cfg_frame_timeout_secs config = 0
      then Inl (RZ_Config ''frame_timeout_secs must be > 0'')
      else Inr config)"

definition host_port :: "string \<Rightarrow> u16 \<Rightarrow> string" where
  "host_port host port = host @ '':'' @ dec (unat port)"

definition listen_addr :: "config \<Rightarrow> string" where
  "listen_addr config = host_port (cfg_listen_host config) (cfg_tcp_port config)"

definition api_listen_addr :: "config \<Rightarrow> string" where
  "api_listen_addr config = host_port (cfg_api_listening_addr config) (cfg_api_port config)"

definition config_zone_id :: "config \<Rightarrow> string" where
  "config_zone_id config = (case cfg_zone_id config of Some z \<Rightarrow> z | None \<Rightarrow> [])"

definition config_router_id :: "config \<Rightarrow> string" where
  "config_router_id config = (case cfg_router_id config of Some r \<Rightarrow> r | None \<Rightarrow> [])"

definition app_keepalive_interval :: "config \<Rightarrow> duration" where
  "app_keepalive_interval config = from_secs (cfg_app_keepalive_secs config)"

definition frame_timeout :: "config \<Rightarrow> duration" where
  "frame_timeout config = from_secs (cfg_frame_timeout_secs config)"

definition idle_timeout :: "config \<Rightarrow> duration" where
  "idle_timeout config = from_secs (cfg_idle_timeout_secs config)"

definition request_timeout :: "config \<Rightarrow> duration" where
  "request_timeout config = from_secs (cfg_request_timeout_secs config)"

section \<open>What a checked configuration guarantees\<close>

definition config_valid :: "config \<Rightarrow> bool" where
  "config_valid config \<longleftrightarrow>
     cfg_max_frame_size config \<le> cfg_max_buffer_size config \<and> 0 < frame_timeout config \<and>
     (cfg_mode config = ModeZone \<longrightarrow> config_zone_id config \<noteq> [] \<and> config_router_id config \<noteq> [])"

lemma config_check_iff: "config_check config = Inr c \<longleftrightarrow> c = config \<and> config_valid config"
  by (auto simp: config_check_def config_valid_def config_zone_id_def config_router_id_def
      frame_timeout_def split: option.splits)

lemma config_check_error:
  "\<not> config_valid config \<Longrightarrow> \<exists>m. config_check config = Inl (RZ_Config m)"
proof (cases "config_check config")
  case (Inl e)
  then show ?thesis by (auto simp: config_check_def split: if_splits)
qed (simp add: config_check_iff)

lemma router_mode_display_from_str [simp]:
  "router_mode_from_str (router_mode_display m) = Inr m"
  by (cases m) simp_all

lemma router_mode_from_str_display:
  "router_mode_from_str s = Inr m \<Longrightarrow> router_mode_display m = s"
  by (auto split: if_splits)

end
