(* ===== verification/Demux.thy ===== *)
theory Demux
  imports Prelude
begin

text \<open>
  The sharded demultiplexer of \<open>src/demux.rs\<close>: correlation ids to the one-shot senders that
  wait for the answer. Each shard is a hash map behind its own lock; an operation on one shard
  is one step. The locale \<open>waiter_table\<close> is the contract the connection relies on: one map from
  ids to entries, whatever the sharding. A sender is a number, and what is sent on it is listed
  as the result of the operation.
\<close>

section \<open>The model\<close>

datatype demux_error = DE_Timeout | DE_ConnectionClosed

type_synonym tx = nat
type_synonym demux_result = "demux_error + byte list"

record demux_entry =
  de_tx :: tx
  de_sent_at :: int

record demux =
  dx_shards :: "(u32, demux_entry) hmap list"
  dx_num_shards :: nat

definition demux_new :: "nat \<Rightarrow> demux" where
  "demux_new num_shards = \<lparr>dx_shards = replicate num_shards [], dx_num_shards = num_shards\<rparr>"

definition demux_default :: demux where
  "demux_default = demux_new 64"

text \<open>\<open>(id as usize) % self.num_shards\<close> panics when there is no shard.\<close>

definition demux_shard :: "demux \<Rightarrow> u32 \<Rightarrow> nat run" where
  "demux_shard d cid = (if dx_num_shards d = 0 then None else Some (unat cid mod dx_num_shards d))"

definition demux_insert :: "demux \<Rightarrow> u32 \<Rightarrow> tx \<Rightarrow> int \<Rightarrow> (bool \<times> demux) run" where
  "demux_insert d corr_id tx sent_at = do {
     shard \<leftarrow> demux_shard d corr_id;
     m \<leftarrow> rd (dx_shards d) shard;
     if hm_has m corr_id then Some (False, d)
     else Some (True, d\<lparr>dx_shards := (dx_shards d)[shard :=
       hm_insert corr_id \<lparr>de_tx = tx, de_sent_at = sent_at\<rparr> m]\<rparr>)
   }"

definition demux_remove :: "demux \<Rightarrow> u32 \<Rightarrow> (tx option \<times> demux) run" where
  "demux_remove d corr_id = do {
     shard \<leftarrow> demux_shard d corr_id;
     m \<leftarrow> rd (dx_shards d) shard;
     Some (map_option de_tx (hm_get m corr_id),
           d\<lparr>dx_shards := (dx_shards d)[shard := hm_remove corr_id m]\<rparr>)
   }"

text \<open>
  \<open>cleanup\<close>: first the expired ids of every shard are collected with their shard, then each
  one is removed from its shard (if it is still there) and its sender notified.
\<close>

definition expired_in :: "int \<Rightarrow> nat \<Rightarrow> (u32, demux_entry) hmap \<Rightarrow> (u32 \<times> nat) list" where
  "expired_in threshold shard m =
     map (\<lambda>(cid, _). (cid, shard)) (filter (\<lambda>(_, entry). de_sent_at entry < threshold) m)"

definition collect_expired :: "int \<Rightarrow> demux \<Rightarrow> (u32 \<times> nat) list" where
  "collect_expired threshold d =
     concat (map2 (expired_in threshold) [0..<length (dx_shards d)] (dx_shards d))"

fun remove_expired ::
  "(u32 \<times> nat) list \<Rightarrow> demux \<Rightarrow> (tx \<times> demux_result) list \<Rightarrow> (demux \<times> (tx \<times> demux_result) list) run"
where
  "remove_expired [] d sent = Some (d, sent)"
| "remove_expired ((cid, shard) # timed_out) d sent = do {
     m \<leftarrow> rd (dx_shards d) shard;
     case hm_get m cid of
       Some entry \<Rightarrow>
         remove_expired timed_out (d\<lparr>dx_shards := (dx_shards d)[shard := hm_remove cid m]\<rparr>)
           (sent @ [(de_tx entry, Inl DE_Timeout)])
     | None \<Rightarrow> remove_expired timed_out d sent
   }"

definition demux_cleanup ::
  "demux \<Rightarrow> int \<Rightarrow> int \<Rightarrow> (demux \<times> (tx \<times> demux_result) list) run" where
  "demux_cleanup d now max_age =
     (let threshold = now - max_age in remove_expired (collect_expired threshold d) d [])"

text \<open>\<open>fail_all\<close> drains every shard and then notifies every sender.\<close>

definition demux_fail_all :: "demux \<Rightarrow> demux \<times> (tx \<times> demux_result) list" where
  "demux_fail_all d =
     (d\<lparr>dx_shards := map (\<lambda>_. []) (dx_shards d)\<rparr>,
      map (\<lambda>(_, entry). (de_tx entry, Inl DE_ConnectionClosed)) (concat (dx_shards d)))"

definition demux_pending_count :: "demux \<Rightarrow> nat" where
  "demux_pending_count d = sum_list (map length (dx_shards d))"

section \<open>The contract\<close>

text \<open>
  One table of waiters: insertion refuses an id in use, removal returns the waiter, failing
  everything empties the table and notifies exactly the waiters it held.
\<close>

locale waiter_table =
  fixes ins :: "'d \<Rightarrow> u32 \<Rightarrow> tx \<Rightarrow> int \<Rightarrow> (bool \<times> 'd) run"
    and rem :: "'d \<Rightarrow> u32 \<Rightarrow> (tx option \<times> 'd) run"
    and fail_all :: "'d \<Rightarrow> 'd \<times> (tx \<times> demux_result) list"
    and entry :: "'d \<Rightarrow> u32 \<Rightarrow> demux_entry option"
    and ok :: "'d \<Rightarrow> bool"
  assumes ins_used: "ok d \<Longrightarrow> entry d i = Some e \<Longrightarrow> ins d i t at = Some (False, d)"
    and ins_free: "ok d \<Longrightarrow> entry d i = None \<Longrightarrow>
          \<exists>d'. ins d i t at = Some (True, d') \<and> ok d' \<and>
               entry d' = (entry d)(i \<mapsto> \<lparr>de_tx = t, de_sent_at = at\<rparr>)"
    and rem_entry: "ok d \<Longrightarrow>
          \<exists>d'. rem d i = Some (map_option de_tx (entry d i), d') \<and> ok d' \<and>
               entry d' = (entry d)(i := None)"
    and fail_all_empty: "ok d \<Longrightarrow> ok (fst (fail_all d)) \<and> entry (fst (fail_all d)) = Map.empty"
    and fail_all_sent: "ok d \<Longrightarrow> \<exists>ids. distinct ids \<and> set ids = dom (entry d) \<and>
          snd (fail_all d) = map (\<lambda>i. (de_tx (the (entry d i)), Inl DE_ConnectionClosed)) ids"
begin

text \<open>The waiters of a table, and what the operations do to them.\<close>

definition waiting :: "'d \<Rightarrow> u32 \<Rightarrow> tx option" where
  "waiting d i = map_option de_tx (entry d i)"

lemma rem_waiting: "ok d \<Longrightarrow> rem d i = Some r \<Longrightarrow>
    fst r = waiting d i \<and> ok (snd r) \<and> waiting (snd r) = (waiting d)(i := None)"
  using rem_entry [of d i] by (auto simp: waiting_def fun_eq_iff)

lemma rem_run: "ok d \<Longrightarrow> \<exists>d'. rem d i = Some (waiting d i, d')"
  using rem_entry [of d i] by (auto simp: waiting_def)

lemma ins_run: "ok d \<Longrightarrow> \<exists>b d'. ins d i t at = Some (b, d')"
  using ins_used [of d i _ t at] ins_free [of d i t at] by (cases "entry d i") auto

lemma ins_waiting: "ok d \<Longrightarrow> ins d i t at = Some (b, d') \<Longrightarrow>
    b = (waiting d i = None) \<and> ok d' \<and>
    waiting d' = (if b then (waiting d)(i \<mapsto> t) else waiting d)"
  using ins_used [of d i _ t at] ins_free [of d i t at]
  by (cases "entry d i") (auto simp: waiting_def fun_eq_iff)

lemma fail_all_waiting:
  assumes "ok d" and "fail_all d = (d', sent)"
  shows "ok d' \<and> waiting d' = Map.empty \<and> (\<exists>ids. distinct ids \<and> set ids = dom (waiting d) \<and>
    sent = map (\<lambda>i. (the (waiting d i), Inl DE_ConnectionClosed)) ids)"
proof -
  obtain ids where ids: "distinct ids" "set ids = dom (entry d)"
    "sent = map (\<lambda>i. (de_tx (the (entry d i)), Inl DE_ConnectionClosed)) ids"
    using fail_all_sent [OF assms(1)] assms(2) by auto
  have "dom (waiting d) = dom (entry d)" by (auto simp: waiting_def)
  moreover have "sent = map (\<lambda>i. (the (waiting d i), Inl DE_ConnectionClosed)) ids"
    using ids by (auto simp: waiting_def)
  ultimately show ?thesis
    using ids fail_all_empty [OF assms(1)] assms(2) by (auto simp: waiting_def fun_eq_iff)
qed

text \<open>A waiter that is removed is found once: a second removal finds nothing.\<close>

lemma rem_twice:
  assumes "ok d" and "rem d i = Some (w, d')"
  shows "\<exists>d''. rem d' i = Some (None, d'')"
  using rem_waiting [OF assms] rem_run [of d' i] by auto

lemma ins_then_rem:
  assumes "ok d" and "ins d i t at = Some (True, d')"
  shows "\<exists>d''. rem d' i = Some (Some t, d'')"
  using ins_waiting [OF assms] rem_run [of d' i] by auto

end

section \<open>The sharded table meets the contract\<close>

text \<open>The shards are as many as announced, and an id is only ever in its own shard.\<close>

definition demux_ok :: "demux \<Rightarrow> bool" where
  "demux_ok d \<longleftrightarrow> 0 < dx_num_shards d \<and> length (dx_shards d) = dx_num_shards d \<and>
     (\<forall>s < dx_num_shards d. hm_ok (dx_shards d ! s) \<and>
        (\<forall>cid. hm_has (dx_shards d ! s) cid \<longrightarrow> unat cid mod dx_num_shards d = s))"

definition demux_entry_of :: "demux \<Rightarrow> u32 \<Rightarrow> demux_entry option" where
  "demux_entry_of d cid = hm_get (dx_shards d ! (unat cid mod dx_num_shards d)) cid"

lemma demux_ok_new: "0 < n \<Longrightarrow> demux_ok (demux_new n)"
  by (simp add: demux_ok_def demux_new_def)

lemma demux_ok_default [simp]: "demux_ok demux_default"
  by (simp add: demux_default_def demux_ok_new)

lemma demux_entry_of_default [simp]: "demux_entry_of demux_default = Map.empty"
  by (simp add: demux_entry_of_def demux_default_def demux_new_def fun_eq_iff)

lemma demux_shard_run [run_simps]:
  "demux_ok d \<Longrightarrow> demux_shard d cid = Some (unat cid mod dx_num_shards d)"
  by (simp add: demux_shard_def demux_ok_def)

lemma demux_rd_run [run_simps]:
  "demux_ok d \<Longrightarrow> rd (dx_shards d) (unat cid mod dx_num_shards d) =
     Some (dx_shards d ! (unat cid mod dx_num_shards d))"
  by (simp add: rd_def demux_ok_def)

text \<open>Replacing the shard of an id keeps the shape, and changes the view at that shard only.\<close>

lemma demux_update_shard:
  assumes "demux_ok d" and s: "s < dx_num_shards d" and "hm_ok m"
    and "\<forall>cid. hm_has m cid \<longrightarrow> unat cid mod dx_num_shards d = s"
  shows "demux_ok (d\<lparr>dx_shards := (dx_shards d)[s := m]\<rparr>)"
    and "demux_entry_of (d\<lparr>dx_shards := (dx_shards d)[s := m]\<rparr>) =
      (\<lambda>cid. if unat cid mod dx_num_shards d = s then hm_get m cid else demux_entry_of d cid)"
  using assms by (auto simp: demux_ok_def demux_entry_of_def nth_list_update fun_eq_iff)

lemma demux_own_shard:
  "demux_ok d \<Longrightarrow> unat cid mod dx_num_shards d < dx_num_shards d"
  by (simp add: demux_ok_def)

lemma demux_own_shard_has:
  "demux_ok d \<Longrightarrow> s < dx_num_shards d \<Longrightarrow> hm_get (dx_shards d ! s) cid = Some e \<Longrightarrow>
   unat cid mod dx_num_shards d = s"
  by (auto simp: demux_ok_def)

lemma demux_insert_used:
  "demux_ok d \<Longrightarrow> demux_entry_of d cid = Some e \<Longrightarrow> demux_insert d cid t at = Some (False, d)"
  by (simp add: demux_insert_def run_simps demux_entry_of_def)

lemma demux_insert_free:
  assumes ok: "demux_ok d" and free: "demux_entry_of d cid = None"
  shows "\<exists>d'. demux_insert d cid t at = Some (True, d') \<and> demux_ok d' \<and>
    demux_entry_of d' = (demux_entry_of d)(cid \<mapsto> \<lparr>de_tx = t, de_sent_at = at\<rparr>)"
proof -
  let ?s = "unat cid mod dx_num_shards d"
  let ?m = "hm_insert cid \<lparr>de_tx = t, de_sent_at = at\<rparr> (dx_shards d ! ?s)"
  have s: "?s < dx_num_shards d" using ok by (rule demux_own_shard)
  have "hm_ok ?m" using ok s by (simp add: demux_ok_def)
  moreover have "\<forall>i. hm_has ?m i \<longrightarrow> unat i mod dx_num_shards d = ?s"
    using ok s by (auto simp: hmap_simps demux_ok_def)
  ultimately have upd: "demux_ok (d\<lparr>dx_shards := (dx_shards d)[?s := ?m]\<rparr>)"
    "demux_entry_of (d\<lparr>dx_shards := (dx_shards d)[?s := ?m]\<rparr>) =
      (\<lambda>i. if unat i mod dx_num_shards d = ?s then hm_get ?m i else demux_entry_of d i)"
    using ok s by (auto intro: demux_update_shard)
  have "demux_entry_of (d\<lparr>dx_shards := (dx_shards d)[?s := ?m]\<rparr>) =
      (demux_entry_of d)(cid \<mapsto> \<lparr>de_tx = t, de_sent_at = at\<rparr>)"
    unfolding upd(2) by (auto simp: fun_eq_iff hmap_simps demux_entry_of_def)
  with upd(1) ok free show ?thesis
    by (simp add: demux_insert_def run_simps demux_entry_of_def [symmetric])
qed

lemma demux_remove_entry:
  assumes ok: "demux_ok d"
  shows "\<exists>d'. demux_remove d cid = Some (map_option de_tx (demux_entry_of d cid), d') \<and>
    demux_ok d' \<and> demux_entry_of d' = (demux_entry_of d)(cid := None)"
proof -
  let ?s = "unat cid mod dx_num_shards d"
  let ?m = "hm_remove cid (dx_shards d ! ?s)"
  have s: "?s < dx_num_shards d" using ok by (rule demux_own_shard)
  have "hm_ok ?m" using ok s by (simp add: demux_ok_def)
  moreover have "\<forall>i. hm_has ?m i \<longrightarrow> unat i mod dx_num_shards d = ?s"
    using ok s by (auto simp: hmap_simps demux_ok_def)
  ultimately have upd: "demux_ok (d\<lparr>dx_shards := (dx_shards d)[?s := ?m]\<rparr>)"
    "demux_entry_of (d\<lparr>dx_shards := (dx_shards d)[?s := ?m]\<rparr>) =
      (\<lambda>i. if unat i mod dx_num_shards d = ?s then hm_get ?m i else demux_entry_of d i)"
    using ok s by (auto intro: demux_update_shard)
  have "demux_entry_of (d\<lparr>dx_shards := (dx_shards d)[?s := ?m]\<rparr>) =
      (demux_entry_of d)(cid := None)"
    unfolding upd(2) by (auto simp: fun_eq_iff hmap_simps demux_entry_of_def)
  with upd(1) ok show ?thesis
    by (simp add: demux_remove_def run_simps demux_entry_of_def [symmetric])
qed

text \<open>The entries of all shards, listed: every id once, with its entry.\<close>

lemma demux_listed:
  assumes ok: "demux_ok d"
  shows "(cid, e) \<in> set (concat (dx_shards d)) \<longleftrightarrow> demux_entry_of d cid = Some e"
proof
  assume "(cid, e) \<in> set (concat (dx_shards d))"
  then obtain m where "m \<in> set (dx_shards d)" "(cid, e) \<in> set m" by auto
  then obtain s where s: "s < length (dx_shards d)" "(cid, e) \<in> set (dx_shards d ! s)"
    by (auto simp: in_set_conv_nth [of m])
  then have get: "hm_get (dx_shards d ! s) cid = Some e" and n: "s < dx_num_shards d"
    using ok by (auto simp: demux_ok_def hm_get_def hm_ok_def)
  with demux_own_shard_has [OF ok n get] show "demux_entry_of d cid = Some e"
    by (simp add: demux_entry_of_def)
next
  assume "demux_entry_of d cid = Some e"
  then have get: "hm_get (dx_shards d ! (unat cid mod dx_num_shards d)) cid = Some e"
    by (simp add: demux_entry_of_def)
  have "dx_shards d ! (unat cid mod dx_num_shards d) \<in> set (dx_shards d)"
    using ok demux_own_shard [OF ok] by (simp add: demux_ok_def)
  with get show "(cid, e) \<in> set (concat (dx_shards d))"
    by (force simp: hm_get_def dest: map_of_SomeD)
qed

lemma distinct_demux_ids:
  assumes ok: "demux_ok d"
  shows "distinct (map fst (concat (dx_shards d)))"
proof -
  have "distinct (concat (map (\<lambda>s. map fst (dx_shards d ! s)) [0..<length (dx_shards d)]))"
  proof (rule distinct_concat_buckets [where bucket = "\<lambda>cid. unat cid mod dx_num_shards d"])
    fix s assume "s < length (dx_shards d)"
    then have s: "hm_ok (dx_shards d ! s)" "s < dx_num_shards d" using ok by (auto simp: demux_ok_def)
    then show "distinct (map fst (dx_shards d ! s))" by (simp add: hm_ok_def)
    fix cid assume "cid \<in> set (map fst (dx_shards d ! s))"
    then have "hm_has (dx_shards d ! s) cid"
      using hm_keys_iff [of cid "dx_shards d ! s"] by (simp add: hm_keys_def)
    with s show "unat cid mod dx_num_shards d = s" using ok by (auto simp: demux_ok_def)
  qed
  moreover have "map (\<lambda>s. map fst (dx_shards d ! s)) [0..<length (dx_shards d)] =
      map (map fst) (dx_shards d)"
    by (rule nth_equalityI) auto
  ultimately show ?thesis by (simp add: map_concat)
qed

lemma set_demux_ids:
  assumes ok: "demux_ok d"
  shows "set (map fst (concat (dx_shards d))) = dom (demux_entry_of d)"
  using demux_listed [OF ok] by (force simp: dom_def simp del: set_concat)

lemma demux_fail_all_empty:
  assumes ok: "demux_ok d"
  shows "demux_ok (fst (demux_fail_all d)) \<and> demux_entry_of (fst (demux_fail_all d)) = Map.empty"
  using ok demux_own_shard [OF ok]
  by (auto simp: demux_fail_all_def demux_ok_def demux_entry_of_def fun_eq_iff)

lemma demux_fail_all_sent:
  assumes ok: "demux_ok d"
  shows "\<exists>ids. distinct ids \<and> set ids = dom (demux_entry_of d) \<and>
    snd (demux_fail_all d) =
      map (\<lambda>i. (de_tx (the (demux_entry_of d i)), Inl DE_ConnectionClosed)) ids"
proof (intro exI conjI)
  show "distinct (map fst (concat (dx_shards d)))" by (rule distinct_demux_ids [OF ok])
  show "set (map fst (concat (dx_shards d))) = dom (demux_entry_of d)" by (rule set_demux_ids [OF ok])
  show "snd (demux_fail_all d) = map (\<lambda>i. (de_tx (the (demux_entry_of d i)),
      Inl DE_ConnectionClosed)) (map fst (concat (dx_shards d)))"
    using demux_listed [OF ok] by (auto simp: demux_fail_all_def simp del: set_concat)
qed

interpretation dx: waiter_table demux_insert demux_remove demux_fail_all demux_entry_of demux_ok
  by unfold_locales
     (use demux_insert_used demux_insert_free demux_remove_entry demux_fail_all_empty
        demux_fail_all_sent in auto)

section \<open>Clean-up and count\<close>

text \<open>
  \<open>cleanup\<close> removes exactly the entries sent before the threshold; the removals of one pass do
  not disturb one another, since an entry is collected once, under its own shard.
\<close>

definition demux_drop :: "demux \<Rightarrow> u32 list \<Rightarrow> u32 \<Rightarrow> demux_entry option" where
  "demux_drop d gone cid = (if cid \<in> set gone then None else demux_entry_of d cid)"

lemma remove_expired_spec:
  assumes "demux_ok d"
    and "\<forall>(cid, s) \<in> set todo. s = unat cid mod dx_num_shards d \<and> demux_entry_of d cid \<noteq> None"
    and "distinct (map fst todo)"
  shows "\<exists>d'. remove_expired todo d sent =
      Some (d', sent @ map (\<lambda>(cid, _). (de_tx (the (demux_entry_of d cid)), Inl DE_Timeout)) todo) \<and>
    demux_ok d' \<and> demux_entry_of d' = demux_drop d (map fst todo)"
  using assms
proof (induction todo arbitrary: d sent)
  case Nil
  then show ?case by (simp add: demux_drop_def fun_eq_iff)
next
  case (Cons p todo)
  obtain cid s where p: "p = (cid, s)" by (cases p)
  from Cons.prems obtain e where s: "s = unat cid mod dx_num_shards d"
    and e: "demux_entry_of d cid = Some e" by (auto simp: p)
  let ?d = "d\<lparr>dx_shards := (dx_shards d)[s := hm_remove cid (dx_shards d ! s)]\<rparr>"
  obtain d1 where "demux_remove d cid = Some (Some (de_tx e), d1)" and ok1: "demux_ok d1"
    and e1: "demux_entry_of d1 = (demux_entry_of d)(cid := None)"
    using demux_remove_entry [OF Cons.prems(1), of cid] e by auto
  then have d1: "d1 = ?d"
    using Cons.prems(1) by (simp add: demux_remove_def run_simps s)
  have step: "remove_expired (p # todo) d sent =
      remove_expired todo d1 (sent @ [(de_tx e, Inl DE_Timeout)])"
    using e Cons.prems(1) by (simp add: p s run_simps demux_entry_of_def [symmetric] d1)
  have num: "dx_num_shards d1 = dx_num_shards d" by (simp add: d1)
  have notin: "cid \<notin> fst ` set todo" using Cons.prems(3) by (simp add: p)
  have "\<forall>(i, s) \<in> set todo. s = unat i mod dx_num_shards d1 \<and> demux_entry_of d1 i \<noteq> None"
    using Cons.prems(2) notin by (force simp: num e1)
  with Cons.IH [OF ok1, of "sent @ [(de_tx e, Inl DE_Timeout)]"] Cons.prems(3) obtain d2 where
    d2: "remove_expired todo d1 (sent @ [(de_tx e, Inl DE_Timeout)]) =
      Some (d2, (sent @ [(de_tx e, Inl DE_Timeout)]) @
        map (\<lambda>(i, _). (de_tx (the (demux_entry_of d1 i)), Inl DE_Timeout)) todo)"
    and ok2: "demux_ok d2" and e2: "demux_entry_of d2 = demux_drop d1 (map fst todo)"
    by auto
  have "map (\<lambda>(i, _). (de_tx (the (demux_entry_of d1 i)), Inl DE_Timeout)) todo =
      map (\<lambda>(i, _). (de_tx (the (demux_entry_of d i)), Inl DE_Timeout :: demux_result)) todo"
    using notin by (force simp: e1)
  moreover have "demux_drop d1 (map fst todo) = demux_drop d (map fst (p # todo))"
    by (auto simp: demux_drop_def fun_eq_iff e1 p)
  ultimately show ?case using step d2 ok2 e2 e by (simp add: p)
qed

lemma collect_expired_shards:
  "collect_expired threshold d =
     concat (map (\<lambda>s. expired_in threshold s (dx_shards d ! s)) [0..<length (dx_shards d)])"
proof -
  have "map2 (expired_in threshold) [0..<length (dx_shards d)] (dx_shards d) =
      map (\<lambda>s. expired_in threshold s (dx_shards d ! s)) [0..<length (dx_shards d)]"
    by (rule nth_equalityI) auto
  then show ?thesis by (simp add: collect_expired_def)
qed

lemma expired_in_iff:
  "hm_ok m \<Longrightarrow> (cid, s') \<in> set (expired_in threshold s m) \<longleftrightarrow>
     s' = s \<and> (\<exists>e. hm_get m cid = Some e \<and> de_sent_at e < threshold)"
  by (auto simp: expired_in_def hm_get_def hm_ok_def image_iff)

lemma distinct_expired_in: "hm_ok m \<Longrightarrow> distinct (map fst (expired_in threshold s m))"
  by (auto simp: expired_in_def hm_ok_def distinct_map comp_def case_prod_beta inj_on_def
      intro: distinct_filter)

lemma collect_expired_iff:
  assumes ok: "demux_ok d"
  shows "(cid, s) \<in> set (collect_expired threshold d) \<longleftrightarrow> s = unat cid mod dx_num_shards d \<and>
    (\<exists>e. demux_entry_of d cid = Some e \<and> de_sent_at e < threshold)"
proof -
  have "(cid, s) \<in> set (collect_expired threshold d) \<longleftrightarrow>
      s < dx_num_shards d \<and> (\<exists>e. hm_get (dx_shards d ! s) cid = Some e \<and> de_sent_at e < threshold)"
    using ok by (auto simp: collect_expired_shards expired_in_iff demux_ok_def)
  then show ?thesis
    using demux_own_shard_has [OF ok] demux_own_shard [OF ok] by (auto simp: demux_entry_of_def)
qed

lemma distinct_collect_expired:
  assumes ok: "demux_ok d"
  shows "distinct (map fst (collect_expired threshold d))"
proof -
  have "distinct (concat (map (\<lambda>s. map fst (expired_in threshold s (dx_shards d ! s)))
      [0..<length (dx_shards d)]))"
  proof (rule distinct_concat_buckets [where bucket = "\<lambda>cid. unat cid mod dx_num_shards d"])
    fix s assume "s < length (dx_shards d)"
    then have s: "hm_ok (dx_shards d ! s)" "s < dx_num_shards d" using ok by (auto simp: demux_ok_def)
    then show "distinct (map fst (expired_in threshold s (dx_shards d ! s)))"
      by (simp add: distinct_expired_in)
    fix cid assume "cid \<in> set (map fst (expired_in threshold s (dx_shards d ! s)))"
    with s show "unat cid mod dx_num_shards d = s"
      using demux_own_shard_has [OF ok] by (auto simp: expired_in_iff)
  qed
  then show ?thesis by (simp add: collect_expired_shards map_concat comp_def)
qed

lemma demux_cleanup_spec:
  assumes ok: "demux_ok d"
  shows "\<exists>d' sent. demux_cleanup d now max_age = Some (d', sent) \<and> demux_ok d' \<and>
    (\<forall>cid. demux_entry_of d' cid = (case demux_entry_of d cid of None \<Rightarrow> None
       | Some e \<Rightarrow> if de_sent_at e < now - max_age then None else Some e)) \<and>
    set sent = {(de_tx e, Inl DE_Timeout) | e.
       e \<in> ran (demux_entry_of d) \<and> de_sent_at e < now - max_age}"
proof -
  let ?todo = "collect_expired (now - max_age) d"
  note iff = collect_expired_iff [OF ok, of _ _ "now - max_age"]
  have todo: "\<forall>(cid, s) \<in> set ?todo. s = unat cid mod dx_num_shards d \<and> demux_entry_of d cid \<noteq> None"
    by (auto simp: iff)
  from remove_expired_spec [OF ok todo distinct_collect_expired [OF ok], of "[]"]
  obtain d' where d': "demux_cleanup d now max_age =
      Some (d', map (\<lambda>(cid, _). (de_tx (the (demux_entry_of d cid)), Inl DE_Timeout)) ?todo)"
    and ok': "demux_ok d'" and ent: "demux_entry_of d' = demux_drop d (map fst ?todo)"
    by (auto simp: demux_cleanup_def Let_def)
  have gone: "cid \<in> set (map fst ?todo) \<longleftrightarrow>
      (\<exists>e. demux_entry_of d cid = Some e \<and> de_sent_at e < now - max_age)" for cid
    using iff [of cid] by (force simp: image_iff)
  have "demux_entry_of d' cid = (case demux_entry_of d cid of None \<Rightarrow> None
      | Some e \<Rightarrow> if de_sent_at e < now - max_age then None else Some e)" for cid
    using gone [of cid] by (auto simp: ent demux_drop_def split: option.splits)
  moreover have "set (map (\<lambda>(cid, _). (de_tx (the (demux_entry_of d cid)), Inl DE_Timeout)) ?todo) =
      {(de_tx e, Inl DE_Timeout :: demux_result) | e.
        e \<in> ran (demux_entry_of d) \<and> de_sent_at e < now - max_age}"
    (is "set (map ?f _) = ?R")
  proof (intro equalityI subsetI)
    fix p assume "p \<in> set (map ?f ?todo)"
    then obtain cid s where "(cid, s) \<in> set ?todo" "p = ?f (cid, s)" by auto
    then show "p \<in> ?R" by (auto simp: iff intro: ranI)
  next
    fix p assume "p \<in> ?R"
    then obtain e cid where e: "p = (de_tx e, Inl DE_Timeout)" "demux_entry_of d cid = Some e"
      "de_sent_at e < now - max_age" by (auto simp: ran_def)
    then have "(cid, unat cid mod dx_num_shards d) \<in> set ?todo" by (simp add: iff)
    with e show "p \<in> set (map ?f ?todo)" by (force simp: image_iff)
  qed
  ultimately show ?thesis using d' ok' by blast
qed

text \<open>The pending count is the number of ids that wait.\<close>

lemma demux_pending_count_card:
  assumes ok: "demux_ok d"
  shows "demux_pending_count d = card (dom (demux_entry_of d))"
proof -
  have "demux_pending_count d = length (map fst (concat (dx_shards d)))"
    by (simp add: demux_pending_count_def length_concat)
  then show ?thesis
    using set_demux_ids [OF ok] distinct_card [OF distinct_demux_ids [OF ok]] by simp
qed

text \<open>Whether a sender is still held by the table (it is dropped with its entry).\<close>

definition demux_holds :: "demux \<Rightarrow> tx \<Rightarrow> bool" where
  "demux_holds d t = list_ex (\<lambda>(_, e). de_tx e = t) (concat (dx_shards d))"

lemma demux_holds_iff:
  assumes ok: "demux_ok d"
  shows "demux_holds d t \<longleftrightarrow> (\<exists>cid. dx.waiting d cid = Some t)"
proof -
  have "demux_holds d t \<longleftrightarrow> (\<exists>cid e. (cid, e) \<in> set (concat (dx_shards d)) \<and> de_tx e = t)"
    by (auto simp: demux_holds_def list_ex_iff simp del: set_concat)
  then show ?thesis unfolding demux_listed [OF ok] by (auto simp: dx.waiting_def)
qed

end
