(* ===== verification/Connection.thy ===== *)
theory Connection
  imports Protocol Config Demux
begin

text \<open>
  A persistent connection to a hop, from \<open>src/connection.rs\<close>: the shared \<open>ConnectionInner\<close>
  together with the local state of its three tasks (writer, reader, keepalive), the bounded
  channel between them, and the one-shot channels of the requests in flight. An event is one
  uninterrupted step of one task; what runs between two awaits of a request is a list of events.
  The connection uses the demultiplexer through the contract \<open>waiter_table\<close> only.
\<close>

section \<open>State\<close>

text \<open>
  \<open>cn_owner\<close> lists, for every one-shot channel ever created, the correlation id it was created
  for: a channel is its index. \<open>cn_mail\<close> holds the values sent on them. \<open>cn_wire\<close> is the list
  of frames written to the socket.
\<close>

record conn =
  cn_id :: u64
  cn_addr :: string
  cn_demux :: demux
  cn_corr_id :: u32
  cn_closed :: bool
  cn_timeout :: duration
  cn_queue :: "byte list list"
  cn_capacity :: nat
  cn_writer :: bool
  cn_reader :: bool
  cn_keepalive :: bool
  cn_rbuf :: "byte list"
  cn_wire :: "byte list list"
  cn_owner :: "u32 list"
  cn_mail :: "(tx \<times> demux_result) list"

text \<open>
  \<open>connect\<close>: opening the socket is the operating system's; \<open>dial\<close> gives its error, if any, for
  an address.
\<close>

definition connect ::
  "(string \<Rightarrow> string option) \<Rightarrow> string \<Rightarrow> u16 \<Rightarrow> config \<Rightarrow> u64 \<Rightarrow> rz_error + conn" where
  "connect dial addr port config conn_id =
     (let full_addr = host_port addr port in
      case dial full_addr of
        Some e \<Rightarrow> Inl (rz_error_from_io e)
      | None \<Rightarrow> Inr \<lparr>cn_id = conn_id, cn_addr = full_addr, cn_demux = demux_default,
          cn_corr_id = 1, cn_closed = False,
          cn_timeout = from_secs (cfg_request_timeout_secs config),
          cn_queue = [], cn_capacity = max (cfg_max_connections config) 1024,
          cn_writer = True, cn_reader = True,
          cn_keepalive = (app_keepalive_interval config \<noteq> 0),
          cn_rbuf = [], cn_wire = [], cn_owner = [], cn_mail = []\<rparr>)"

definition is_closed :: "conn \<Rightarrow> bool" where
  "is_closed c = cn_closed c"

definition close :: "conn \<Rightarrow> conn" where
  "close c = c\<lparr>cn_closed := True\<rparr>"

text \<open>\<open>fetch_add\<close> wraps around; the loop skips the reserved id 0.\<close>

function next_corr_id :: "conn \<Rightarrow> u32 \<times> conn" where
  "next_corr_id c =
     (let cid = cn_corr_id c; c' = c\<lparr>cn_corr_id := cid + 1\<rparr>
      in if cid \<noteq> 0 then (cid, c') else next_corr_id c')"
  by pat_completeness auto
termination
  by (relation "measure (\<lambda>c. if cn_corr_id c = 0 then 1 else 0)") auto

declare next_corr_id.simps [simp del]

section \<open>The tasks\<close>

definition deliver :: "(tx \<times> demux_result) list \<Rightarrow> conn \<Rightarrow> conn" where
  "deliver sent c = c\<lparr>cn_mail := cn_mail c @ sent\<rparr>"

text \<open>\<open>inner.demux.fail_all().await\<close>\<close>

definition fail_pending :: "conn \<Rightarrow> conn" where
  "fail_pending c = (let (d, sent) = demux_fail_all (cn_demux c) in deliver sent (c\<lparr>cn_demux := d\<rparr>))"

text \<open>
  Writer task: one frame from the channel. When it stops, the receiving end of the channel is
  dropped with what it still holds.
\<close>

definition stop_writer :: "conn \<Rightarrow> conn" where
  "stop_writer c = (fail_pending c)\<lparr>cn_closed := True, cn_writer := False, cn_queue := []\<rparr>"

definition writer_step :: "bool \<Rightarrow> bool \<Rightarrow> conn \<Rightarrow> conn" where
  "writer_step write_ok flush_ok c =
     (if \<not> cn_writer c then c
      else case cn_queue c of
        [] \<Rightarrow> c
      | frame # queue \<Rightarrow>
          (let c = c\<lparr>cn_queue := queue\<rparr> in
           if cn_closed c then stop_writer c
           else if \<not> write_ok then stop_writer (c\<lparr>cn_closed := True\<rparr>)
           else (let c = c\<lparr>cn_wire := cn_wire c @ [frame]\<rparr> in
             if \<not> flush_ok then stop_writer (c\<lparr>cn_closed := True\<rparr>) else c)))"

text \<open>Reader task: what one turn of its loop does with the bytes at hand.\<close>

datatype reader_action =
    RA_Wait
  | RA_Skip "byte list"
  | RA_Frame u32 "byte list" "byte list"

definition reader_turn :: "byte list \<Rightarrow> reader_action run" where
  "reader_turn buf =
     (if length buf < 9 then Some RA_Wait
      else do {
        magic \<leftarrow> rd buf 0;
        if magic \<noteq> 0xFF then do { rest \<leftarrow> advance 1 buf; Some (RA_Skip rest) }
        else do {
          clrid_bytes \<leftarrow> slice buf 1 5;
          len_bytes \<leftarrow> slice buf 5 9;
          let payload_len = unat (from_le len_bytes :: u32);
          let frame_len = 9 + payload_len;
          if length buf < frame_len then Some RA_Wait
          else do {
            (frame, rest) \<leftarrow> split_to frame_len buf;
            Some (RA_Frame (from_le clrid_bytes) frame rest)
          }
        }
      })"

lemma reader_turn_shorter:
  "reader_turn buf = Some (RA_Skip r) \<Longrightarrow> length r < length buf"
  "reader_turn buf = Some (RA_Frame i f r) \<Longrightarrow> length r < length buf"
  by (auto simp: reader_turn_def advance_def split_to_def Let_def
      split: if_splits bind_splits prod.splits)

text \<open>All complete frames of the buffer, with their ids, and the bytes that stay in it.\<close>

function reader_frames :: "byte list \<Rightarrow> ((u32 \<times> byte list) list \<times> byte list) run" where
  "reader_frames buf =
     (case reader_turn buf of
        None \<Rightarrow> None
      | Some RA_Wait \<Rightarrow> Some ([], buf)
      | Some (RA_Skip rest) \<Rightarrow> reader_frames rest
      | Some (RA_Frame cid frame rest) \<Rightarrow>
          (case reader_frames rest of
             None \<Rightarrow> None
           | Some (frames, left) \<Rightarrow> Some ((cid, frame) # frames, left)))"
  by pat_completeness auto
termination
  by (relation "measure length") (auto dest: reader_turn_shorter)

declare reader_frames.simps [simp del]

text \<open>Each frame goes to the waiter of its id, if there is one.\<close>

fun dispatch :: "(u32 \<times> byte list) list \<Rightarrow> conn \<Rightarrow> conn run" where
  "dispatch [] c = Some c"
| "dispatch ((cid, frame) # frames) c = do {
     (waiter, d) \<leftarrow> demux_remove (cn_demux c) cid;
     let c = c\<lparr>cn_demux := d\<rparr>;
     dispatch frames (case waiter of Some t \<Rightarrow> deliver [(t, Inr frame)] c | None \<Rightarrow> c)
   }"

definition reader_read :: "byte list \<Rightarrow> conn \<Rightarrow> conn run" where
  "reader_read bytes c =
     (if \<not> cn_reader c then Some c
      else do {
        (frames, left) \<leftarrow> reader_frames (cn_rbuf c @ bytes);
        dispatch frames (c\<lparr>cn_rbuf := left\<rparr>)
      })"

text \<open>End of file, and a read error: the four branches of the reader do the same.\<close>

definition reader_stop :: "conn \<Rightarrow> conn" where
  "reader_stop c =
     (if \<not> cn_reader c then c else (fail_pending (c\<lparr>cn_closed := True\<rparr>))\<lparr>cn_reader := False\<rparr>)"

text \<open>Keepalive task: one tick of its timer.\<close>

definition keepalive_tick :: "conn \<Rightarrow> conn" where
  "keepalive_tick c =
     (if \<not> cn_keepalive c then c
      else if cn_closed c then c\<lparr>cn_keepalive := False\<rparr>
      else if \<not> cn_writer c then c\<lparr>cn_keepalive := False\<rparr>
      else if cn_capacity c \<le> length (cn_queue c) then c
      else c\<lparr>cn_queue := cn_queue c @ [build_keepalive_frame 0]\<rparr>)"

section \<open>Requests\<close>

text \<open>
  \<open>send_and_wait\<close> up to the wait: register the waiter, then hand the frame to the writer. The
  channel refuses it when the writer is gone or when it is full.
\<close>

definition send_begin ::
  "conn \<Rightarrow> byte list \<Rightarrow> u32 \<Rightarrow> int \<Rightarrow> ((rz_error + tx) \<times> conn) run" where
  "send_begin c frame new_clrid now =
     (if is_closed c then Some (Inl RZ_ConnectionClosed, c)
      else do {
        let t = length (cn_owner c);
        let c = c\<lparr>cn_owner := cn_owner c @ [new_clrid]\<rparr>;
        (inserted, d) \<leftarrow> demux_insert (cn_demux c) new_clrid t now;
        let c = c\<lparr>cn_demux := d\<rparr>;
        if \<not> inserted then
          Some (Inl (RZ_Validation (''correlation id '' @ dec (unat new_clrid) @ '' already in use'')), c)
        else if cn_writer c \<and> length (cn_queue c) < cn_capacity c then
          Some (Inr t, c\<lparr>cn_queue := cn_queue c @ [frame]\<rparr>)
        else do {
          (_, d) \<leftarrow> demux_remove (cn_demux c) new_clrid;
          Some (Inl RZ_ConnectionClosed, c\<lparr>cn_demux := d\<rparr>)
        }
      })"

text \<open>What the waiter finds when it runs again: a value, a dropped sender, or the deadline.\<close>

datatype wait_result = Received demux_result | SenderDropped | Elapsed

definition wait_outcome :: "conn \<Rightarrow> tx \<Rightarrow> wait_result" where
  "wait_outcome c t =
     (case hm_get (cn_mail c) t of
        Some r \<Rightarrow> Received r
      | None \<Rightarrow> if demux_holds (cn_demux c) t then Elapsed else SenderDropped)"

definition send_end :: "conn \<Rightarrow> u32 \<Rightarrow> wait_result \<Rightarrow> ((rz_error + byte list) \<times> conn) run" where
  "send_end c new_clrid out =
     (case out of
        Received (Inr response) \<Rightarrow> Some (Inr response, c)
      | Received (Inl DE_Timeout) \<Rightarrow> Some (Inl RZ_Timeout, c)
      | Received (Inl DE_ConnectionClosed) \<Rightarrow> Some (Inl RZ_ConnectionClosed, c)
      | SenderDropped \<Rightarrow> Some (Inl RZ_ConnectionClosed, c)
      | Elapsed \<Rightarrow> do {
          (_, d) \<leftarrow> demux_remove (cn_demux c) new_clrid;
          Some (Inl RZ_Timeout, c\<lparr>cn_demux := d\<rparr>)
        })"

text \<open>\<open>send_raw\<close>: the result is \<open>None\<close> while the call still waits for room in the channel.\<close>

definition send_raw :: "conn \<Rightarrow> byte list \<Rightarrow> (rz_error + unit) option \<times> conn" where
  "send_raw c frame =
     (if is_closed c then (Some (Inl RZ_ConnectionClosed), c)
      else if \<not> cn_writer c then (Some (Inl RZ_ConnectionClosed), c)
      else if cn_capacity c \<le> length (cn_queue c) then (None, c)
      else (Some (Inr ()), c\<lparr>cn_queue := cn_queue c @ [frame]\<rparr>))"

section \<open>Events\<close>

text \<open>
  The steps other tasks can take while a request waits. \<open>Ev_Expire t\<close> is the deadline of
  another waiter: it acts only while that waiter is still registered.
\<close>

datatype conn_event =
    Ev_Send "byte list" u32 int
  | Ev_Expire tx
  | Ev_SendRaw "byte list"
  | Ev_NextId
  | Ev_Close
  | Ev_Writer bool bool
  | Ev_Read "byte list"
  | Ev_Eof
  | Ev_ReadError
  | Ev_Keepalive

fun conn_step :: "conn_event \<Rightarrow> conn \<Rightarrow> conn run" where
  "conn_step (Ev_Send frame cid now) c = map_option snd (send_begin c frame cid now)"
| "conn_step (Ev_Expire t) c =
     (if t < length (cn_owner c) \<and> demux_holds (cn_demux c) t
      then map_option snd (send_end c (cn_owner c ! t) (wait_outcome c t)) else Some c)"
| "conn_step (Ev_SendRaw frame) c = Some (snd (send_raw c frame))"
| "conn_step Ev_NextId c = Some (snd (next_corr_id c))"
| "conn_step Ev_Close c = Some (close c)"
| "conn_step (Ev_Writer write_ok flush_ok) c = Some (writer_step write_ok flush_ok c)"
| "conn_step (Ev_Read bytes) c = reader_read bytes c"
| "conn_step Ev_Eof c = Some (reader_stop c)"
| "conn_step Ev_ReadError c = Some (reader_stop c)"
| "conn_step Ev_Keepalive c = Some (keepalive_tick c)"

fun conn_run :: "conn_event list \<Rightarrow> conn \<Rightarrow> conn run" where
  "conn_run [] c = Some c"
| "conn_run (e # es) c = do { c' \<leftarrow> conn_step e c; conn_run es c' }"

text \<open>\<open>send_and_wait\<close> as a whole, with the events that happen during the wait.\<close>

definition send_and_wait ::
  "conn_event list \<Rightarrow> conn \<Rightarrow> byte list \<Rightarrow> u32 \<Rightarrow> int \<Rightarrow> ((rz_error + byte list) \<times> conn) run" where
  "send_and_wait events c frame new_clrid now = do {
     (r, c) \<leftarrow> send_begin c frame new_clrid now;
     case r of
       Inl e \<Rightarrow> Some (Inl e, c)
     | Inr t \<Rightarrow> do {
         c \<leftarrow> conn_run events c;
         send_end c new_clrid (wait_outcome c t)
       }
   }"

section \<open>The reader on its buffer\<close>

definition reply_clrid :: "byte list \<Rightarrow> u32" where
  "reply_clrid f = from_le (take 4 (drop 1 f))"

definition reply_len :: "byte list \<Rightarrow> nat" where
  "reply_len f = unat (from_le (take 4 (drop 5 f)) :: u32)"

lemma reader_turn_run [run_simps]:
  "reader_turn buf = Some
     (if length buf < 9 then RA_Wait
      else if buf ! 0 \<noteq> 0xFF then RA_Skip (drop 1 buf)
      else if length buf < 9 + reply_len buf then RA_Wait
      else RA_Frame (reply_clrid buf) (take (9 + reply_len buf) buf) (drop (9 + reply_len buf) buf))"
proof (cases "length buf < 9")
  case False
  then have "rd buf 0 = Some (buf ! 0)" "advance 1 buf = Some (drop 1 buf)"
    "slice buf 1 5 = Some (take 4 (drop 1 buf))" "slice buf 5 9 = Some (take 4 (drop 5 buf))"
    by (auto simp: rd_def advance_def slice_def)
  with False show ?thesis
    by (simp add: reader_turn_def reply_len_def reply_clrid_def split_to_def Let_def
        del: One_nat_def)
qed (simp add: reader_turn_def)

lemma reader_frames_run: "\<exists>frames left. reader_frames buf = Some (frames, left)"
proof (induction buf rule: reader_frames.induct)
  case (1 buf)
  then show ?case
    by (cases "reader_turn buf")
       (fastforce simp: reader_frames.simps [of buf] run_simps split: if_splits)+
qed

text \<open>What a frame handed to a waiter looks like.\<close>

definition reply_ok :: "u32 \<Rightarrow> byte list \<Rightarrow> bool" where
  "reply_ok cid f \<longleftrightarrow> length f = 9 + reply_len f \<and> f ! 0 = 0xFF \<and> reply_clrid f = cid"

lemma reply_ok_length: "reply_ok cid f \<Longrightarrow> 9 \<le> length f"
  by (simp add: reply_ok_def)

lemma reply_take [simp]:
  "9 \<le> n \<Longrightarrow> reply_clrid (take n f) = reply_clrid f"
  "9 \<le> n \<Longrightarrow> reply_len (take n f) = reply_len f"
  by (simp_all add: reply_clrid_def reply_len_def drop_take min_def)

lemma reply_append [simp]:
  "9 \<le> length f \<Longrightarrow> reply_clrid (f @ ys) = reply_clrid f"
  "9 \<le> length f \<Longrightarrow> reply_len (f @ ys) = reply_len f"
  by (simp_all add: reply_clrid_def reply_len_def)

lemma reader_frames_reply_ok:
  "reader_frames buf = Some (frames, left) \<Longrightarrow> (cid, f) \<in> set frames \<Longrightarrow> reply_ok cid f"
proof (induction buf arbitrary: frames left rule: reader_frames.induct)
  case (1 buf)
  show ?case
  proof (cases "length buf < 9 \<or> (buf ! 0 = 0xFF \<and> length buf < 9 + reply_len buf)")
    case True
    then have "reader_turn buf = Some RA_Wait" by (auto simp: run_simps)
    with "1.prems" show ?thesis by (simp add: reader_frames.simps [of buf])
  next
    case full: False
    show ?thesis
    proof (cases "buf ! 0 = 0xFF")
      case False
      with full "1.prems" "1.IH"(1) [of "RA_Skip (drop 1 buf)"] show ?thesis
        by (simp add: reader_frames.simps [of buf] run_simps)
    next
      case True
      let ?f = "take (9 + reply_len buf) buf" and ?r = "drop (9 + reply_len buf) buf"
      obtain fs l where fs: "reader_frames ?r = Some (fs, l)" using reader_frames_run by blast
      have frames: "frames = (reply_clrid buf, ?f) # fs"
        using "1.prems"(1) full True fs by (simp add: reader_frames.simps [of buf] run_simps)
      have "reply_ok (reply_clrid buf) ?f" using full True by (simp add: reply_ok_def)
      with frames "1.prems"(2) "1.IH"(2) [of "RA_Frame (reply_clrid buf) ?f ?r"] fs full True
      show ?thesis by (auto simp: run_simps)
    qed
  qed
qed

text \<open>
  The split of the byte stream into reads does not matter: reading \<open>a\<close> and later \<open>b\<close> yields
  the frames of \<open>a @ b\<close>.
\<close>

lemma reader_frames_append:
  "reader_frames a = Some (fs, l) \<Longrightarrow> reader_frames (l @ b) = Some (gs, m) \<Longrightarrow>
   reader_frames (a @ b) = Some (fs @ gs, m)"
proof (induction a arbitrary: fs l rule: reader_frames.induct)
  case (1 a)
  show ?case
  proof (cases "length a < 9 \<or> (a ! 0 = 0xFF \<and> length a < 9 + reply_len a)")
    case True
    then have "reader_turn a = Some RA_Wait" by (auto simp: run_simps)
    with "1.prems" show ?thesis by (simp add: reader_frames.simps [of a])
  next
    case full: False
    then have a0: "(a @ b) ! 0 = a ! 0" "\<not> length (a @ b) < 9" by (auto simp: nth_append)
    show ?thesis
    proof (cases "a ! 0 = 0xFF")
      case False
      with full "1.prems" "1.IH"(1) [of "RA_Skip (drop 1 a)"] a0 show ?thesis
        by (simp add: reader_frames.simps [of a] reader_frames.simps [of "a @ b"] run_simps)
    next
      case True
      let ?f = "take (9 + reply_len a) a" and ?r = "drop (9 + reply_len a) a"
      obtain fs' l' where fs: "reader_frames ?r = Some (fs', l')" using reader_frames_run by blast
      with "1.prems"(1) full True have "fs = (reply_clrid a, ?f) # fs'" "l = l'"
        by (auto simp: reader_frames.simps [of a] run_simps)
      moreover from this "1.prems"(2) fs full True "1.IH"(2) [of "RA_Frame (reply_clrid a) ?f ?r"]
      have "reader_frames (?r @ b) = Some (fs' @ gs, m)" by (auto simp: run_simps)
      ultimately show ?thesis
        using full True a0 by (simp add: reader_frames.simps [of "a @ b"] run_simps)
    qed
  qed
qed

text \<open>A well-formed stream of replies comes out as sent, in order, with nothing left over.\<close>

lemma reader_turn_reply:
  assumes "reply_ok cid f"
  shows "reader_turn (f @ ys) = Some (RA_Frame cid f ys)"
proof -
  have "9 \<le> length f" using assms by (rule reply_ok_length)
  then have "(f @ ys) ! 0 = f ! 0" by (auto simp: nth_append)
  moreover have "length f = 9 + reply_len f" "f ! 0 = 0xFF" "reply_clrid f = cid"
    using assms by (simp_all add: reply_ok_def)
  ultimately show ?thesis using \<open>9 \<le> length f\<close> by (simp add: run_simps)
qed

lemma reader_frames_replies:
  "(\<And>cid f. (cid, f) \<in> set replies \<Longrightarrow> reply_ok cid f) \<Longrightarrow>
   reader_frames (concat (map snd replies)) = Some (replies, [])"
proof (induction replies)
  case Nil
  then show ?case by (simp add: reader_frames.simps run_simps)
next
  case (Cons p replies)
  obtain cid f where p: "p = (cid, f)" by (cases p)
  from Cons.prems [of cid f] have "reply_ok cid f" by (simp add: p)
  from reader_turn_reply [OF this] Cons show ?case
    by (simp add: p reader_frames.simps [of "f @ _"])
qed

lemma reply_ok_reply_bytes:
  "length payload < 2 ^ 32 \<Longrightarrow> reply_ok clrid (reply_bytes clrid payload)"
  by (simp add: reply_ok_def reply_bytes_def reply_len_def reply_clrid_def SHARD_MAGIC_def
      unat_word_of_nat)

section \<open>The invariant\<close>

text \<open>
  A registered waiter is one of the channels created, for the id it is registered under, and
  has no value yet; a channel gets at most one value; a value that is a frame is a complete
  reply carrying the id of its channel; a task that has stopped has closed the connection.
\<close>

definition conn_ok :: "conn \<Rightarrow> bool" where
  "conn_ok c \<longleftrightarrow> demux_ok (cn_demux c) \<and> hm_ok (cn_mail c) \<and>
     (\<forall>cid t. dx.waiting (cn_demux c) cid = Some t \<longrightarrow>
        t < length (cn_owner c) \<and> cn_owner c ! t = cid \<and> hm_get (cn_mail c) t = None) \<and>
     (\<forall>t r. hm_get (cn_mail c) t = Some r \<longrightarrow> t < length (cn_owner c) \<and>
        (\<forall>f. r = Inr f \<longrightarrow> reply_ok (cn_owner c ! t) f)) \<and>
     (\<not> cn_writer c \<longrightarrow> cn_closed c) \<and> (\<not> cn_reader c \<longrightarrow> cn_closed c)"

lemma conn_okD:
  assumes "conn_ok c"
  shows "demux_ok (cn_demux c)" "hm_ok (cn_mail c)"
    "dx.waiting (cn_demux c) cid = Some t \<Longrightarrow> t < length (cn_owner c)"
    "dx.waiting (cn_demux c) cid = Some t \<Longrightarrow> cn_owner c ! t = cid"
    "dx.waiting (cn_demux c) cid = Some t \<Longrightarrow> hm_get (cn_mail c) t = None"
    "hm_get (cn_mail c) t = Some r \<Longrightarrow> t < length (cn_owner c)"
    "hm_get (cn_mail c) t = Some (Inr f) \<Longrightarrow> reply_ok (cn_owner c ! t) f"
    "\<not> cn_writer c \<Longrightarrow> cn_closed c" "\<not> cn_reader c \<Longrightarrow> cn_closed c"
  using assms by (auto simp: conn_ok_def)

text \<open>How a connection can evolve: channels are only added, values stay, closing is final.\<close>

definition conn_le :: "conn \<Rightarrow> conn \<Rightarrow> bool" where
  "conn_le c c' \<longleftrightarrow>
     (\<exists>new. cn_owner c' = cn_owner c @ new) \<and>
     (\<forall>t r. hm_get (cn_mail c) t = Some r \<longrightarrow> hm_get (cn_mail c') t = Some r) \<and>
     (cn_closed c \<longrightarrow> cn_closed c') \<and> (cn_writer c' \<longrightarrow> cn_writer c) \<and>
     (cn_reader c' \<longrightarrow> cn_reader c)"

lemma conn_le_refl [simp]: "conn_le c c"
  by (simp add: conn_le_def)

lemma conn_le_trans [trans]: "conn_le a b \<Longrightarrow> conn_le b c \<Longrightarrow> conn_le a c"
  by (fastforce simp: conn_le_def)

lemma conn_le_owner: "conn_le c c' \<Longrightarrow> t < length (cn_owner c) \<Longrightarrow>
    t < length (cn_owner c') \<and> cn_owner c' ! t = cn_owner c ! t"
  by (auto simp: conn_le_def nth_append)

text \<open>A request is live while its waiter is registered or has been answered.\<close>

definition tracked :: "conn \<Rightarrow> tx \<Rightarrow> bool" where
  "tracked c t \<longleftrightarrow> (\<exists>cid. dx.waiting (cn_demux c) cid = Some t) \<or> hm_has (cn_mail c) t"

text \<open>Every operation keeps the invariant, does not panic, and only moves forward.\<close>

lemma conn_ok_connect:
  "connect dial addr port config conn_id = Inr c \<Longrightarrow>
   conn_ok c \<and> \<not> is_closed c \<and> cn_owner c = [] \<and> cn_corr_id c = 1"
  by (auto simp: connect_def conn_ok_def is_closed_def Let_def dx.waiting_def split: option.splits)

lemma conn_ok_simple [simp]:
  "conn_ok (close c) \<longleftrightarrow> conn_ok (c\<lparr>cn_closed := True\<rparr>)"
  "conn_ok (c\<lparr>cn_corr_id := i\<rparr>) \<longleftrightarrow> conn_ok c"
  "conn_ok (c\<lparr>cn_rbuf := b\<rparr>) \<longleftrightarrow> conn_ok c"
  "conn_ok (c\<lparr>cn_wire := w\<rparr>) \<longleftrightarrow> conn_ok c"
  "conn_ok (c\<lparr>cn_queue := q\<rparr>) \<longleftrightarrow> conn_ok c"
  "conn_ok (c\<lparr>cn_keepalive := k\<rparr>) \<longleftrightarrow> conn_ok c"
  by (simp_all add: conn_ok_def close_def)

lemma conn_le_simple [simp]:
  "conn_le c (close c)" "conn_le c (c\<lparr>cn_closed := True\<rparr>)" "conn_le c (c\<lparr>cn_corr_id := i\<rparr>)"
  "conn_le c (c\<lparr>cn_rbuf := b\<rparr>)" "conn_le c (c\<lparr>cn_wire := w\<rparr>)" "conn_le c (c\<lparr>cn_queue := q\<rparr>)"
  "conn_le c (c\<lparr>cn_keepalive := k\<rparr>)" "conn_le c (c\<lparr>cn_demux := d\<rparr>)"
  by (simp_all add: conn_le_def close_def)

lemma conn_ok_closed: "conn_ok c \<Longrightarrow> conn_ok (c\<lparr>cn_closed := True\<rparr>)"
  by (simp add: conn_ok_def)

lemma next_corr_id_cases:
  "next_corr_id c = (if cn_corr_id c \<noteq> 0 then (cn_corr_id c, c\<lparr>cn_corr_id := cn_corr_id c + 1\<rparr>)
     else (1, c\<lparr>cn_corr_id := 2\<rparr>))"
  by (simp add: next_corr_id.simps [of c] next_corr_id.simps [of "c\<lparr>cn_corr_id := 1\<rparr>"] Let_def)

lemma conn_ok_next_corr_id: "conn_ok (snd (next_corr_id c)) \<longleftrightarrow> conn_ok c"
  by (simp add: next_corr_id_cases)

text \<open>One reply handed out: the waiter leaves the table and gets its value.\<close>

lemma conn_ok_remove:
  assumes ok: "conn_ok c" and rem: "demux_remove (cn_demux c) cid = Some (w, d)"
  shows "conn_ok (c\<lparr>cn_demux := d\<rparr>)" "w = dx.waiting (cn_demux c) cid"
    "dx.waiting d = (dx.waiting (cn_demux c))(cid := None)"
proof -
  have r: "w = dx.waiting (cn_demux c) cid \<and> demux_ok d \<and>
      dx.waiting d = (dx.waiting (cn_demux c))(cid := None)"
    using dx.rem_waiting [OF conn_okD(1) [OF ok] rem] by simp
  then show "w = dx.waiting (cn_demux c) cid"
    "dx.waiting d = (dx.waiting (cn_demux c))(cid := None)" by simp_all
  show "conn_ok (c\<lparr>cn_demux := d\<rparr>)" using ok r by (auto simp: conn_ok_def split: if_splits)
qed

lemma conn_ok_deliver:
  assumes ok: "conn_ok c" and w: "dx.waiting (cn_demux c) cid = Some t"
    and rem: "demux_remove (cn_demux c) cid = Some (Some t, d)" and f: "reply_ok cid f"
  shows "conn_ok (deliver [(t, Inr f)] (c\<lparr>cn_demux := d\<rparr>))"
    and "conn_le c (deliver [(t, Inr f)] (c\<lparr>cn_demux := d\<rparr>))"
proof -
  note D = conn_okD [OF ok]
  note R = conn_ok_remove [OF ok rem]
  have t: "t < length (cn_owner c)" "cn_owner c ! t = cid" "hm_get (cn_mail c) t = None"
    using D(3-5) [OF w] by simp_all
  have uniq: "i = cid" if "dx.waiting (cn_demux c) i = Some t" for i
    using D(4) [OF that] t(2) by simp
  have mail: "hm_ok (cn_mail c @ [(t, Inr f)])"
    using D(2) t(3) by (simp add: hm_ok_append) (simp add: hm_ok_def)
  show "conn_ok (deliver [(t, Inr f)] (c\<lparr>cn_demux := d\<rparr>))"
    unfolding conn_ok_def
    using R(1) uniq t f mail D
    by (auto simp: deliver_def conn_ok_def R(3) hm_get_append split: option.splits if_splits)
  show "conn_le c (deliver [(t, Inr f)] (c\<lparr>cn_demux := d\<rparr>))"
    by (auto simp: conn_le_def deliver_def hm_get_append)
qed

text \<open>Failing everything: every registered waiter gets the error, and no waiter is left.\<close>

lemma fail_pending_spec:
  assumes ok: "conn_ok c"
  shows "conn_ok (fail_pending c)" "conn_le c (fail_pending c)"
    "dx.waiting (cn_demux (fail_pending c)) = Map.empty"
    "dx.waiting (cn_demux c) cid = Some t \<Longrightarrow>
     hm_get (cn_mail (fail_pending c)) t = Some (Inl DE_ConnectionClosed)"
    "tracked c t \<Longrightarrow> tracked (fail_pending c) t"
proof -
  note D = conn_okD [OF ok]
  obtain d sent where fa: "demux_fail_all (cn_demux c) = (d, sent)" by fastforce
  obtain ids where d: "demux_ok d" "dx.waiting d = Map.empty"
    and ids: "distinct ids" "set ids = dom (dx.waiting (cn_demux c))"
    and sent: "sent = map (\<lambda>i. (the (dx.waiting (cn_demux c) i), Inl DE_ConnectionClosed)) ids"
    using dx.fail_all_waiting [OF D(1) fa] by auto
  have c': "fail_pending c = deliver sent (c\<lparr>cn_demux := d\<rparr>)" by (simp add: fail_pending_def fa)
  have inj: "inj_on (\<lambda>i. the (dx.waiting (cn_demux c) i)) (set ids)"
  proof (rule inj_onI)
    fix i j assume "i \<in> set ids" "j \<in> set ids"
      and eq: "the (dx.waiting (cn_demux c) i) = the (dx.waiting (cn_demux c) j)"
    then obtain t t' where "dx.waiting (cn_demux c) i = Some t" "dx.waiting (cn_demux c) j = Some t'"
      by (auto simp: ids(2))
    with eq D(4) [of i t] D(4) [of j t'] show "i = j" by simp
  qed
  have dist: "hm_ok sent"
    using ids(1) inj by (simp add: hm_ok_def sent comp_def distinct_map)
  have in_sent: "hm_get sent t = Some r \<longleftrightarrow> r = Inl DE_ConnectionClosed \<and>
      (\<exists>i. dx.waiting (cn_demux c) i = Some t)" for t r
  proof -
    have "hm_get sent t = Some r \<longleftrightarrow> (t, r) \<in> set sent"
      using dist by (auto intro: hm_get_SomeD hm_get_in)
    then show ?thesis using ids(2) by (force simp: sent)
  qed
  have "hm_get sent t = None" if "hm_has (cn_mail c) t" for t
  proof (rule ccontr)
    assume "hm_get sent t \<noteq> None"
    then obtain r where "hm_get sent t = Some r" by blast
    then obtain i where "dx.waiting (cn_demux c) i = Some t" using in_sent by blast
    with D(5) that show False by simp
  qed
  then have mail: "hm_ok (cn_mail c @ sent)"
    using D(2) dist by (simp add: hm_ok_append)
  show "conn_le c (fail_pending c)"
    by (auto simp: c' conn_le_def deliver_def hm_get_append)
  show "dx.waiting (cn_demux (fail_pending c)) = Map.empty" by (simp add: c' deliver_def d)
  show "conn_ok (fail_pending c)"
    unfolding conn_ok_def c' using d mail D(3,6-9)
    by (auto simp: deliver_def hm_get_append in_sent split: option.splits)
  show *: "dx.waiting (cn_demux c) cid = Some t \<Longrightarrow>
      hm_get (cn_mail (fail_pending c)) t = Some (Inl DE_ConnectionClosed)" for cid
    using D(5) [of cid t] in_sent [of t "Inl DE_ConnectionClosed"]
    by (auto simp: c' deliver_def hm_get_append)
  show "tracked c t \<Longrightarrow> tracked (fail_pending c) t"
    using * by (auto simp: tracked_def c' deliver_def hm_get_append)
qed

text \<open>Registration of a waiter on a fresh channel.\<close>

lemma conn_ok_channel: "conn_ok c \<Longrightarrow> conn_ok (c\<lparr>cn_owner := cn_owner c @ [cid]\<rparr>)"
  by (fastforce simp: conn_ok_def nth_append)

lemma conn_ok_insert:
  assumes ok: "conn_ok c"
    and ins: "demux_insert (cn_demux c) cid (length (cn_owner c)) now = Some (b, d)"
  shows "conn_ok (c\<lparr>cn_owner := cn_owner c @ [cid], cn_demux := d\<rparr>)"
    and "b \<longleftrightarrow> dx.waiting (cn_demux c) cid = None"
    and "dx.waiting d = (if b then (dx.waiting (cn_demux c))(cid \<mapsto> length (cn_owner c))
                         else dx.waiting (cn_demux c))"
proof -
  note D = conn_okD [OF ok]
  have i: "b = (dx.waiting (cn_demux c) cid = None) \<and> demux_ok d \<and>
      dx.waiting d = (if b then (dx.waiting (cn_demux c))(cid \<mapsto> length (cn_owner c))
        else dx.waiting (cn_demux c))"
    using dx.ins_waiting [OF D(1) ins] .
  then show "b \<longleftrightarrow> dx.waiting (cn_demux c) cid = None"
    "dx.waiting d = (if b then (dx.waiting (cn_demux c))(cid \<mapsto> length (cn_owner c))
      else dx.waiting (cn_demux c))" by simp_all
  have "hm_get (cn_mail c) (length (cn_owner c)) = None"
    using D(6) [of "length (cn_owner c)"] by (cases "hm_get (cn_mail c) (length (cn_owner c))") auto
  then show "conn_ok (c\<lparr>cn_owner := cn_owner c @ [cid], cn_demux := d\<rparr>)"
    using i conn_ok_channel [OF ok, of cid] by (auto simp: conn_ok_def split: if_splits)
qed

text \<open>The three ways \<open>send_and_wait\<close> can start, and the state each leaves.\<close>

lemma send_begin_closed: "is_closed c \<Longrightarrow> send_begin c frame cid now = Some (Inl RZ_ConnectionClosed, c)"
  by (simp add: send_begin_def)

lemma send_begin_in_use:
  assumes ok: "conn_ok c" and op: "\<not> is_closed c" and used: "dx.waiting (cn_demux c) cid = Some t"
  shows "send_begin c frame cid now = Some
    (Inl (RZ_Validation (''correlation id '' @ dec (unat cid) @ '' already in use'')),
     c\<lparr>cn_owner := cn_owner c @ [cid]\<rparr>)"
proof -
  obtain e where "demux_entry_of (cn_demux c) cid = Some e"
    using used by (auto simp: dx.waiting_def)
  from dx.ins_used [OF conn_okD(1) [OF ok] this] op show ?thesis
    by (simp add: send_begin_def Let_def)
qed

lemma send_begin_accepted:
  assumes ok: "conn_ok c" and op: "\<not> is_closed c" and free: "dx.waiting (cn_demux c) cid = None"
    and room: "length (cn_queue c) < cn_capacity c"
  shows "\<exists>d. send_begin c frame cid now = Some (Inr (length (cn_owner c)),
      c\<lparr>cn_owner := cn_owner c @ [cid], cn_demux := d, cn_queue := cn_queue c @ [frame]\<rparr>) \<and>
    conn_ok (c\<lparr>cn_owner := cn_owner c @ [cid], cn_demux := d, cn_queue := cn_queue c @ [frame]\<rparr>) \<and>
    dx.waiting d = (dx.waiting (cn_demux c))(cid \<mapsto> length (cn_owner c))"
proof -
  obtain b d where ins: "demux_insert (cn_demux c) cid (length (cn_owner c)) now = Some (b, d)"
    using dx.ins_run [OF conn_okD(1) [OF ok]] by blast
  note I = conn_ok_insert [OF ok ins]
  have "cn_writer c" using conn_okD(8) [OF ok] op by (auto simp: is_closed_def)
  with I free op room ins show ?thesis
    by (intro exI [of _ d]) (simp add: send_begin_def Let_def)
qed

lemma send_begin_full:
  assumes ok: "conn_ok c" and op: "\<not> is_closed c" and free: "dx.waiting (cn_demux c) cid = None"
    and full: "cn_capacity c \<le> length (cn_queue c)"
  shows "\<exists>d. send_begin c frame cid now = Some (Inl RZ_ConnectionClosed,
      c\<lparr>cn_owner := cn_owner c @ [cid], cn_demux := d\<rparr>) \<and>
    conn_ok (c\<lparr>cn_owner := cn_owner c @ [cid], cn_demux := d\<rparr>) \<and>
    dx.waiting d = dx.waiting (cn_demux c)"
proof -
  obtain b d where ins: "demux_insert (cn_demux c) cid (length (cn_owner c)) now = Some (b, d)"
    using dx.ins_run [OF conn_okD(1) [OF ok]] by blast
  note I = conn_ok_insert [OF ok ins]
  obtain w d' where rem: "demux_remove d cid = Some (w, d')"
    using dx.rem_run [of d cid] conn_okD(1) [OF I(1)] by auto
  have "conn_ok (c\<lparr>cn_owner := cn_owner c @ [cid], cn_demux := d'\<rparr>)"
    and "dx.waiting d' = (dx.waiting d)(cid := None)"
    using conn_ok_remove [OF I(1), of cid w d'] rem by simp_all
  with I free op full ins rem show ?thesis
    by (intro exI [of _ d']) (auto simp: send_begin_def Let_def)
qed

lemma tracked_mono:
  assumes "tracked c t"
    and "\<And>i. dx.waiting (cn_demux c) i = Some t \<Longrightarrow> dx.waiting (cn_demux c') i = Some t"
    and "hm_has (cn_mail c) t \<Longrightarrow> hm_has (cn_mail c') t"
  shows "tracked c' t"
  using assms unfolding tracked_def by blast

text \<open>What every start has in common.\<close>

lemma send_begin_ok:
  assumes ok: "conn_ok c"
  shows "\<exists>r c'. send_begin c frame cid now = Some (r, c') \<and> conn_ok c' \<and> conn_le c c' \<and>
    (\<forall>t. tracked c t \<longrightarrow> tracked c' t) \<and>
    (\<forall>t. r = Inr t \<longrightarrow> t = length (cn_owner c) \<and> t < length (cn_owner c') \<and>
       cn_owner c' ! t = cid \<and> tracked c' t)"
proof -
  consider "is_closed c" | t where "\<not> is_closed c" "dx.waiting (cn_demux c) cid = Some t"
    | "\<not> is_closed c" "dx.waiting (cn_demux c) cid = None" "length (cn_queue c) < cn_capacity c"
    | "\<not> is_closed c" "dx.waiting (cn_demux c) cid = None" "cn_capacity c \<le> length (cn_queue c)"
    by (cases "dx.waiting (cn_demux c) cid") (auto simp: not_less [symmetric])
  then show ?thesis
  proof cases
    case 1
    then show ?thesis using ok by (simp add: send_begin_closed)
  next
    case 2
    then show ?thesis
      using ok by (simp add: send_begin_in_use conn_ok_channel conn_le_def tracked_def)
  next
    case 3
    let ?t = "length (cn_owner c)"
    from send_begin_accepted [OF ok 3, of frame now] obtain d c' where
      upd: "c' = c\<lparr>cn_owner := cn_owner c @ [cid], cn_demux := d, cn_queue := cn_queue c @ [frame]\<rparr>"
      and eq: "send_begin c frame cid now = Some (Inr ?t, c')"
      and c': "conn_ok c'" and d: "dx.waiting d = (dx.waiting (cn_demux c))(cid \<mapsto> ?t)"
      by blast
    have "tracked c' t" if "tracked c t" for t
      using that by (rule tracked_mono) (use 3(2) in \<open>auto simp: d upd\<close>)
    moreover have "dx.waiting (cn_demux c') cid = Some ?t" by (simp add: d upd)
    then have "tracked c' ?t" unfolding tracked_def by blast
    moreover have "conn_le c c'" by (simp add: conn_le_def upd)
    ultimately show ?thesis using eq c' by (auto simp: upd)
  next
    case 4
    from send_begin_full [OF ok 4, of frame now] show ?thesis
      by (auto simp: conn_le_def tracked_def)
  qed
qed

text \<open>A step that is safe for everyone: the invariant, progress, and no waiter forgotten.\<close>

definition keeps :: "conn \<Rightarrow> conn \<Rightarrow> bool" where
  "keeps c c' \<longleftrightarrow> conn_ok c' \<and> conn_le c c' \<and> (\<forall>t. tracked c t \<longrightarrow> tracked c' t)"

lemma keeps_refl: "conn_ok c \<Longrightarrow> keeps c c"
  by (simp add: keeps_def)

lemma keeps_trans [trans]: "keeps a b \<Longrightarrow> keeps b c \<Longrightarrow> keeps a c"
  using conn_le_trans by (auto simp: keeps_def)

lemma keeps_ok: "keeps c c' \<Longrightarrow> conn_ok c'"
  by (simp add: keeps_def)

lemma keepsI:
  assumes "conn_ok c" "cn_demux c' = cn_demux c" "cn_mail c' = cn_mail c" "cn_owner c' = cn_owner c"
    "cn_closed c \<longrightarrow> cn_closed c'" "cn_writer c' \<longrightarrow> cn_writer c" "cn_reader c' \<longrightarrow> cn_reader c"
    "\<not> cn_writer c' \<longrightarrow> cn_closed c'" "\<not> cn_reader c' \<longrightarrow> cn_closed c'"
  shows "keeps c c'"
  using assms by (simp add: keeps_def conn_ok_def conn_le_def tracked_def)

lemma keeps_fail_pending: "conn_ok c \<Longrightarrow> keeps c (fail_pending c)"
  using fail_pending_spec by (simp add: keeps_def)

text \<open>The ways a wait can end.\<close>

lemma send_end_ok:
  assumes ok: "conn_ok c"
  shows "\<exists>r c'. send_end c cid out = Some (r, c') \<and> conn_ok c' \<and> conn_le c c' \<and>
    (\<forall>t. tracked c t \<longrightarrow> dx.waiting (cn_demux c) cid \<noteq> Some t \<longrightarrow> tracked c' t)"
proof (cases "out = Elapsed")
  case True
  obtain w d where rem: "demux_remove (cn_demux c) cid = Some (w, d)"
    using dx.rem_run [OF conn_okD(1) [OF ok]] by blast
  note R = conn_ok_remove [OF ok rem]
  have "tracked (c\<lparr>cn_demux := d\<rparr>) t"
    if "tracked c t" "dx.waiting (cn_demux c) cid \<noteq> Some t" for t
    using that(1) by (rule tracked_mono) (use that(2) R(3) in auto)
  with True rem R(1) show ?thesis by (simp add: send_end_def)
next
  case False
  with ok show ?thesis
    by (auto simp: send_end_def split: wait_result.split sum.split demux_error.split)
qed

text \<open>One frame for one id: its waiter, if any, leaves the table with the frame as its value.\<close>

lemma dispatch_one_keeps:
  assumes ok: "conn_ok c" and f: "reply_ok cid f"
    and rem: "demux_remove (cn_demux c) cid = Some (w, d)"
  shows "keeps c (case w of Some t \<Rightarrow> deliver [(t, Inr f)] (c\<lparr>cn_demux := d\<rparr>)
      | None \<Rightarrow> c\<lparr>cn_demux := d\<rparr>)"
proof (cases w)
  case None
  note R = conn_ok_remove [OF ok rem]
  have "tracked (c\<lparr>cn_demux := d\<rparr>) t" if "tracked c t" for t
    using that by (rule tracked_mono) (use None R in auto)
  with None R(1) show ?thesis by (simp add: keeps_def)
next
  case (Some u)
  note R = conn_ok_remove [OF ok rem]
  have u: "dx.waiting (cn_demux c) cid = Some u" using R(2) Some by simp
  let ?c = "deliver [(u, Inr f)] (c\<lparr>cn_demux := d\<rparr>)"
  have "tracked ?c t" if "tracked c t" for t
  proof (cases "t = u")
    case True
    then show ?thesis
      using conn_okD(5) [OF ok u] by (simp add: tracked_def deliver_def hm_get_append)
  next
    case False
    show ?thesis
      using that by (rule tracked_mono)
        (use False R(3) u in \<open>auto simp: deliver_def hm_get_append split: option.splits\<close>)
  qed
  with conn_ok_deliver [OF ok u _ f] rem Some show ?thesis by (simp add: keeps_def)
qed

lemma dispatch_ok:
  assumes "conn_ok c" and "\<And>cid f. (cid, f) \<in> set frames \<Longrightarrow> reply_ok cid f"
  shows "\<exists>c'. dispatch frames c = Some c' \<and> keeps c c'"
  using assms
proof (induction frames arbitrary: c)
  case (Cons p frames)
  obtain cid f where p: "p = (cid, f)" by (cases p)
  obtain w d where rem: "demux_remove (cn_demux c) cid = Some (w, d)"
    using dx.rem_run [OF conn_okD(1) [OF Cons.prems(1)]] by blast
  define c1 where "c1 = (case w of Some t \<Rightarrow> deliver [(t, Inr f)] (c\<lparr>cn_demux := d\<rparr>)
      | None \<Rightarrow> c\<lparr>cn_demux := d\<rparr>)"
  have c1: "keeps c c1"
    unfolding c1_def using Cons.prems p by (intro dispatch_one_keeps [OF _ _ rem]) auto
  from Cons.IH [OF keeps_ok [OF this]] Cons.prems(2) obtain c' where
    "dispatch frames c1 = Some c'" "keeps c1 c'" by auto
  moreover have "dispatch (p # frames) c = dispatch frames c1" by (simp add: p rem c1_def Let_def)
  ultimately show ?case using keeps_trans [OF c1] by auto
qed (simp add: keeps_refl)

lemma reader_read_ok:
  assumes ok: "conn_ok c"
  shows "\<exists>c'. reader_read bytes c = Some c' \<and> keeps c c'"
proof (cases "cn_reader c")
  case True
  obtain fs l where fs: "reader_frames (cn_rbuf c @ bytes) = Some (fs, l)"
    using reader_frames_run by blast
  have k: "keeps c (c\<lparr>cn_rbuf := l\<rparr>)" using ok by (intro keepsI) (auto dest: conn_okD)
  from dispatch_ok [OF keeps_ok [OF k]] reader_frames_reply_ok [OF fs] obtain c' where
    "dispatch fs (c\<lparr>cn_rbuf := l\<rparr>) = Some c'" "keeps (c\<lparr>cn_rbuf := l\<rparr>) c'" by blast
  with k True fs show ?thesis by (auto simp: reader_read_def intro: keeps_trans)
qed (use ok in \<open>simp add: reader_read_def keeps_refl\<close>)

text \<open>How the bytes are cut into reads makes no difference to the connection.\<close>

lemma dispatch_frame:
  "dispatch fs c = Some c' \<Longrightarrow> cn_closed c' = cn_closed c \<and> cn_queue c' = cn_queue c \<and>
     cn_writer c' = cn_writer c \<and> cn_reader c' = cn_reader c"
proof (induction fs arbitrary: c)
  case (Cons p fs)
  obtain cid f where p: "p = (cid, f)" by (cases p)
  from Cons.prems obtain w d where "dispatch fs (case w of
      Some t \<Rightarrow> deliver [(t, Inr f)] (c\<lparr>cn_demux := d\<rparr>) | None \<Rightarrow> c\<lparr>cn_demux := d\<rparr>) = Some c'"
    by (auto simp: p Let_def split: bind_splits)
  from Cons.IH [OF this] show ?case by (simp add: deliver_def split: option.splits)
qed simp

lemma dispatch_append:
  "dispatch (fs @ gs) c = (case dispatch fs c of None \<Rightarrow> None | Some c' \<Rightarrow> dispatch gs c')"
proof (induction fs arbitrary: c)
  case (Cons p fs)
  then show ?case
    by (cases p; cases "demux_remove (cn_demux c) (fst p)") (auto simp: Let_def)
qed simp

lemma dispatch_rbuf:
  "dispatch fs (c\<lparr>cn_rbuf := l\<rparr>) = map_option (\<lambda>c. c\<lparr>cn_rbuf := l\<rparr>) (dispatch fs c)"
proof (induction fs arbitrary: c)
  case (Cons p fs)
  obtain cid f where p: "p = (cid, f)" by (cases p)
  show ?case
  proof (cases "demux_remove (cn_demux c) cid")
    case (Some wd)
    obtain w d where wd: "wd = (w, d)" by (cases wd)
    have "(case w of Some t \<Rightarrow> deliver [(t, Inr f)] (c\<lparr>cn_rbuf := l, cn_demux := d\<rparr>)
        | None \<Rightarrow> c\<lparr>cn_rbuf := l, cn_demux := d\<rparr>) =
      (case w of Some t \<Rightarrow> deliver [(t, Inr f)] (c\<lparr>cn_demux := d\<rparr>) | None \<Rightarrow> c\<lparr>cn_demux := d\<rparr>)\<lparr>cn_rbuf := l\<rparr>"
      by (cases w) (simp_all add: deliver_def)
    with Cons.IH Some wd show ?thesis by (simp add: p Let_def)
  qed (simp add: p)
qed simp

lemma reader_read_append:
  "reader_read a c \<bind> reader_read b = reader_read (a @ b) c"
proof (cases "cn_reader c")
  case True
  obtain fs l where fs: "reader_frames (cn_rbuf c @ a) = Some (fs, l)" using reader_frames_run by blast
  obtain gs m where gs: "reader_frames (l @ b) = Some (gs, m)" using reader_frames_run by blast
  have all: "reader_frames (cn_rbuf c @ a @ b) = Some (fs @ gs, m)"
    using reader_frames_append [OF fs gs] by simp
  show ?thesis
  proof (cases "dispatch fs c")
    case None
    then show ?thesis by (simp add: reader_read_def True fs all dispatch_rbuf dispatch_append)
  next
    case (Some c')
    have "cn_reader c'" using dispatch_frame [OF Some] True by simp
    with Some show ?thesis
      by (simp add: reader_read_def True fs gs all dispatch_rbuf dispatch_append)
  qed
qed (simp add: reader_read_def)

lemma stop_writer_keeps:
  assumes ok: "conn_ok c"
  shows "keeps c (stop_writer c)"
proof -
  have "keeps (fail_pending c) (stop_writer c)"
    using keeps_ok [OF keeps_fail_pending [OF ok]]
    by (intro keepsI) (auto simp: stop_writer_def fail_pending_def deliver_def split: prod.splits)
  with keeps_fail_pending [OF ok] show ?thesis by (rule keeps_trans)
qed

lemma writer_step_keeps:
  assumes ok: "conn_ok c"
  shows "keeps c (writer_step w f c)"
proof (cases "cn_queue c")
  case (Cons frame queue)
  let ?c1 = "c\<lparr>cn_queue := queue\<rparr>"
  let ?c2 = "?c1\<lparr>cn_wire := cn_wire c @ [frame]\<rparr>"
  have k: "keeps c ?c1" "keeps c (?c1\<lparr>cn_closed := True\<rparr>)" "keeps c ?c2"
    "keeps c (?c2\<lparr>cn_closed := True\<rparr>)"
    using ok by (auto intro!: keepsI dest: conn_okD)
  note stop = keeps_trans [OF _ stop_writer_keeps [OF keeps_ok]]
  show ?thesis
    using k stop [OF k(1) k(1)] stop [OF k(2) k(2)] stop [OF k(4) k(4)] keeps_refl [OF ok]
    by (simp add: writer_step_def Cons Let_def)
qed (use ok in \<open>simp add: writer_step_def keeps_refl\<close>)

lemma reader_stop_keeps:
  assumes ok: "conn_ok c"
  shows "keeps c (reader_stop c)"
proof (cases "cn_reader c")
  case True
  let ?c = "c\<lparr>cn_closed := True\<rparr>"
  have k: "keeps c ?c" using ok by (intro keepsI) auto
  then have "keeps c (fail_pending ?c)" using keeps_trans keeps_fail_pending keeps_ok by blast
  moreover have "keeps (fail_pending ?c) (reader_stop c)"
    using keeps_ok [OF calculation] True
    by (intro keepsI) (auto simp: reader_stop_def fail_pending_def deliver_def split: prod.splits)
  ultimately show ?thesis by (rule keeps_trans)
qed (use ok in \<open>simp add: reader_stop_def keeps_refl\<close>)

text \<open>
  Every step of every task: it does not panic and keeps the invariant, and no waiter is
  forgotten except the one whose deadline the step is.
\<close>

lemma conn_step_ok:
  assumes ok: "conn_ok c"
  shows "\<exists>c'. conn_step e c = Some c' \<and> conn_ok c' \<and> conn_le c c' \<and>
    (\<forall>t. tracked c t \<longrightarrow> e \<noteq> Ev_Expire t \<longrightarrow> tracked c' t)"
proof -
  have K: ?thesis if "conn_step e c = Some c'" "keeps c c'" for c'
    using that by (auto simp: keeps_def)
  show ?thesis
  proof (cases e)
    case (Ev_Send frame cid now)
    with send_begin_ok [OF ok, of frame cid now] show ?thesis by auto
  next
    case (Ev_Expire t)
    have w: "dx.waiting (cn_demux c) (cn_owner c ! t) = Some t"
      if "demux_holds (cn_demux c) t"
      using that conn_okD(4) [OF ok] by (auto simp: demux_holds_iff [OF conn_okD(1) [OF ok]])
    from send_end_ok [OF ok, of "cn_owner c ! t" "wait_outcome c t"] w show ?thesis
      using ok Ev_Expire by auto
  next
    case (Ev_Read bytes)
    from reader_read_ok [OF ok, of bytes] obtain c' where "reader_read bytes c = Some c'" "keeps c c'"
      by blast
    with Ev_Read show ?thesis by (intro K [of c']) auto
  next
    case (Ev_SendRaw frame)
    show ?thesis
      by (rule K [of "snd (send_raw c frame)"])
         (use ok Ev_SendRaw in \<open>auto simp: send_raw_def intro!: keepsI dest: conn_okD\<close>)
  next
    case Ev_NextId
    show ?thesis
      by (rule K [of "snd (next_corr_id c)"])
         (use ok Ev_NextId in \<open>auto simp: next_corr_id_cases intro!: keepsI dest: conn_okD\<close>)
  next
    case Ev_Close
    show ?thesis
      by (rule K [of "close c"]) (use ok Ev_Close in \<open>auto simp: close_def intro!: keepsI\<close>)
  next
    case Ev_Keepalive
    show ?thesis
      by (rule K [of "keepalive_tick c"])
         (use ok Ev_Keepalive in \<open>auto simp: keepalive_tick_def intro!: keepsI dest: conn_okD\<close>)
  qed (use writer_step_keeps [OF ok] reader_stop_keeps [OF ok] in \<open>auto simp: keeps_def\<close>)
qed

lemma conn_run_ok:
  assumes "conn_ok c"
  shows "\<exists>c'. conn_run es c = Some c' \<and> conn_ok c' \<and> conn_le c c' \<and>
    (\<forall>t. tracked c t \<longrightarrow> Ev_Expire t \<notin> set es \<longrightarrow> tracked c' t)"
  using assms
proof (induction es arbitrary: c)
  case (Cons e es)
  from conn_step_ok [OF Cons.prems, of e] obtain c1 where
    c1: "conn_step e c = Some c1" "conn_ok c1" "conn_le c c1"
    "\<forall>t. tracked c t \<longrightarrow> e \<noteq> Ev_Expire t \<longrightarrow> tracked c1 t" by blast
  from Cons.IH [OF c1(2)] obtain c2 where
    c2: "conn_run es c1 = Some c2" "conn_ok c2" "conn_le c1 c2"
    "\<forall>t. tracked c1 t \<longrightarrow> Ev_Expire t \<notin> set es \<longrightarrow> tracked c2 t" by blast
  have "conn_le c c2" using c1(3) c2(3) by (rule conn_le_trans)
  with c1 c2 show ?case by auto
qed simp

section \<open>Requests, end to end\<close>

text \<open>
  While a request waits, whatever the other tasks do, its channel is registered or answered;
  so the branch for a dropped sender is never taken.
\<close>

lemma wait_not_dropped:
  assumes "conn_ok c" and "tracked c t"
  shows "wait_outcome c t \<noteq> SenderDropped"
  using assms demux_holds_iff [OF conn_okD(1) [OF assms(1)], of t]
  by (auto simp: wait_outcome_def tracked_def split: option.splits)

lemma send_and_wait_accepted:
  assumes ok: "conn_ok c" and beg: "send_begin c frame cid now = Some (Inr t, c1)"
    and others: "Ev_Expire t \<notin> set es"
  shows "\<exists>c2 r c3. conn_run es c1 = Some c2 \<and> wait_outcome c2 t \<noteq> SenderDropped \<and>
    send_and_wait es c frame cid now = Some (r, c3) \<and> conn_ok c3 \<and>
    (\<forall>response. r = Inr response \<longrightarrow> reply_ok cid response) \<and>
    (\<forall>e. r = Inl e \<longrightarrow> e = RZ_Timeout \<or> e = RZ_ConnectionClosed)"
proof -
  from send_begin_ok [OF ok, of frame cid now] beg have
    c1: "conn_ok c1" "t < length (cn_owner c1)" "cn_owner c1 ! t = cid" "tracked c1 t" by auto
  from conn_run_ok [OF c1(1), of es] others c1(4) obtain c2 where
    c2: "conn_run es c1 = Some c2" "conn_ok c2" "conn_le c1 c2" "tracked c2 t" by blast
  note W = wait_not_dropped [OF c2(2,4)]
  have owner: "cn_owner c2 ! t = cid" using conn_le_owner [OF c2(3) c1(2)] c1(3) by simp
  obtain r c3 where e: "send_end c2 cid (wait_outcome c2 t) = Some (r, c3)" "conn_ok c3"
    using send_end_ok [OF c2(2), of cid "wait_outcome c2 t"] by blast
  have "reply_ok cid response" if "r = Inr response" for response
  proof -
    have "hm_get (cn_mail c2) t = Some (Inr response)"
      using e(1) that by (auto simp: send_end_def wait_outcome_def
          split: option.splits wait_result.splits sum.splits demux_error.splits if_splits bind_splits)
    then show ?thesis using conn_okD(7) [OF c2(2)] owner by blast
  qed
  moreover have "e = RZ_Timeout \<or> e = RZ_ConnectionClosed" if "r = Inl e" for e
    using e(1) that by (auto simp: send_end_def
        split: wait_result.splits sum.splits demux_error.splits bind_splits)
  moreover have "send_and_wait es c frame cid now = Some (r, c3)"
    by (simp add: send_and_wait_def beg c2(1) e(1))
  ultimately show ?thesis using c2(1) W e(2) by blast
qed

text \<open>The request as a whole never panics, and what it returns is its own reply or an error.\<close>

lemma send_and_wait_ok:
  assumes ok: "conn_ok c" and others: "Ev_Expire (length (cn_owner c)) \<notin> set es"
  shows "\<exists>r c'. send_and_wait es c frame cid now = Some (r, c') \<and> conn_ok c' \<and>
    (\<forall>response. r = Inr response \<longrightarrow> reply_ok cid response)"
proof -
  from send_begin_ok [OF ok, of frame cid now] obtain r c1 where
    b: "send_begin c frame cid now = Some (r, c1)" "conn_ok c1"
    "\<forall>t. r = Inr t \<longrightarrow> t = length (cn_owner c)" by blast
  show ?thesis
  proof (cases r)
    case (Inl e)
    with b show ?thesis by (simp add: send_and_wait_def)
  next
    case (Inr t)
    with b others have "send_begin c frame cid now = Some (Inr t, c1)" "Ev_Expire t \<notin> set es" by auto
    from send_and_wait_accepted [OF ok this] show ?thesis by blast
  qed
qed

text \<open>A lost socket answers every waiter at once, and the connection is closed for good.\<close>

lemma reader_stop_answers:
  assumes ok: "conn_ok c" and "cn_reader c" and "dx.waiting (cn_demux c) cid = Some t"
  shows "wait_outcome (reader_stop c) t = Received (Inl DE_ConnectionClosed)"
    and "is_closed (reader_stop c)"
proof -
  have "conn_ok (c\<lparr>cn_closed := True\<rparr>)" using ok by (rule conn_ok_closed)
  from fail_pending_spec(4) [OF this, of cid t] assms
  show "wait_outcome (reader_stop c) t = Received (Inl DE_ConnectionClosed)"
    by (simp add: reader_stop_def wait_outcome_def)
  show "is_closed (reader_stop c)"
    using assms(2) by (simp add: reader_stop_def is_closed_def fail_pending_def deliver_def
        split: prod.splits)
qed

text \<open>
  Closing sets a flag. Without a frame in the channel nothing wakes the writer, and nothing at
  all stops the reader but the peer: both tasks, with the socket they own, stay.
\<close>

definition local_event :: "conn_event \<Rightarrow> bool" where
  "local_event e \<longleftrightarrow> e \<noteq> Ev_Eof \<and> e \<noteq> Ev_ReadError"

definition lingering :: "conn \<Rightarrow> bool" where
  "lingering c \<longleftrightarrow> cn_closed c \<and> cn_queue c = [] \<and> cn_writer c \<and> cn_reader c"

lemma lingering_step:
  assumes "lingering c" and "local_event e" and "conn_step e c = Some c'"
  shows "lingering c'"
proof (cases e)
  case (Ev_Read bytes)
  with assms show ?thesis
    by (auto simp: lingering_def reader_read_def split: bind_splits dest!: dispatch_frame)
next
  case (Ev_Expire t)
  with assms show ?thesis
    by (auto simp: lingering_def send_end_def split: if_splits wait_result.splits sum.splits
        demux_error.splits bind_splits)
qed (use assms in \<open>auto simp: lingering_def local_event_def send_begin_closed is_closed_def
      send_raw_def next_corr_id_cases close_def writer_step_def keepalive_tick_def\<close>)

lemma lingering_run:
  "lingering c \<Longrightarrow> \<forall>e\<in>set es. local_event e \<Longrightarrow> conn_run es c = Some c' \<Longrightarrow> lingering c'"
  by (induction es arbitrary: c) (auto split: bind_splits dest: lingering_step)

section \<open>Correlation ids\<close>

fun take_ids :: "nat \<Rightarrow> conn \<Rightarrow> u32 list" where
  "take_ids 0 c = []"
| "take_ids (Suc n) c = (case next_corr_id c of (i, c') \<Rightarrow> i # take_ids n c')"

lemma next_corr_id_not_0: "fst (next_corr_id c) \<noteq> 0"
  by (simp add: next_corr_id_cases)

lemma take_ids_nonzero: "0 \<notin> set (take_ids n c)"
  by (induction n arbitrary: c) (auto simp: next_corr_id_cases split: if_splits)

text \<open>Before the counter wraps around, the ids handed out are consecutive.\<close>

lemma take_ids_consecutive:
  "0 < unat (cn_corr_id c) \<Longrightarrow> unat (cn_corr_id c) + n \<le> 2 ^ 32 \<Longrightarrow>
   map unat (take_ids n c) = [unat (cn_corr_id c)..<unat (cn_corr_id c) + n]"
proof (induction n arbitrary: c)
  case (Suc n)
  let ?c = "c\<lparr>cn_corr_id := cn_corr_id c + 1\<rparr>"
  have nz: "cn_corr_id c \<noteq> 0" using Suc.prems(1) by auto
  show ?case
  proof (cases "n = 0")
    case True
    with nz show ?thesis by (simp add: next_corr_id_cases)
  next
    case False
    then have "unat (cn_corr_id c) + 1 < 2 ^ 32" using Suc.prems by simp
    then have u: "unat (cn_corr_id c + 1) = Suc (unat (cn_corr_id c))"
      by (simp add: unat_word_ariths)
    with Suc.IH [of ?c] Suc.prems nz show ?thesis
      by (simp add: next_corr_id_cases upt_conv_Cons)
  qed
qed simp

lemma take_ids_distinct:
  assumes "0 < unat (cn_corr_id c)" and "unat (cn_corr_id c) + n \<le> 2 ^ 32"
  shows "distinct (take_ids n c)"
  using take_ids_consecutive [OF assms] by (metis distinct_map distinct_upt)

end
