(* ===== verification/Resolver.thy ===== *)
theory Resolver
  imports Config
begin

text \<open>
  The RzPoint resolver of \<open>src/resolver.rs\<close>: the base URL and the lookup of a hop's host with
  three attempts. The HTTP client is not part of the repository: \<open>http n url\<close> is the outcome of
  its \<open>n\<close>-th request: a response with a status, the text the status is displayed as, and a body
  (or an error reading it), or a transport error.
\<close>

datatype http_reply =
    Http_Response nat string "string + string"
  | Http_Failure string

record resolver =
  rs_base_url :: string
  rs_mode :: router_mode

text \<open>The clean-up both HTTP clients apply to the address they are configured with.\<close>

definition http_base :: "string \<Rightarrow> string" where
  "http_base addr =
     (let clean = trim_end_char (CHR ''/'')
            (trim_start_matches ''https://'' (trim_start_matches ''http://'' addr))
      in ''http://'' @ clean)"

text \<open>Building the HTTP client may fail; \<open>build_error\<close> is its error.\<close>

definition resolver_new :: "string option \<Rightarrow> string \<Rightarrow> router_mode \<Rightarrow> rz_error + resolver" where
  "resolver_new build_error rzpoint_addr mode =
     (case build_error of
        Some e \<Rightarrow> Inl (RZ_System (''rzpoint client: '' @ e))
      | None \<Rightarrow> Inr \<lparr>rs_base_url = http_base rzpoint_addr, rs_mode = mode\<rparr>)"

definition resolve_url :: "resolver \<Rightarrow> string \<Rightarrow> string" where
  "resolve_url r hop_id =
     (let path = (case rs_mode r of
          ModeEdge \<Rightarrow> ''/routers/'' @ hop_id
        | ModeZone \<Rightarrow> ''/bridges/'' @ hop_id)
      in rs_base_url r @ path)"

definition is_success :: "nat \<Rightarrow> bool" where
  "is_success status \<longleftrightarrow> 200 \<le> status \<and> status < 300"

text \<open>
  The loop over the attempts that are left; \<open>n\<close> counts the requests made so far. The result
  comes with the new count. (The pause between attempts changes no state.)
\<close>

fun resolve_attempts ::
  "(nat \<Rightarrow> string \<Rightarrow> http_reply) \<Rightarrow> string \<Rightarrow> string \<Rightarrow> nat \<Rightarrow> nat \<Rightarrow> rz_error option \<Rightarrow>
   (rz_error + string) \<times> nat"
where
  "resolve_attempts http url hop_id 0 n last_err =
     (Inl (case last_err of Some e \<Rightarrow> e | None \<Rightarrow> RZ_Resolver ''resolve failed''), n)"
| "resolve_attempts http url hop_id (Suc attempts) n last_err =
     (case http n url of
        Http_Response status status_text body \<Rightarrow>
          if is_success status then
            (case body of
               Inl e \<Rightarrow> (Inl (RZ_Resolver e), Suc n)
             | Inr host \<Rightarrow>
                 (let trimmed = trim host in
                  if trimmed = [] then (Inl (RZ_Resolver (''empty response for hop '' @ hop_id)), Suc n)
                  else (Inr trimmed, Suc n)))
          else if status = 404 then (Inl (RZ_Resolver (''hop '' @ hop_id @ '' not found'')), Suc n)
          else resolve_attempts http url hop_id attempts (Suc n)
                 (Some (RZ_Resolver (''HTTP '' @ status_text)))
      | Http_Failure e \<Rightarrow>
          resolve_attempts http url hop_id attempts (Suc n) (Some (RZ_Resolver e)))"

definition resolve ::
  "(nat \<Rightarrow> string \<Rightarrow> http_reply) \<Rightarrow> resolver \<Rightarrow> string \<Rightarrow> nat \<Rightarrow> (rz_error + string) \<times> nat" where
  "resolve http r hop_id n = resolve_attempts http (resolve_url r hop_id) hop_id 3 n None"

section \<open>Properties\<close>

lemma resolve_attempts_count:
  "resolve_attempts http url hop_id k n le = (r, m) \<Longrightarrow> n \<le> m \<and> m \<le> n + k"
proof (induction http url hop_id k n le rule: resolve_attempts.induct)
  case (2 http url hop_id attempts n last_err)
  then show ?case
    by (fastforce simp: Let_def split: http_reply.splits sum.splits if_splits)
qed simp

lemma resolve_attempts_nonempty:
  "resolve_attempts http url hop_id k n le = (Inr addr, m) \<Longrightarrow> addr \<noteq> []"
proof (induction http url hop_id k n le rule: resolve_attempts.induct)
  case (2 http url hop_id attempts n last_err)
  then show ?case
    by (auto simp: Let_def split: http_reply.splits sum.splits if_splits)
qed simp

text \<open>Every failure of the resolver is reported as a resolver error.\<close>

lemma resolve_attempts_error:
  "resolve_attempts http url hop_id k n le = (Inl e, m) \<Longrightarrow>
   (\<forall>e'. le = Some e' \<longrightarrow> (\<exists>s. e' = RZ_Resolver s)) \<Longrightarrow> \<exists>s. e = RZ_Resolver s"
proof (induction http url hop_id k n le rule: resolve_attempts.induct)
  case (1 http url hop_id n last_err)
  then show ?case by (auto split: option.splits)
next
  case (2 http url hop_id attempts n last_err)
  then show ?case
    by (auto simp: Let_def split: http_reply.splits sum.splits if_splits)
qed

text \<open>An answer decides at once: success and 404 are not retried, anything else is.\<close>

lemma resolve_success:
  "http n (resolve_url r hop_id) = Http_Response st txt (Inr host) \<Longrightarrow> is_success st \<Longrightarrow> trim host \<noteq> [] \<Longrightarrow>
   resolve http r hop_id n = (Inr (trim host), Suc n)"
  by (simp add: resolve_def numeral_3_eq_3)

lemma resolve_not_found:
  "http n (resolve_url r hop_id) = Http_Response 404 txt b \<Longrightarrow>
   resolve http r hop_id n = (Inl (RZ_Resolver (''hop '' @ hop_id @ '' not found'')), Suc n)"
  by (simp add: resolve_def numeral_3_eq_3 is_success_def)

lemma resolve_exhausted:
  assumes "\<And>i. i < 3 \<Longrightarrow> \<exists>e. http (n + i) (resolve_url r hop_id) = Http_Failure e"
  shows "\<exists>e. resolve http r hop_id n = (Inl (RZ_Resolver e), n + 3)"
proof -
  from assms [of 0] assms [of 1] assms [of 2] obtain e0 e1 e2 where
    "http n (resolve_url r hop_id) = Http_Failure e0"
    "http (Suc n) (resolve_url r hop_id) = Http_Failure e1"
    "http (Suc (Suc n)) (resolve_url r hop_id) = Http_Failure e2" by auto
  then show ?thesis by (simp add: resolve_def numeral_3_eq_3)
qed

text \<open>The base URL always has the plain scheme once and no slash at its end.\<close>

lemma http_base_scheme: "starts_with (http_base addr) ''http://''"
  by (simp add: http_base_def Let_def)

lemma http_base_no_slash: "\<exists>clean. http_base addr = ''http://'' @ clean \<and>
    (clean = [] \<or> last clean \<noteq> CHR ''/'')"
  using trim_end_char_clean by (auto simp: http_base_def Let_def)

lemma http_base_plain:
  assumes "\<not> starts_with a ''http://''" and "\<not> starts_with a ''https://''"
    and "trim_end_char (CHR ''/'') a = a"
  shows "http_base a = ''http://'' @ a"
  using assms by (simp add: http_base_def Let_def trim_start_matches_stop)

end
