(* ===== verification/Hop.thy ===== *)
theory Hop
  imports Connection Resolver
begin

text \<open>
  Connection sets, the atomic hop state and the hop with its maintenance, from
  \<open>src/hop.rs\<close>. Connections are shared between the hop and the requests that use them
  (\<open>Arc<Connection>\<close>): a handle is a number, and the arena maps handles to connections. The
  outcomes of the operating system and of the HTTP client are given per call, in the order of
  the calls; the arena counts the calls made. One tick of the maintenance task is one step.
\<close>

section \<open>Arena and environment\<close>

record arena =
  ar_conns :: "nat \<Rightarrow> conn"
  ar_next :: nat
  ar_dials :: nat
  ar_https :: nat

text \<open>\<open>io_dial n addr\<close> is the error of the \<open>n\<close>-th attempt to open a socket, if it fails.\<close>

record io =
  io_dial :: "nat \<Rightarrow> string \<Rightarrow> string option"
  io_http :: "nat \<Rightarrow> string \<Rightarrow> http_reply"

definition closed_at :: "arena \<Rightarrow> nat \<Rightarrow> bool" where
  "closed_at a h = is_closed (ar_conns a h)"

definition close_at :: "nat \<Rightarrow> arena \<Rightarrow> arena" where
  "close_at h a = a\<lparr>ar_conns := (ar_conns a)(h := close (ar_conns a h))\<rparr>"

fun close_all :: "nat list \<Rightarrow> arena \<Rightarrow> arena" where
  "close_all [] a = a"
| "close_all (h # hs) a = close_all hs (close_at h a)"

text \<open>\<open>Connection::connect\<close> through the environment, with the handle of the new connection.\<close>

definition open_conn :: "io \<Rightarrow> config \<Rightarrow> string \<Rightarrow> u64 \<Rightarrow> arena \<Rightarrow> (rz_error + nat) \<times> arena" where
  "open_conn io config addr conn_id a =
     (let a' = a\<lparr>ar_dials := Suc (ar_dials a)\<rparr> in
      case connect (io_dial io (ar_dials a)) addr (cfg_hop_tcp_port config) config conn_id of
        Inl e \<Rightarrow> (Inl e, a')
      | Inr c \<Rightarrow> (Inr (ar_next a),
          a'\<lparr>ar_conns := (ar_conns a)(ar_next a := c), ar_next := Suc (ar_next a)\<rparr>))"

text \<open>
  Storing a new connection set drops the connections of the old one that it does not hold, and
  \<open>Drop\<close> closes them. (A request in flight may hold one a little longer; it then drops it.)
\<close>

definition drop_replaced :: "nat list \<Rightarrow> nat list \<Rightarrow> arena \<Rightarrow> arena" where
  "drop_replaced old new a = close_all (filter (\<lambda>h. h \<notin> set new) old) a"

section \<open>Connection sets\<close>

text \<open>
  \<open>pick\<close>: the first connection that is not closed, from the cursor on. The index is computed
  in \<open>usize\<close>, and the release build wraps the sum around.
\<close>

fun pick_loop :: "('c \<Rightarrow> bool) \<Rightarrow> 'c list \<Rightarrow> u64 \<Rightarrow> nat list \<Rightarrow> 'c option" where
  "pick_loop closed conns cursor [] = None"
| "pick_loop closed conns cursor (i # is) =
     (let idx = unat (cursor + word_of_nat i) mod length conns;
          conn = conns ! idx
      in if \<not> closed conn then Some conn else pick_loop closed conns cursor is)"

definition pick :: "('c \<Rightarrow> bool) \<Rightarrow> 'c list \<Rightarrow> u64 \<Rightarrow> 'c option" where
  "pick closed conns cursor =
     (let n = length conns in if n = 0 then None else pick_loop closed conns cursor [0..<n])"

definition live_count :: "('c \<Rightarrow> bool) \<Rightarrow> 'c list \<Rightarrow> nat" where
  "live_count closed conns = length (filter (\<lambda>c. \<not> closed c) conns)"

lemma pick_loop_eq:
  "pick_loop closed conns cursor is =
     find (\<lambda>c. \<not> closed c) (map (\<lambda>i. conns ! (unat (cursor + word_of_nat i) mod length conns)) is)"
  by (induction "is") (auto simp: Let_def)

lemma pick_sound:
  assumes "pick closed conns cursor = Some c"
  shows "c \<in> set conns \<and> \<not> closed c"
proof -
  from assms have n: "0 < length conns"
    and f: "find (\<lambda>c. \<not> closed c) (map (\<lambda>i. conns ! (unat (cursor + word_of_nat i) mod length conns))
      [0..<length conns]) = Some c"
    by (auto simp: pick_def Let_def pick_loop_eq split: if_splits)
  from f have "\<not> closed c" and "c \<in> set (map (\<lambda>i. conns ! (unat (cursor + word_of_nat i) mod
      length conns)) [0..<length conns])"
    by (auto simp: find_Some_iff)
  with n show ?thesis by auto
qed

text \<open>Away from the wrap-around the search is round-robin: it visits a rotation of the set.\<close>

lemma pick_rotate:
  assumes "unat cursor + length conns \<le> 2 ^ 64"
  shows "pick closed conns cursor = find (\<lambda>c. \<not> closed c) (rotate (unat cursor) conns)"
proof (cases "conns = []")
  case False
  have "map (\<lambda>i. conns ! (unat (cursor + word_of_nat i) mod length conns)) [0..<length conns] =
      rotate (unat cursor) conns"
  proof (rule nth_equalityI)
    fix i assume "i < length (map (\<lambda>i. conns ! (unat (cursor + word_of_nat i) mod length conns))
        [0..<length conns])"
    then have i: "i < length conns" by simp
    then have "unat (cursor + word_of_nat i) = unat cursor + i"
      using assms by (simp add: unat_word_ariths unat_of_nat)
    with i show "map (\<lambda>i. conns ! (unat (cursor + word_of_nat i) mod length conns))
        [0..<length conns] ! i = rotate (unat cursor) conns ! i"
      by (simp add: nth_rotate add.commute)
  qed simp
  with False show ?thesis by (simp add: pick_def Let_def pick_loop_eq)
qed (simp add: pick_def)

lemma pick_complete:
  assumes "unat cursor + length conns \<le> 2 ^ 64"
  shows "pick closed conns cursor = None \<longleftrightarrow> (\<forall>c\<in>set conns. closed c)"
  by (auto simp: pick_rotate [OF assms] find_None_iff)

lemma live_count_0: "live_count closed conns = 0 \<longleftrightarrow> (\<forall>c\<in>set conns. closed c)"
  by (simp add: live_count_def filter_empty_conv)

section \<open>The atomic hop state\<close>

datatype hop_state = Healthy | Recovering | Unavailable

type_synonym atomic_hop_state = nat

fun hop_state_val :: "hop_state \<Rightarrow> nat" where
  "hop_state_val Healthy = 0"
| "hop_state_val Recovering = 1"
| "hop_state_val Unavailable = 2"

definition ahs_new :: "hop_state \<Rightarrow> atomic_hop_state" where
  "ahs_new state = hop_state_val state"

definition ahs_load :: "atomic_hop_state \<Rightarrow> hop_state" where
  "ahs_load cell = (if cell = 0 then Healthy else if cell = 1 then Recovering else Unavailable)"

definition ahs_store :: "hop_state \<Rightarrow> atomic_hop_state \<Rightarrow> atomic_hop_state" where
  "ahs_store state cell = hop_state_val state"

definition ahs_compare_exchange ::
  "hop_state \<Rightarrow> hop_state \<Rightarrow> atomic_hop_state \<Rightarrow> (hop_state + unit) \<times> atomic_hop_state" where
  "ahs_compare_exchange current new cell =
     (if cell = hop_state_val current then (Inr (), hop_state_val new)
      else (Inl (ahs_load cell), cell))"

text \<open>The states are ordered by their numbers, which is also the order of degradation.\<close>

instantiation hop_state :: linorder
begin

definition less_eq_hop_state :: "hop_state \<Rightarrow> hop_state \<Rightarrow> bool" where
  "less_eq_hop_state a b \<longleftrightarrow> hop_state_val a \<le> hop_state_val b"

definition less_hop_state :: "hop_state \<Rightarrow> hop_state \<Rightarrow> bool" where
  "less_hop_state a b \<longleftrightarrow> hop_state_val a < hop_state_val b"

instance
proof
  fix a b c :: hop_state
  show "a < b \<longleftrightarrow> a \<le> b \<and> \<not> b \<le> a" by (auto simp: less_hop_state_def less_eq_hop_state_def)
  show "a \<le> a" by (simp add: less_eq_hop_state_def)
  show "a \<le> b \<Longrightarrow> b \<le> c \<Longrightarrow> a \<le> c" by (simp add: less_eq_hop_state_def)
  show "a \<le> b \<Longrightarrow> b \<le> a \<Longrightarrow> a = b" by (cases a; cases b) (auto simp: less_eq_hop_state_def)
  show "a \<le> b \<or> b \<le> a" by (auto simp: less_eq_hop_state_def)
qed

end

lemma ahs_load_val [simp]: "ahs_load (hop_state_val s) = s"
  by (cases s) (simp_all add: ahs_load_def)

lemma ahs_load_new [simp]: "ahs_load (ahs_new s) = s"
  by (simp add: ahs_new_def)

lemma ahs_load_store [simp]: "ahs_load (ahs_store s cell) = s"
  by (simp add: ahs_store_def)

text \<open>A cell only ever holds the number of a state.\<close>

definition ahs_ok :: "atomic_hop_state \<Rightarrow> bool" where
  "ahs_ok cell \<longleftrightarrow> cell \<le> 2"

lemma ahs_ok_val [simp]: "ahs_ok (hop_state_val s)"
  by (cases s) (simp_all add: ahs_ok_def)

lemma ahs_ok_store [simp]: "ahs_ok (ahs_store s cell)" "ahs_ok (ahs_new s)"
  by (simp_all add: ahs_store_def ahs_new_def)

lemma ahs_val_load: "ahs_ok cell \<Longrightarrow> hop_state_val (ahs_load cell) = cell"
  by (auto simp: ahs_ok_def ahs_load_def numeral_2_eq_2 le_Suc_eq)

lemma ahs_compare_exchange_spec:
  assumes "ahs_ok cell"
  shows "ahs_compare_exchange current new cell =
    (if ahs_load cell = current then (Inr (), hop_state_val new) else (Inl (ahs_load cell), cell))"
  using ahs_val_load [OF assms] by (auto simp: ahs_compare_exchange_def)

section \<open>Hops\<close>

record hop =
  hp_id :: string
  hp_address :: "string option"
  hp_connections :: "nat list"
  hp_rr :: u64
  hp_state :: atomic_hop_state
  hp_cancelled :: bool

definition hop_new :: "string \<Rightarrow> hop" where
  "hop_new id0 = \<lparr>hp_id = id0, hp_address = None, hp_connections = [], hp_rr = 0,
     hp_state = ahs_new Healthy, hp_cancelled = False\<rparr>"

abbreviation state_of :: "hop \<Rightarrow> hop_state" where
  "state_of h \<equiv> ahs_load (hp_state h)"

definition set_state :: "hop_state \<Rightarrow> hop \<Rightarrow> hop" where
  "set_state s h = h\<lparr>hp_state := ahs_store s (hp_state h)\<rparr>"

definition next_connection :: "arena \<Rightarrow> hop \<Rightarrow> nat option \<times> hop" where
  "next_connection a h =
     (pick (closed_at a) (hp_connections h) (hp_rr h), h\<lparr>hp_rr := hp_rr h + 1\<rparr>)"

definition hop_resolve :: "io \<Rightarrow> resolver \<Rightarrow> hop \<Rightarrow> arena \<Rightarrow> (rz_error + string) \<times> arena" where
  "hop_resolve io rs h a =
     (let (r, n) = resolve (io_http io) rs (hp_id h) (ar_https a) in (r, a\<lparr>ar_https := n\<rparr>))"

definition ensure_address :: "io \<Rightarrow> resolver \<Rightarrow> hop \<Rightarrow> arena \<Rightarrow> string option \<times> hop \<times> arena" where
  "ensure_address io rs h a =
     (case hp_address h of
        Some addr \<Rightarrow> (Some addr, h, a)
      | None \<Rightarrow>
          (case hop_resolve io rs h a of
             (Inr addr, a') \<Rightarrow> (Some addr, h\<lparr>hp_address := Some addr\<rparr>, a')
           | (Inl e, a') \<Rightarrow> (None, set_state Unavailable h, a')))"

definition resolve_address :: "io \<Rightarrow> resolver \<Rightarrow> hop \<Rightarrow> arena \<Rightarrow> string option \<times> hop \<times> arena" where
  "resolve_address io rs h a =
     (case hp_address h of
        Some addr \<Rightarrow> (Some addr, h, a)
      | None \<Rightarrow> ensure_address io rs h a)"

definition store_connections :: "nat list \<Rightarrow> hop \<Rightarrow> arena \<Rightarrow> hop \<times> arena" where
  "store_connections new h a =
     (h\<lparr>hp_connections := new\<rparr>, drop_replaced (hp_connections h) new a)"

definition try_reconnect :: "io \<Rightarrow> config \<Rightarrow> string \<Rightarrow> hop \<Rightarrow> arena \<Rightarrow> bool \<times> hop \<times> arena" where
  "try_reconnect io config addr h a =
     (case open_conn io config addr 999999 a of
        (Inr conn, a') \<Rightarrow> (let (h', a'') = store_connections [conn] h a' in (True, h', a''))
      | (Inl e, a') \<Rightarrow> (False, h, a'))"

text \<open>The loop that opens the missing connections; the state is marked on a failure.\<close>

fun create_conns ::
  "io \<Rightarrow> config \<Rightarrow> string \<Rightarrow> nat \<Rightarrow> nat \<Rightarrow> u64 \<Rightarrow> nat list \<Rightarrow> hop \<Rightarrow> arena \<Rightarrow> nat list \<times> hop \<times> arena"
where
  "create_conns io config addr to_create 0 conn_counter new_conns h a = (new_conns, h, a)"
| "create_conns io config addr to_create (Suc k) conn_counter new_conns h a =
     (case open_conn io config addr conn_counter a of
        (Inr conn, a') \<Rightarrow>
          create_conns io config addr to_create k (conn_counter + 1) (new_conns @ [conn]) h a'
      | (Inl e, a') \<Rightarrow>
          create_conns io config addr to_create k (conn_counter + 1) new_conns
            (if new_conns = [] \<and> to_create > 1 then set_state Recovering h else h) a')"

definition ensure_connections :: "io \<Rightarrow> config \<Rightarrow> resolver \<Rightarrow> hop \<Rightarrow> arena \<Rightarrow> hop \<times> arena" where
  "ensure_connections io config rs h a =
     (let target = max (cfg_conn_per_hop config) 1;
          set0 = hp_connections h;
          live = live_count (closed_at a) set0
      in if live < target then
           (let (addr, h, a) =
              (case hp_address h of
                 Some addr \<Rightarrow> (Some addr, h, a)
               | None \<Rightarrow>
                   (case hop_resolve io rs h a of
                      (Inr addr, a') \<Rightarrow> (Some addr, h\<lparr>hp_address := Some addr\<rparr>, a')
                    | (Inl e, a') \<Rightarrow> (None, h, a')))
            in case addr of
                 None \<Rightarrow> (h, a)
               | Some addr \<Rightarrow>
                   (let to_create = target - live;
                        kept = filter (\<lambda>c. \<not> closed_at a c) set0;
                        (new_conns, h, a) =
                          create_conns io config addr to_create to_create 0 kept h a
                    in if new_conns \<noteq> [] then store_connections new_conns h a else (h, a)))
         else (h, a))"

definition maintenance_tick :: "io \<Rightarrow> config \<Rightarrow> resolver \<Rightarrow> hop \<Rightarrow> arena \<Rightarrow> hop \<times> arena" where
  "maintenance_tick io config rs h a =
     (case state_of h of
        Healthy \<Rightarrow> ensure_connections io config rs h a
      | Recovering \<Rightarrow>
          (case hp_address h of
             Some addr \<Rightarrow>
               (let (ok, h, a) = try_reconnect io config addr h a in
                if ok then (set_state Healthy h, a)
                else (case hop_resolve io rs h a of
                    (Inr new_addr, a) \<Rightarrow>
                      (let h = h\<lparr>hp_address := Some new_addr\<rparr>;
                           (ok, h, a) = try_reconnect io config new_addr h a
                       in if ok then (set_state Healthy h, a) else (h, a))
                  | (Inl e, a) \<Rightarrow> (h, a)))
           | None \<Rightarrow>
               (case hop_resolve io rs h a of
                  (Inr addr, a) \<Rightarrow>
                    (let h = h\<lparr>hp_address := Some addr\<rparr>;
                         (ok, h, a) = try_reconnect io config addr h a
                     in if ok then (set_state Healthy h, a) else (h, a))
                | (Inl e, a) \<Rightarrow> (h, a)))
      | Unavailable \<Rightarrow>
          (if hp_address h \<noteq> None then (set_state Recovering h, a) else (h, a)))"

definition shutdown :: "hop \<Rightarrow> arena \<Rightarrow> hop \<times> arena" where
  "shutdown h a = (h\<lparr>hp_cancelled := True\<rparr>, close_all (hp_connections h) a)"

definition hop_drop :: "hop \<Rightarrow> hop" where
  "hop_drop h = h\<lparr>hp_cancelled := True\<rparr>"

text \<open>The maintenance loop: ticks until the token is cancelled.\<close>

fun maintenance_loop :: "io \<Rightarrow> config \<Rightarrow> resolver \<Rightarrow> nat \<Rightarrow> hop \<Rightarrow> arena \<Rightarrow> hop \<times> arena" where
  "maintenance_loop io config rs 0 h a = (h, a)"
| "maintenance_loop io config rs (Suc ticks) h a =
     (if hp_cancelled h then (h, a)
      else (let (h, a) = maintenance_tick io config rs h a in maintenance_loop io config rs ticks h a))"

section \<open>The arena under the operations\<close>

lemma closed_at_close_at [simp]: "closed_at (close_at h a) h' \<longleftrightarrow> h = h' \<or> closed_at a h'"
  by (auto simp: closed_at_def close_at_def is_closed_def close_def)

lemma close_at_fields [simp]:
  "ar_next (close_at h a) = ar_next a" "ar_dials (close_at h a) = ar_dials a"
  "ar_https (close_at h a) = ar_https a"
  by (simp_all add: close_at_def)

lemma closed_at_close_all [simp]: "closed_at (close_all hs a) h \<longleftrightarrow> h \<in> set hs \<or> closed_at a h"
  by (induction hs a rule: close_all.induct) auto

lemma close_all_fields [simp]:
  "ar_next (close_all hs a) = ar_next a" "ar_dials (close_all hs a) = ar_dials a"
  "ar_https (close_all hs a) = ar_https a"
  by (induction hs a rule: close_all.induct) auto

lemma closed_at_https [simp]: "closed_at (a\<lparr>ar_https := n\<rparr>) = closed_at a"
  by (simp add: closed_at_def fun_eq_iff)

text \<open>A new connection gets a fresh handle and is open; the others are as before.\<close>

definition dial_ok :: "io \<Rightarrow> config \<Rightarrow> string \<Rightarrow> nat \<Rightarrow> bool" where
  "dial_ok io config addr n \<longleftrightarrow> io_dial io n (host_port addr (cfg_hop_tcp_port config)) = None"

lemma open_conn_cases:
  "open_conn io config addr i a =
     (if dial_ok io config addr (ar_dials a)
      then (Inr (ar_next a), a\<lparr>ar_dials := Suc (ar_dials a), ar_next := Suc (ar_next a),
        ar_conns := (ar_conns a)(ar_next a := projr
          (connect (\<lambda>_. None) addr (cfg_hop_tcp_port config) config i))\<rparr>)
      else (Inl (RZ_Io (the (io_dial io (ar_dials a) (host_port addr (cfg_hop_tcp_port config))))),
        a\<lparr>ar_dials := Suc (ar_dials a)\<rparr>))"
  by (auto simp: open_conn_def connect_def dial_ok_def rz_error_from_io_def Let_def
      split: option.splits)

lemma open_conn_Inr:
  assumes "open_conn io config addr i a = (Inr c, a')"
  shows "c = ar_next a" "ar_next a' = Suc (ar_next a)" "\<not> closed_at a' c"
    "h \<noteq> c \<Longrightarrow> closed_at a' h = closed_at a h"
  using assms by (auto simp: open_conn_cases closed_at_def connect_def is_closed_def Let_def
      split: if_splits)

lemma open_conn_Inl:
  assumes "open_conn io config addr i a = (Inl e, a')"
  shows "ar_next a' = ar_next a" "closed_at a' = closed_at a"
  using assms by (auto simp: open_conn_cases closed_at_def fun_eq_iff split: if_splits)

text \<open>Handles in use are below the counter.\<close>

definition hop_ok :: "arena \<Rightarrow> hop \<Rightarrow> bool" where
  "hop_ok a h \<longleftrightarrow> ahs_ok (hp_state h) \<and> (\<forall>c\<in>set (hp_connections h). c < ar_next a)"

lemma hop_ok_new [simp]: "hop_ok a (hop_new i)"
  by (simp add: hop_ok_def hop_new_def)

lemma set_state_fields [simp]:
  "hp_id (set_state s h) = hp_id h" "hp_address (set_state s h) = hp_address h"
  "hp_connections (set_state s h) = hp_connections h" "hp_rr (set_state s h) = hp_rr h"
  "hp_cancelled (set_state s h) = hp_cancelled h" "state_of (set_state s h) = s"
  "ahs_ok (hp_state (set_state s h))"
  by (simp_all add: set_state_def)

lemma hop_ok_set_state [simp]: "hop_ok a (set_state s h) \<longleftrightarrow> (\<forall>c\<in>set (hp_connections h). c < ar_next a)"
  by (simp add: hop_ok_def)

text \<open>The loop that opens connections: what it opens is new and open, the rest is as before.\<close>

lemma set_state_idem [simp]: "set_state s (set_state t h) = set_state s h"
  by (simp add: set_state_def ahs_store_def)

lemma create_conns_spec:
  assumes "create_conns io config addr tc k cnt new h a = (cs, h', a')"
  shows "\<exists>opened. cs = new @ opened \<and> length opened \<le> k \<and>
    (\<forall>c\<in>set opened. ar_next a \<le> c \<and> c < ar_next a' \<and> \<not> closed_at a' c) \<and>
    ar_next a \<le> ar_next a' \<and> (\<forall>c<ar_next a. closed_at a' c = closed_at a c) \<and>
    (h' = h \<or> h' = set_state Recovering h \<and> new = [] \<and> 1 < tc) \<and>
    ((\<forall>n. dial_ok io config addr n) \<longrightarrow> length opened = k \<and> h' = h) \<and>
    ((\<forall>n. \<not> dial_ok io config addr n) \<longrightarrow> opened = [])"
  using assms
proof (induction k arbitrary: cnt new h a)
  case (Suc k)
  show ?case
  proof (cases "open_conn io config addr cnt a")
    case (Pair r a1)
    show ?thesis
    proof (cases r)
      case (Inl e)
      note o = open_conn_Inl [OF Pair [unfolded Inl]]
      have nd: "\<not> dial_ok io config addr (ar_dials a)"
        using Pair Inl by (auto simp: open_conn_cases split: if_splits)
      define h1 where "h1 = (if new = [] \<and> 1 < tc then set_state Recovering h else h)"
      have "create_conns io config addr tc k (cnt + 1) new h1 a1 = (cs, h', a')"
        using Suc.prems Pair Inl by (simp add: h1_def)
      from Suc.IH [OF this] obtain opened where R: "cs = new @ opened" "length opened \<le> k"
        "\<forall>c\<in>set opened. ar_next a1 \<le> c \<and> c < ar_next a' \<and> \<not> closed_at a' c"
        "ar_next a1 \<le> ar_next a'" "\<forall>c<ar_next a1. closed_at a' c = closed_at a1 c"
        "h' = h1 \<or> h' = set_state Recovering h1 \<and> new = [] \<and> 1 < tc"
        "(\<forall>n. \<not> dial_ok io config addr n) \<longrightarrow> opened = []" by blast
      moreover have "h' = h \<or> h' = set_state Recovering h \<and> new = [] \<and> 1 < tc"
        using R(6) by (auto simp: h1_def split: if_splits)
      ultimately show ?thesis using o nd by (intro exI [of _ opened]) auto
    next
      case (Inr c)
      note o = open_conn_Inr [OF Pair [unfolded Inr]]
      have d: "dial_ok io config addr (ar_dials a)"
        using Pair Inr by (auto simp: open_conn_cases split: if_splits)
      have "create_conns io config addr tc k (cnt + 1) (new @ [c]) h a1 = (cs, h', a')"
        using Suc.prems Pair Inr by simp
      from Suc.IH [OF this] obtain opened where R: "cs = (new @ [c]) @ opened" "length opened \<le> k"
        "\<forall>c\<in>set opened. ar_next a1 \<le> c \<and> c < ar_next a' \<and> \<not> closed_at a' c"
        "ar_next a1 \<le> ar_next a'" "\<forall>c<ar_next a1. closed_at a' c = closed_at a1 c"
        "h' = h"
        "(\<forall>n. dial_ok io config addr n) \<longrightarrow> length opened = k" by blast
      have "\<not> closed_at a' c" using R(5) o by simp
      with R o d show ?thesis by (intro exI [of _ "c # opened"]) auto
    qed
  qed
qed auto

text \<open>Storing a set that keeps every live connection closes none of them.\<close>

lemma store_connections_spec:
  assumes "store_connections new h a = (h', a')"
  shows "h' = h\<lparr>hp_connections := new\<rparr>" "ar_next a' = ar_next a"
    "closed_at a' c \<longleftrightarrow> closed_at a c \<or> c \<in> set (hp_connections h) \<and> c \<notin> set new"
  using assms by (auto simp: store_connections_def drop_replaced_def)

lemma hop_resolve_spec:
  assumes "hop_resolve io rs h a = (r, a')"
  shows "ar_next a' = ar_next a" "closed_at a' = closed_at a" "ar_dials a' = ar_dials a"
  using assms by (auto simp: hop_resolve_def Let_def split: prod.splits)

lemma try_reconnect_spec:
  assumes "try_reconnect io config addr h a = (ok, h', a')"
  shows "ok \<longleftrightarrow> dial_ok io config addr (ar_dials a)" "ar_next a \<le> ar_next a'"
    "\<not> ok \<Longrightarrow> h' = h \<and> closed_at a' = closed_at a"
    "ok \<Longrightarrow> h' = h\<lparr>hp_connections := [ar_next a]\<rparr> \<and> ar_next a' = Suc (ar_next a) \<and>
      \<not> closed_at a' (ar_next a)"
proof -
  obtain r a1 where o: "open_conn io config addr 999999 a = (r, a1)" by fastforce
  have r: "(case r of Inl _ \<Rightarrow> False | Inr _ \<Rightarrow> True) \<longleftrightarrow> dial_ok io config addr (ar_dials a)"
    using o by (auto simp: open_conn_cases split: if_splits)
  have A: "(ok \<longleftrightarrow> dial_ok io config addr (ar_dials a)) \<and> ar_next a \<le> ar_next a' \<and>
    (\<not> ok \<longrightarrow> h' = h \<and> closed_at a' = closed_at a) \<and>
    (ok \<longrightarrow> h' = h\<lparr>hp_connections := [ar_next a]\<rparr> \<and> ar_next a' = Suc (ar_next a) \<and>
      \<not> closed_at a' (ar_next a))"
  proof (cases r)
    case (Inl e)
    with assms o r open_conn_Inl [OF o [unfolded Inl]] show ?thesis by (auto simp: try_reconnect_def)
  next
    case (Inr c)
    note p = open_conn_Inr [OF o [unfolded Inr]]
    obtain h2 a2 where st: "store_connections [c] h a1 = (h2, a2)" by fastforce
    with assms o Inr have "ok" "h' = h2" "a' = a2" by (auto simp: try_reconnect_def)
    with store_connections_spec [OF st] p r Inr show ?thesis by auto
  qed
  show "ok \<longleftrightarrow> dial_ok io config addr (ar_dials a)" using A by simp
  show "ar_next a \<le> ar_next a'" using A by simp
  show "\<not> ok \<Longrightarrow> h' = h \<and> closed_at a' = closed_at a" using A by simp
  show "ok \<Longrightarrow> h' = h\<lparr>hp_connections := [ar_next a]\<rparr> \<and> ar_next a' = Suc (ar_next a) \<and>
      \<not> closed_at a' (ar_next a)" using A by simp
qed

end
