(* ===== verification/Hop_Lifecycle.thy ===== *)
theory Hop_Lifecycle
  imports Hop
begin

text \<open>
  What the maintenance task of \<open>src/hop.rs\<close> guarantees. The abstract view of a hop is its health
  state, whether an address is known, and how many of its connections are open. The step
  relation on views is the specification of a tick; \<open>maintenance_tick\<close> refines it.
\<close>

section \<open>Filling the connection set\<close>

definition hop_live :: "arena \<Rightarrow> hop \<Rightarrow> nat" where
  "hop_live a h = live_count (closed_at a) (hp_connections h)"

definition hop_target :: "config \<Rightarrow> nat" where
  "hop_target config = max (cfg_conn_per_hop config) 1"

text \<open>What filling the set may change, from a hop to its successor.\<close>

definition filled :: "config \<Rightarrow> hop \<Rightarrow> arena \<Rightarrow> hop \<Rightarrow> arena \<Rightarrow> bool" where
  "filled config h a h' a' \<longleftrightarrow> hop_ok a' h' \<and> hop_live a h \<le> hop_live a' h' \<and>
     hop_live a' h' \<le> max (hop_target config) (hop_live a h) \<and>
     (hp_address h \<noteq> None \<longrightarrow> hp_address h' = hp_address h) \<and>
     (state_of h' \<noteq> state_of h \<longrightarrow> hp_address h' \<noteq> None) \<and> hp_id h' = hp_id h \<and> hp_cancelled h' = hp_cancelled h \<and>
     (state_of h' = state_of h \<or>
      state_of h' = Recovering \<and> hop_live a h = 0 \<and> 1 < hop_target config)"

lemma hop_live_cong:
  assumes "hp_connections h' = hp_connections h"
    and "\<forall>c\<in>set (hp_connections h). closed_at a' c = closed_at a c"
  shows "hop_live a' h' = hop_live a h"
proof -
  have "filter (\<lambda>c. \<not> closed_at a' c) (hp_connections h) =
      filter (\<lambda>c. \<not> closed_at a c) (hp_connections h)"
    using assms(2) by (intro filter_cong) auto
  then show ?thesis by (simp add: hop_live_def live_count_def assms(1))
qed

lemma fill_spec:
  assumes ok: "hop_ok a h" and less: "hop_live a h < hop_target config"
    and create: "create_conns io config addr (hop_target config - hop_live a h)
      (hop_target config - hop_live a h) 0 (filter (\<lambda>c. \<not> closed_at a c) (hp_connections h)) h a =
      (cs, h1, a1)"
    and store: "(if cs \<noteq> [] then store_connections cs h1 a1 else (h1, a1)) = (h', a')"
    and addr: "hp_address h = Some addr"
  shows "filled config h a h' a' \<and> hp_address h' = hp_address h \<and>
    ((\<forall>n. dial_ok io config addr n) \<longrightarrow>
       hop_live a' h' = hop_target config \<and> state_of h' = state_of h)"
proof -
  let ?kept = "filter (\<lambda>c. \<not> closed_at a c) (hp_connections h)"
  have kept: "length ?kept = hop_live a h" by (simp add: hop_live_def live_count_def)
  from create_conns_spec [OF create] obtain opened where o: "cs = ?kept @ opened"
    "length opened \<le> hop_target config - hop_live a h"
    "\<forall>c\<in>set opened. ar_next a \<le> c \<and> c < ar_next a1 \<and> \<not> closed_at a1 c" "ar_next a \<le> ar_next a1"
    "\<forall>c<ar_next a. closed_at a1 c = closed_at a c"
    "h1 = h \<or> h1 = set_state Recovering h \<and> ?kept = [] \<and> 1 < hop_target config - hop_live a h"
    "(\<forall>n. dial_ok io config addr n) \<longrightarrow> length opened = hop_target config - hop_live a h \<and> h1 = h"
    by blast
  have h1: "hp_connections h1 = hp_connections h" "hp_address h1 = hp_address h" "hp_id h1 = hp_id h"
    "hp_cancelled h1 = hp_cancelled h" "ahs_ok (hp_state h1)"
    "state_of h1 = state_of h \<or> state_of h1 = Recovering \<and> hop_live a h = 0 \<and> 1 < hop_target config"
    using o(6) ok kept by (auto simp: hop_ok_def)
  have main: "hop_live a' h' = hop_live a h + length opened \<and> hop_ok a' h' \<and>
      hp_address h' = hp_address h \<and> hp_id h' = hp_id h \<and> hp_cancelled h' = hp_cancelled h \<and>
      state_of h' = state_of h1"
  proof (cases "cs = []")
    case True
    then have e: "h' = h1" "a' = a1" "opened = []" using store o(1) by auto
    have "hop_live a1 h1 = hop_live a h"
      by (rule hop_live_cong [OF h1(1)]) (use ok o(5) in \<open>auto simp: hop_ok_def\<close>)
    moreover have "hop_ok a1 h1" using ok o(4) h1 by (auto simp: hop_ok_def)
    ultimately show ?thesis using e h1 by simp
  next
    case False
    then have "store_connections cs h1 a1 = (h', a')" using store by simp
    note s = store_connections_spec [OF this]
    have all: "\<not> closed_at a' c" if "c \<in> set cs" for c
      using that o(1,3,5) ok by (auto simp: s(3) hop_ok_def)
    have "hop_live a' h' = length cs"
      using all by (simp add: hop_live_def live_count_def s(1) filter_id_conv)
    moreover have "hop_ok a' h'" using o(1,3,4) ok h1(5) by (auto simp: hop_ok_def s)
    ultimately show ?thesis using s(1) h1 kept o(1) by simp
  qed
  show ?thesis using main h1(6) o(2,6,7) less addr by (auto simp: filled_def)
qed

lemma ensure_connections_spec:
  assumes ok: "hop_ok a h" and run: "ensure_connections io config rs h a = (h', a')"
  shows "filled config h a h' a'"
    and "hp_address h = Some addr \<Longrightarrow> \<forall>n. dial_ok io config addr n \<Longrightarrow>
      hop_live a' h' = max (hop_target config) (hop_live a h) \<and> state_of h' = state_of h"
proof -
  have same: "filled config h a h a" using ok by (simp add: filled_def)
  have A: "filled config h a h' a' \<and> (hp_address h = Some addr \<longrightarrow> (\<forall>n. dial_ok io config addr n) \<longrightarrow>
      hop_live a' h' = max (hop_target config) (hop_live a h) \<and> state_of h' = state_of h)"
  proof (cases "hop_live a h < hop_target config")
    case False
    then have "h' = h" "a' = a"
      using run by (simp_all add: ensure_connections_def hop_live_def hop_target_def Let_def)
    with same False show ?thesis by simp
  next
    case True
    note unf = ensure_connections_def Let_def
    have step: ?thesis if s: "hop_ok a0 h0" "hop_live a0 h0 = hop_live a h" "hp_id h0 = hp_id h"
      "hp_cancelled h0 = hp_cancelled h" "state_of h0 = state_of h"
      "hp_address h \<noteq> None \<Longrightarrow> hp_address h = Some addr0" "hp_address h0 = Some addr0"
      "create_conns io config addr0 (hop_target config - hop_live a0 h0)
        (hop_target config - hop_live a0 h0) 0 (filter (\<lambda>c. \<not> closed_at a0 c) (hp_connections h0)) h0 a0
        = (cs, h1, a1)"
      "(if cs \<noteq> [] then store_connections cs h1 a1 else (h1, a1)) = (h', a')" for addr0 h0 a0 cs h1 a1
      using fill_spec [OF s(1) _ s(8,9,7)] True s(2-7) by (auto simp: filled_def)
    show ?thesis
    proof (cases "hp_address h")
      case (Some ad)
      obtain cs h1 a1 where c: "create_conns io config ad (hop_target config - hop_live a h)
        (hop_target config - hop_live a h) 0 (filter (\<lambda>c. \<not> closed_at a c) (hp_connections h)) h a
        = (cs, h1, a1)" by (metis prod_cases3)
      have "(if cs \<noteq> [] then store_connections cs h1 a1 else (h1, a1)) = (h', a')"
        using run True Some c by (simp add: unf hop_live_def hop_target_def split: if_splits)
      from step [OF ok _ _ _ _ _ _ c this] Some show ?thesis by simp
    next
      case None
      obtain r a2 where r: "hop_resolve io rs h a = (r, a2)" by fastforce
      note p = hop_resolve_spec [OF r]
      show ?thesis
      proof (cases r)
        case (Inl e)
        then have "h' = h" "a' = a2"
          using run True None r by (simp_all add: unf hop_live_def hop_target_def split: if_splits)
        with ok p None show ?thesis by (simp add: filled_def hop_ok_def hop_live_def)
      next
        case (Inr ad)
        let ?h = "h\<lparr>hp_address := Some ad\<rparr>"
        have ok2: "hop_ok a2 ?h" "hop_live a2 ?h = hop_live a h"
          using ok p by (simp_all add: hop_ok_def hop_live_def)
        obtain cs h1 a1 where c: "create_conns io config ad (hop_target config - hop_live a2 ?h)
          (hop_target config - hop_live a2 ?h) 0
          (filter (\<lambda>c. \<not> closed_at a2 c) (hp_connections ?h)) ?h a2 = (cs, h1, a1)"
          by (metis prod_cases3)
        have "(if cs \<noteq> [] then store_connections cs h1 a1 else (h1, a1)) = (h', a')"
          using run True None r Inr c p ok2(2)
          by (simp add: unf hop_live_def hop_target_def split: if_splits)
        from step [OF ok2 _ _ _ _ _ c this] None show ?thesis by simp
      qed
    qed
  qed
  show "filled config h a h' a'" using A by simp
  show "hp_address h = Some addr \<Longrightarrow> \<forall>n. dial_ok io config addr n \<Longrightarrow>
      hop_live a' h' = max (hop_target config) (hop_live a h) \<and> state_of h' = state_of h"
    using A by simp
qed

section \<open>The specification of a tick\<close>

type_synonym hop_view = "hop_state \<times> bool \<times> nat"

definition view :: "arena \<Rightarrow> hop \<Rightarrow> hop_view" where
  "view a h = (state_of h, hp_address h \<noteq> None, hop_live a h)"

text \<open>Ticks, with \<open>target\<close> connections wanted. An unavailable hop without an address stays.\<close>

inductive tick_step :: "nat \<Rightarrow> hop_view \<Rightarrow> hop_view \<Rightarrow> bool" for target where
  fill: "n \<le> n' \<Longrightarrow> n' \<le> max target n \<Longrightarrow> (k \<Longrightarrow> k') \<Longrightarrow>
    tick_step target (Healthy, k, n) (Healthy, k', n')"
| degrade: "1 < target \<Longrightarrow> n' \<le> target \<Longrightarrow> tick_step target (Healthy, k, 0) (Recovering, True, n')"
| reconnect: "tick_step target (Recovering, k, n) (Healthy, True, 1)"
| wait: "(k \<Longrightarrow> k') \<Longrightarrow> tick_step target (Recovering, k, n) (Recovering, k', n)"
| retry: "tick_step target (Unavailable, True, n) (Recovering, True, n)"
| stuck: "tick_step target (Unavailable, False, n) (Unavailable, False, n)"

inductive_cases tick_healthyE: "tick_step target (Healthy, k, n) v"
inductive_cases tick_recoveringE: "tick_step target (Recovering, k, n) v"
inductive_cases tick_unavailableE: "tick_step target (Unavailable, k, n) v"
inductive_simps tick_stuck_iff: "tick_step target (Unavailable, False, n) v"

text \<open>What else happens to a hop: a request has its address resolved, connections close.\<close>

inductive hop_step :: "nat \<Rightarrow> hop_view \<Rightarrow> hop_view \<Rightarrow> bool" for target where
  tick: "tick_step target v v' \<Longrightarrow> hop_step target v v'"
| resolved: "hop_step target (s, False, n) (s, True, n)"
| unresolved: "hop_step target (s, False, n) (Unavailable, False, n)"
| closing: "n' \<le> n \<Longrightarrow> hop_step target (s, k, n) (s, k, n')"

inductive hop_reach :: "nat \<Rightarrow> hop_view \<Rightarrow> bool" for target where
  start: "hop_reach target (Healthy, False, 0)"
| step: "hop_reach target v \<Longrightarrow> hop_step target v v' \<Longrightarrow> hop_reach target v'"

text \<open>A hop never has more open connections than wanted, and it recovers towards an address.\<close>

lemma tick_step_inv:
  "tick_step target v v' \<Longrightarrow> 0 < target \<Longrightarrow> snd (snd v) \<le> target \<Longrightarrow> (fst v = Recovering \<Longrightarrow> fst (snd v)) \<Longrightarrow>
   snd (snd v') \<le> target \<and> (fst v' = Recovering \<longrightarrow> fst (snd v'))"
  by (induction rule: tick_step.induct) auto

lemma hop_reach_inv:
  "hop_reach target v \<Longrightarrow> 0 < target \<Longrightarrow>
   snd (snd v) \<le> target \<and> (fst v = Recovering \<longrightarrow> fst (snd v))"
proof (induction rule: hop_reach.induct)
  case (step v v')
  from step.hyps(2) step.IH [OF step.prems] step.prems show ?case
    by (cases rule: hop_step.cases) (auto dest: tick_step_inv)
qed simp

section \<open>The maintenance tick refines it\<close>

definition keeps_hop :: "hop \<Rightarrow> hop \<Rightarrow> bool" where
  "keeps_hop h h' \<longleftrightarrow> hp_id h' = hp_id h \<and> hp_cancelled h' = hp_cancelled h"

lemma reconnect_view:
  assumes ok: "hop_ok a h" and run: "try_reconnect io config addr h a = (b, h', a')"
  shows "b \<Longrightarrow> hop_ok a' (set_state Healthy h') \<and> hop_live a' (set_state Healthy h') = 1 \<and>
      hp_address h' = hp_address h \<and> keeps_hop h h'"
    and "\<not> b \<Longrightarrow> h' = h \<and> closed_at a' = closed_at a \<and> hop_ok a' h \<and> hop_live a' h = hop_live a h"
  using try_reconnect_spec [OF run] ok
  by (auto simp: hop_ok_def hop_live_def live_count_def keeps_hop_def intro: less_le_trans)

text \<open>The two ways a recovering hop connects: known address, or a new one from the resolver.\<close>

lemma resolve_reconnect_view:
  assumes ok: "hop_ok a h"
    and run: "(case hop_resolve io rs h a of
        (Inr addr, a) \<Rightarrow>
          (let h = h\<lparr>hp_address := Some addr\<rparr>;
               (ok, h, a) = try_reconnect io config addr h a
           in if ok then (set_state Healthy h, a) else (h, a))
      | (Inl e, a) \<Rightarrow> (h, a)) = (h', a')"
  shows "hop_ok a' h' \<and> keeps_hop h h' \<and> (hp_address h \<noteq> None \<longrightarrow> hp_address h' \<noteq> None) \<and>
    (state_of h' = Healthy \<and> hop_live a' h' = 1 \<and> hp_address h' \<noteq> None \<or>
     state_of h' = state_of h \<and> hop_live a' h' = hop_live a h)"
proof -
  obtain r a1 where r: "hop_resolve io rs h a = (r, a1)" by fastforce
  note p = hop_resolve_spec [OF r]
  have ok1: "hop_ok a1 h" "hop_live a1 h = hop_live a h" using ok p by (simp_all add: hop_ok_def hop_live_def)
  show ?thesis
  proof (cases r)
    case (Inl e)
    with run r ok1 show ?thesis by (auto simp: keeps_hop_def)
  next
    case (Inr addr)
    let ?h = "h\<lparr>hp_address := Some addr\<rparr>"
    obtain b h2 a2 where t: "try_reconnect io config addr ?h a1 = (b, h2, a2)" by (metis prod_cases3)
    have e: "h' = (if b then set_state Healthy h2 else h2)" "a' = a2"
      using run r Inr t by (auto simp: Let_def split: if_splits)
    have okh: "hop_ok a1 ?h" "hop_live a1 ?h = hop_live a h"
      using ok1 by (simp_all add: hop_ok_def hop_live_def)
    from reconnect_view [OF okh(1) t] e okh(2) show ?thesis by (cases b) (auto simp: keeps_hop_def)
  qed
qed

lemma maintenance_tick_refines:
  assumes ok: "hop_ok a h" and run: "maintenance_tick io config rs h a = (h', a')"
  shows "tick_step (hop_target config) (view a h) (view a' h') \<and> hop_ok a' h' \<and> keeps_hop h h'"
proof (cases "state_of h")
  case Healthy
  with run have e: "ensure_connections io config rs h a = (h', a')" by (simp add: maintenance_tick_def)
  note f = ensure_connections_spec(1) [OF ok e, unfolded filled_def]
  have "tick_step (hop_target config) (view a h) (view a' h')"
  proof (cases "state_of h' = state_of h")
    case True
    with f Healthy show ?thesis by (auto simp: view_def intro!: tick_step.fill)
  next
    case False
    with f Healthy have "hp_address h' \<noteq> None" "hop_live a h = 0" "state_of h' = Recovering" by auto
    with f Healthy False show ?thesis
      by (simp add: view_def tick_step.degrade del: not_None_eq)
  qed
  with f show ?thesis by (simp add: keeps_hop_def)
next
  case Unavailable
  with run ok show ?thesis
    by (auto simp: maintenance_tick_def view_def keeps_hop_def hop_ok_def hop_live_def
        intro!: tick_step.intros split: if_splits)
next
  case Recovering
  have fin: ?thesis if "hop_ok a' h'" "keeps_hop h h'" "hp_address h \<noteq> None \<longrightarrow> hp_address h' \<noteq> None"
    "state_of h' = Healthy \<and> hop_live a' h' = 1 \<and> hp_address h' \<noteq> None \<or>
     state_of h' = Recovering \<and> hop_live a' h' = hop_live a h"
    using that Recovering tick_step.reconnect [of "hop_target config"]
    by (auto simp: view_def intro!: tick_step.wait)
  show ?thesis
  proof (cases "hp_address h")
    case None
    with run Recovering resolve_reconnect_view [OF ok, where io = io and rs = rs and config = config and h' = h' and a' = a'] show ?thesis
      by (intro fin) (auto simp: maintenance_tick_def)
  next
    case (Some addr)
    obtain b h1 a1 where t: "try_reconnect io config addr h a = (b, h1, a1)" by (metis prod_cases3)
    note v = reconnect_view [OF ok t]
    show ?thesis
    proof (cases b)
      case True
      then have "h' = set_state Healthy h1" "a' = a1"
        using run Recovering Some t by (simp_all add: maintenance_tick_def)
      with v(1) True Some show ?thesis by (intro fin) (auto simp: keeps_hop_def)
    next
      case False
      with run Recovering Some t v(2) resolve_reconnect_view [where a = a1 and h = h and io = io and rs = rs and config = config
            and h' = h' and a' = a'] show ?thesis
        by (intro fin) (auto simp: maintenance_tick_def)
    qed
  qed
qed

lemma maintenance_loop_refines:
  assumes "hop_ok a h" and "maintenance_loop io config rs n h a = (h', a')"
  shows "(tick_step (hop_target config))\<^sup>*\<^sup>* (view a h) (view a' h') \<and> hop_ok a' h' \<and> keeps_hop h h'"
  using assms
proof (induction n arbitrary: h a)
  case (Suc n)
  show ?case
  proof (cases "hp_cancelled h")
    case False
    obtain h1 a1 where t: "maintenance_tick io config rs h a = (h1, a1)" by fastforce
    note R = maintenance_tick_refines [OF Suc.prems(1) t]
    from Suc.prems(2) False t have "maintenance_loop io config rs n h1 a1 = (h', a')" by simp
    from Suc.IH [OF _ this] R show ?thesis
      by (auto simp: keeps_hop_def intro: converse_rtranclp_into_rtranclp)
  qed (use Suc.prems in \<open>simp add: keeps_hop_def\<close>)
qed (simp add: keeps_hop_def)

text \<open>The other operations refine the other steps.\<close>

lemma resolve_address_refines:
  assumes ok: "hop_ok a h" and run: "resolve_address io rs h a = (r, h', a')"
  shows "(view a' h' = view a h \<or> hop_step target (view a h) (view a' h')) \<and> hop_ok a' h' \<and>
    keeps_hop h h' \<and> (r = None \<longrightarrow> state_of h' = Unavailable) \<and> r = hp_address h'"
proof (cases "hp_address h")
  case (Some addr)
  with ok run show ?thesis by (auto simp: resolve_address_def keeps_hop_def)
next
  case None
  obtain x a1 where x: "hop_resolve io rs h a = (x, a1)" by fastforce
  note p = hop_resolve_spec [OF x]
  show ?thesis
  proof (cases x)
    case (Inl e)
    with run None x have e: "r = None" "h' = set_state Unavailable h" "a' = a1"
      by (simp_all add: resolve_address_def ensure_address_def)
    have "hop_step target (view a h) (view a' h')"
      using hop_step.unresolved [of target "state_of h" "hop_live a h"] None p
      by (simp add: view_def e hop_live_def)
    with e ok p None show ?thesis by (auto simp: hop_ok_def keeps_hop_def)
  next
    case (Inr addr)
    with run None x have e: "r = Some addr" "h' = h\<lparr>hp_address := Some addr\<rparr>" "a' = a1"
      by (auto simp: resolve_address_def ensure_address_def)
    have "hop_step target (view a h) (view a' h')"
      using hop_step.resolved [of target "state_of h" "hop_live a h"] None p
      by (simp add: view_def e hop_live_def)
    with e ok p show ?thesis by (auto simp: hop_ok_def keeps_hop_def)
  qed
qed

lemma live_count_mono:
  "(\<And>c. closed c \<Longrightarrow> closed' c) \<Longrightarrow> live_count closed' cs \<le> live_count closed cs"
  by (induction cs) (auto simp: live_count_def le_SucI)

lemma close_at_refines:
  "hop_step target (view a h) (view (close_at c a) h)"
  by (auto simp: view_def hop_live_def intro!: hop_step.closing live_count_mono)

lemma view_new: "view a (hop_new i) = (Healthy, False, 0)"
  by (simp add: view_def hop_new_def hop_live_def live_count_def)

section \<open>Consequences\<close>

text \<open>Recovery: with an address that answers, three ticks give a healthy hop with all connections.\<close>

lemma tick_unavailable:
  "state_of h = Unavailable \<Longrightarrow> maintenance_tick io config rs h a =
     (if hp_address h \<noteq> None then (set_state Recovering h, a) else (h, a))"
  by (simp add: maintenance_tick_def)

lemma tick_recovering:
  assumes "state_of h = Recovering" and "hp_address h = Some addr"
    and "dial_ok io config addr (ar_dials a)" and "hop_ok a h"
    and "maintenance_tick io config rs h a = (h', a')"
  shows "state_of h' = Healthy \<and> hp_address h' = Some addr \<and> hop_live a' h' = 1 \<and> hop_ok a' h' \<and>
    keeps_hop h h'"
proof -
  obtain b h1 a1 where t: "try_reconnect io config addr h a = (b, h1, a1)" by (metis prod_cases3)
  have b: "b" using try_reconnect_spec(1) [OF t] assms(3) by simp
  then have "h' = set_state Healthy h1" "a' = a1"
    using assms(1,2,5) t by (simp_all add: maintenance_tick_def)
  with reconnect_view(1) [OF assms(4) t b] assms(2) show ?thesis by (simp add: keeps_hop_def)
qed

lemma tick_healthy:
  assumes "state_of h = Healthy" and "hp_address h = Some addr" and "\<forall>n. dial_ok io config addr n"
    and "hop_ok a h" and "hop_live a h \<le> hop_target config"
    and "maintenance_tick io config rs h a = (h', a')"
  shows "state_of h' = Healthy \<and> hp_address h' = Some addr \<and> hop_live a' h' = hop_target config \<and>
    hop_ok a' h' \<and> keeps_hop h h'"
proof -
  have e: "ensure_connections io config rs h a = (h', a')"
    using assms(1,6) by (simp add: maintenance_tick_def)
  from ensure_connections_spec [OF assms(4) e] assms(1,2,3,5) show ?thesis
    by (simp add: filled_def keeps_hop_def)
qed

text \<open>Number of ticks a hop with an address still needs until it is healthy.\<close>

fun ticks_needed :: "hop_state \<Rightarrow> nat" where
  "ticks_needed Healthy = 1"
| "ticks_needed Recovering = 2"
| "ticks_needed Unavailable = 3"

lemma maintenance_recovers:
  assumes "hop_ok a h" and "hp_address h = Some addr" and "\<forall>n. dial_ok io config addr n"
    and "\<not> hp_cancelled h" and "hop_live a h \<le> hop_target config"
    and "ticks_needed (state_of h) \<le> ticks"
    and "maintenance_loop io config rs ticks h a = (h', a')"
  shows "state_of h' = Healthy \<and> hop_live a' h' = hop_target config"
  using assms
proof (induction ticks arbitrary: h a)
  case 0
  then show ?case by (cases "state_of h") auto
next
  case (Suc ticks)
  obtain h1 a1 where t: "maintenance_tick io config rs h a = (h1, a1)" by fastforce
  have l: "maintenance_loop io config rs ticks h1 a1 = (h', a')" using Suc.prems(4,7) t by simp
  show ?case
  proof (cases "state_of h")
    case Healthy
    note r = tick_healthy [OF Healthy Suc.prems(2,3,1,5) t]
    show ?thesis
    proof (cases ticks)
      case 0
      with l r show ?thesis by simp
    next
      case (Suc m)
      with r Suc.prems(4) show ?thesis
        by (intro Suc.IH [OF _ _ Suc.prems(3) _ _ _ l]) (auto simp: keeps_hop_def)
    qed
  next
    case Recovering
    have d: "dial_ok io config addr (ar_dials a)" using Suc.prems(3) by blast
    from tick_recovering [OF Recovering Suc.prems(2) d Suc.prems(1) t] Suc.prems(4,6) Recovering
    show ?thesis
      by (intro Suc.IH [OF _ _ Suc.prems(3) _ _ _ l]) (auto simp: keeps_hop_def hop_target_def)
  next
    case Unavailable
    with t Suc.prems have e: "h1 = set_state Recovering h" "a1 = a" by (auto simp: tick_unavailable)
    with Suc.prems Unavailable show ?thesis
      by (intro Suc.IH [OF _ _ Suc.prems(3) _ _ _ l]) (auto simp: hop_ok_def hop_live_def)
  qed
qed

text \<open>An unavailable hop without an address is left alone by its own maintenance, for ever.\<close>

lemma maintenance_stuck:
  assumes "state_of h = Unavailable" and "hp_address h = None"
  shows "maintenance_loop io config rs ticks h a = (h, a)"
  by (induction ticks) (simp_all add: tick_unavailable assms)

text \<open>
  With one connection per hop the state never leaves \<open>Healthy\<close>, so the recovery branch, which
  is the only one that asks for a new address, is never reached.
\<close>

lemma single_connection_stays:
  assumes "hop_ok a h" and "state_of h = Healthy" and "hp_address h = Some addr"
    and "cfg_conn_per_hop config \<le> 1" and "maintenance_loop io config rs ticks h a = (h', a')"
  shows "state_of h' = Healthy \<and> hp_address h' = Some addr"
  using assms
proof (induction ticks arbitrary: h a)
  case (Suc ticks)
  show ?case
  proof (cases "hp_cancelled h")
    case False
    obtain h1 a1 where t: "ensure_connections io config rs h a = (h1, a1)" by fastforce
    have "hop_target config = 1" using Suc.prems(4) by (simp add: hop_target_def)
    with ensure_connections_spec(1) [OF Suc.prems(1) t] Suc.prems(2,3)
    have "hop_ok a1 h1" "state_of h1 = Healthy" "hp_address h1 = Some addr" by (auto simp: filled_def)
    moreover have "maintenance_loop io config rs ticks h1 a1 = (h', a')"
      using Suc.prems(2,5) False t by (simp add: maintenance_tick_def)
    ultimately show ?thesis using Suc.IH Suc.prems(4) by blast
  qed (use Suc.prems in simp)
qed simp

text \<open>Shutting a hop down ends its maintenance and closes every connection it holds.\<close>

lemma shutdown_spec:
  assumes "shutdown h a = (h', a')"
  shows "hp_cancelled h'" "hop_live a' h' = 0" "maintenance_loop io config rs n h' a' = (h', a')"
    "closed_at a' c \<longleftrightarrow> closed_at a c \<or> c \<in> set (hp_connections h)"
proof -
  from assms have e: "h' = h\<lparr>hp_cancelled := True\<rparr>" "a' = close_all (hp_connections h) a"
    by (auto simp: shutdown_def)
  show "hp_cancelled h'" by (simp add: e)
  show "hop_live a' h' = 0" by (simp add: e hop_live_def live_count_0)
  show "maintenance_loop io config rs n h' a' = (h', a')" by (cases n) (simp_all add: e)
  show "closed_at a' c \<longleftrightarrow> closed_at a c \<or> c \<in> set (hp_connections h)" by (auto simp: e)
qed

text \<open>A hop with an open connection serves a request with one, in the order of its cursor.\<close>

lemma next_connection_live:
  assumes "next_connection a h = (Some c, h')"
  shows "c \<in> set (hp_connections h) \<and> \<not> closed_at a c"
  using assms by (auto simp: next_connection_def dest: pick_sound)

lemma next_connection_None:
  assumes "unat (hp_rr h) + length (hp_connections h) \<le> 2 ^ 64"
  shows "fst (next_connection a h) = None \<longleftrightarrow> hop_live a h = 0"
  by (simp add: next_connection_def pick_complete [OF assms] hop_live_def live_count_0)

end
