(* ===== verification/Hop_Local.thy ===== *)
theory Hop_Local
  imports Hop_Lifecycle
begin

text \<open>
  The operations of \<open>src/hop.rs\<close> are local: they touch the connections of their own hop and new
  ones only, and the only thing they do to an existing connection is to close it. This is what
  lets hops, their maintenance tasks and requests share one arena.
\<close>

definition arena_ok :: "arena \<Rightarrow> bool" where
  "arena_ok a \<longleftrightarrow> (\<forall>c<ar_next a. conn_ok (ar_conns a c))"

text \<open>What an operation of a hop that holds the connections \<open>own\<close> may do to the arena.\<close>

definition local_step :: "nat set \<Rightarrow> arena \<Rightarrow> arena \<Rightarrow> bool" where
  "local_step own a a' \<longleftrightarrow> ar_next a \<le> ar_next a' \<and> (arena_ok a \<longrightarrow> arena_ok a') \<and>
     (\<forall>c<ar_next a. ar_conns a' c = ar_conns a c \<or> c \<in> own \<and> ar_conns a' c = close (ar_conns a c))"

definition local_op :: "hop \<Rightarrow> arena \<Rightarrow> hop \<Rightarrow> arena \<Rightarrow> bool" where
  "local_op h a h' a' \<longleftrightarrow> local_step (set (hp_connections h)) a a' \<and>
     set (hp_connections h') \<subseteq> set (hp_connections h) \<union> {ar_next a..<ar_next a'}"

lemma close_close [simp]: "close (close c) = close c"
  by (simp add: close_def)

lemma local_step_refl [simp]: "local_step own a a"
  by (simp add: local_step_def)

lemma local_step_trans:
  assumes "local_step own a b" and "local_step own' b c" and "own' \<subseteq> own \<union> {ar_next a..<ar_next b}"
  shows "local_step own a c"
proof -
  have "ar_conns c x = ar_conns a x \<or> x \<in> own \<and> ar_conns c x = close (ar_conns a x)"
    if x: "x < ar_next a" for x
  proof -
    have "x < ar_next b" using x assms(1) by (simp add: local_step_def)
    then have "ar_conns c x = ar_conns b x \<or> x \<in> own' \<and> ar_conns c x = close (ar_conns b x)"
      using assms(2) by (simp add: local_step_def)
    moreover have "ar_conns b x = ar_conns a x \<or> x \<in> own \<and> ar_conns b x = close (ar_conns a x)"
      using assms(1) x by (simp add: local_step_def)
    moreover have "x \<in> own' \<Longrightarrow> x \<in> own" using assms(3) x by auto
    ultimately show ?thesis by auto
  qed
  with assms(1,2) show ?thesis by (auto simp: local_step_def)
qed

lemma local_op_refl [simp]: "local_op h a h a"
  by (simp add: local_op_def)

lemma local_op_trans:
  "local_op h a h1 a1 \<Longrightarrow> local_op h1 a1 h2 a2 \<Longrightarrow> local_op h a h2 a2"
proof -
  assume a: "local_op h a h1 a1" and b: "local_op h1 a1 h2 a2"
  then have "local_step (set (hp_connections h)) a a2"
    unfolding local_op_def by (blast intro: local_step_trans)
  moreover have "ar_next a \<le> ar_next a1" "ar_next a1 \<le> ar_next a2"
    using a b by (auto simp: local_op_def local_step_def)
  then have "set (hp_connections h2) \<subseteq> set (hp_connections h) \<union> {ar_next a..<ar_next a2}"
    using a b unfolding local_op_def by fastforce
  ultimately show ?thesis by (simp add: local_op_def)
qed

lemma local_op_hop:
  "hp_connections h1 = hp_connections h \<Longrightarrow> hp_connections h1' = hp_connections h' \<Longrightarrow>
   local_op h a h' a' \<Longrightarrow> local_op h1 a h1' a'"
  by (simp add: local_op_def)

lemma conn_ok_close: "conn_ok c \<Longrightarrow> conn_ok (close c)"
  by (simp add: conn_ok_closed)

lemma close_at_local: "c \<in> own \<Longrightarrow> local_step own a (close_at c a)"
  by (auto simp: local_step_def arena_ok_def close_at_def intro: conn_ok_closed)

lemma close_all_local: "set cs \<subseteq> own \<Longrightarrow> local_step own a (close_all cs a)"
proof (induction cs arbitrary: a)
  case (Cons c cs)
  then show ?case
    using local_step_trans [OF close_at_local [of c own a] Cons.IH [of "close_at c a"]] by simp
qed simp

lemma open_conn_local:
  assumes "open_conn io config addr i a = (r, a')"
  shows "local_step {} a a' \<and> (\<forall>c. r = Inr c \<longrightarrow> c = ar_next a \<and> ar_next a' = Suc (ar_next a))"
proof -
  have "conn_ok (projr (connect (\<lambda>_. None) addr (cfg_hop_tcp_port config) config i))"
    using conn_ok_connect [of "\<lambda>_. None" addr "cfg_hop_tcp_port config" config i]
    by (simp add: connect_def Let_def)
  with assms show ?thesis
    by (auto simp: open_conn_cases local_step_def arena_ok_def less_Suc_eq split: if_splits)
qed

lemma local_step_mono: "local_step own a a' \<Longrightarrow> own \<subseteq> own' \<Longrightarrow> local_step own' a a'"
  by (auto simp: local_step_def)

lemma hop_resolve_local: "hop_resolve io rs h a = (r, a') \<Longrightarrow> local_step own a a'"
  by (auto simp: hop_resolve_def Let_def local_step_def arena_ok_def split: prod.splits)

lemma create_conns_local:
  assumes "create_conns io config addr tc k cnt new h a = (cs, h', a')"
  shows "local_step {} a a' \<and> set cs \<subseteq> set new \<union> {ar_next a..<ar_next a'} \<and>
    hp_connections h' = hp_connections h"
  using assms
proof (induction k arbitrary: cnt new h a)
  case (Suc k)
  obtain r a1 where o: "open_conn io config addr cnt a = (r, a1)" by fastforce
  note L = open_conn_local [OF o]
  have fin: ?case if "create_conns io config addr tc k (cnt + 1) new1 h1 a1 = (cs, h', a')"
    "set new1 \<subseteq> set new \<union> {ar_next a..<ar_next a1}" "hp_connections h1 = hp_connections h" for new1 h1
  proof -
    note I = Suc.IH [OF that(1)]
    have "local_step {} a a'" using L I by (blast intro: local_step_trans)
    moreover have "ar_next a \<le> ar_next a1" "ar_next a1 \<le> ar_next a'"
      using L I by (auto simp: local_step_def)
    ultimately show ?thesis using I that(2,3) by fastforce
  qed
  show ?case
  proof (cases r)
    case (Inl e)
    with Suc.prems o show ?thesis
      by (intro fin [of new "if new = [] \<and> tc > 1 then set_state Recovering h else h"]) auto
  next
    case (Inr c)
    with Suc.prems o L show ?thesis by (intro fin) auto
  qed
qed simp

lemma store_connections_local:
  assumes "store_connections new h a = (h', a')"
    and "set new \<subseteq> set (hp_connections h) \<union> {ar_next a0..<ar_next a}"
    and "local_step (set (hp_connections h)) a0 a"
  shows "local_op h a0 h' a'"
proof -
  from assms(1) have e: "h' = h\<lparr>hp_connections := new\<rparr>"
    "a' = drop_replaced (hp_connections h) new a" by (auto simp: store_connections_def)
  have "local_step (set (hp_connections h)) a a'"
    by (auto simp: e drop_replaced_def intro: close_all_local)
  with assms(3) have "local_step (set (hp_connections h)) a0 a'" by (rule local_step_trans) simp
  with assms(2) show ?thesis by (auto simp: local_op_def e drop_replaced_def)
qed

lemma try_reconnect_local:
  assumes "try_reconnect io config addr h a = (b, h', a')"
  shows "local_op h a h' a'"
proof -
  obtain r a1 where o: "open_conn io config addr 999999 a = (r, a1)" by fastforce
  note L = open_conn_local [OF o]
  have L1: "local_step (set (hp_connections h)) a a1" using L local_step_mono by blast
  show ?thesis
  proof (cases r)
    case (Inl e)
    with assms o L1 show ?thesis by (auto simp: try_reconnect_def local_op_def)
  next
    case (Inr c)
    then have "store_connections [c] h a1 = (h', a')"
      using assms o by (auto simp: try_reconnect_def split: prod.splits)
    then show ?thesis using L L1 Inr by (intro store_connections_local) auto
  qed
qed

lemma ensure_connections_local:
  assumes "ensure_connections io config rs h a = (h', a')"
  shows "local_op h a h' a'"
proof -
  have fill: "local_op h0 a0 h' a'"
    if c: "create_conns io config addr n n 0 (filter (\<lambda>c. \<not> closed_at a0 c) (hp_connections h0)) h0 a0 =
        (cs, h1, a1)" and st: "(if cs \<noteq> [] then store_connections cs h1 a1 else (h1, a1)) = (h', a')"
    for addr n h0 a0 cs h1 a1
  proof -
    note C = create_conns_local [OF c]
    have L: "local_step (set (hp_connections h0)) a0 a1" using C local_step_mono by blast
    show ?thesis
    proof (cases "cs = []")
      case True
      with st L C show ?thesis by (simp add: local_op_def)
    next
      case False
      then have "store_connections cs h1 a1 = (h', a')" using st by simp
      then have "local_op h1 a0 h' a'" using C L by (intro store_connections_local) auto
      then show ?thesis using C local_op_hop [of h0 h1 h' h' a0] by simp
    qed
  qed
  show ?thesis
  proof (cases "live_count (closed_at a) (hp_connections h) < max (cfg_conn_per_hop config) 1")
    case False
    with assms show ?thesis by (simp add: ensure_connections_def Let_def)
  next
    case live: True
    show ?thesis
    proof (cases "hp_address h")
      case (Some addr)
      with assms live fill [of addr _ a h] show ?thesis
        by (auto simp: ensure_connections_def Let_def split: prod.splits)
    next
      case None
      obtain r a2 where r: "hop_resolve io rs h a = (r, a2)" by fastforce
      have L: "local_op h a h a2" using hop_resolve_local [OF r] by (simp add: local_op_def)
      show ?thesis
      proof (cases r)
        case (Inl e)
        with assms live None r L show ?thesis by (simp add: ensure_connections_def Let_def)
      next
        case (Inr addr)
        let ?h = "h\<lparr>hp_address := Some addr\<rparr>"
        have "local_op ?h a2 h' a'"
          using assms live None r Inr fill [of addr _ a2 ?h]
          by (auto simp: ensure_connections_def Let_def split: prod.splits)
        moreover have "local_op h a ?h a2" by (rule local_op_hop [OF _ _ L]) simp_all
        ultimately show ?thesis by (rule local_op_trans [rotated])
      qed
    qed
  qed
qed

lemma maintenance_tick_local:
  assumes run: "maintenance_tick io config rs h a = (h', a')"
  shows "local_op h a h' a'"
proof -
  have reconnect: "local_op h a h' a'"
    if t: "try_reconnect io config addr h0 a0 = (b, h1, a1)" and L: "local_op h a h0 a0"
      and e: "h' = (if b then set_state Healthy h1 else h1)" "a' = a1" for addr h0 a0 b h1 a1
  proof -
    have "local_op h a h1 a1" using L try_reconnect_local [OF t] by (rule local_op_trans)
    then show ?thesis using local_op_hop [where h = h and ?h1.0 = h and h' = h1 and h1' = h' and a = a and a' = a1] e
      by (simp split: if_splits)
  qed
  have resolve: "local_op h a h' a'"
    if e: "(case hop_resolve io rs h0 a0 of
        (Inr addr, a) \<Rightarrow>
          (let h = h0\<lparr>hp_address := Some addr\<rparr>;
               (ok, h, a) = try_reconnect io config addr h a
           in if ok then (set_state Healthy h, a) else (h, a))
      | (Inl e, a) \<Rightarrow> (h0, a)) = (h', a')" and L: "local_op h a h0 a0" for h0 a0
  proof -
    obtain r a2 where r: "hop_resolve io rs h0 a0 = (r, a2)" by fastforce
    have L2: "local_op h a h0 a2"
      using local_op_trans [OF L, of h0 a2] hop_resolve_local [OF r] by (simp add: local_op_def)
    show ?thesis
    proof (cases r)
      case (Inl e')
      with e r L2 show ?thesis by simp
    next
      case (Inr addr)
      let ?h = "h0\<lparr>hp_address := Some addr\<rparr>"
      obtain b h1 a1 where t: "try_reconnect io config addr ?h a2 = (b, h1, a1)" by (metis prod_cases3)
      have "local_op h a ?h a2" by (rule local_op_hop [OF _ _ L2]) simp_all
      from reconnect [OF t this] show ?thesis
        using e r Inr t by (auto simp: Let_def split: if_splits)
    qed
  qed
  show ?thesis
  proof (cases "state_of h")
    case Healthy
    with run show ?thesis by (auto simp: maintenance_tick_def intro: ensure_connections_local)
  next
    case Unavailable
    with run show ?thesis
      by (auto simp: maintenance_tick_def local_op_def split: if_splits)
  next
    case Recovering
    show ?thesis
    proof (cases "hp_address h")
      case None
      with run Recovering show ?thesis by (intro resolve [of h a]) (auto simp: maintenance_tick_def)
    next
      case (Some addr)
      obtain b h1 a1 where t: "try_reconnect io config addr h a = (b, h1, a1)" by (metis prod_cases3)
      show ?thesis
      proof (cases b)
        case True
        with run Recovering Some t show ?thesis
          by (intro reconnect [OF t]) (auto simp: maintenance_tick_def)
      next
        case False
        with run Recovering Some t show ?thesis
          by (intro resolve [of h1 a1]) (auto simp: maintenance_tick_def intro: try_reconnect_local)
      qed
    qed
  qed
qed

lemma resolve_address_local:
  assumes "resolve_address io rs h a = (r, h', a')"
  shows "local_op h a h' a'"
proof (cases "hp_address h")
  case (Some addr)
  with assms show ?thesis by (simp add: resolve_address_def)
next
  case None
  obtain x a1 where x: "hop_resolve io rs h a = (x, a1)" by fastforce
  have L: "local_op h a h a1" using hop_resolve_local [OF x] by (simp add: local_op_def)
  have "a' = a1" "hp_connections h' = hp_connections h"
    using assms None x by (auto simp: resolve_address_def ensure_address_def split: sum.splits)
  with local_op_hop [OF refl _ L, of h'] show ?thesis by simp
qed

lemma shutdown_local: "shutdown h a = (h', a') \<Longrightarrow> local_op h a h' a'"
  by (auto simp: shutdown_def local_op_def intro: close_all_local)

text \<open>The facts about one operation that the users of a hop need.\<close>

lemmas hop_local_ops = maintenance_tick_local resolve_address_local shutdown_local

end
