(* ===== verification/Hop_Task.thy ===== *)
theory Hop_Task
  imports Hop_Local
begin

text \<open>
  The maintenance task of \<open>src/hop.rs\<close>, cut at its awaits. Between two awaits the task runs
  without interruption; at an await (the next tick of the timer, a resolution, a connection
  attempt) any other task may run. A program point carries the local variables that are live
  there. Uninterrupted, the steps compute \<open>maintenance_tick\<close> of the theory \<open>Hop\<close>.
\<close>

section \<open>Program points and steps\<close>

text \<open>
  \<open>M_Resolve\<close> and \<open>M_Dial\<close> are the awaits of \<open>ensure_connections\<close>, the last three those of the
  branch for a recovering hop: the first \<open>try_reconnect\<close>, the resolver, the second one.
\<close>

datatype maint =
    M_Idle
  | M_Stopped
  | M_Resolve "nat list" nat
  | M_Dial string nat nat u64 "nat list"
  | M_Reconnect string
  | M_Lookup
  | M_Redial string

text \<open>Connections a program point holds besides those of the hop.\<close>

fun task_conns :: "maint \<Rightarrow> nat list" where
  "task_conns (M_Resolve set0 live) = set0"
| "task_conns (M_Dial addr to_create left conn_counter new_conns) = new_conns"
| "task_conns _ = []"

type_synonym maint_result = "maint \<times> hop \<times> arena \<times> nat list"

text \<open>
  Storing a new set releases the connections of the old one that it does not hold; they close
  when the last request that uses them has let go of them.
\<close>

definition replace_connections :: "nat list \<Rightarrow> hop \<Rightarrow> hop \<times> nat list" where
  "replace_connections new h =
     (h\<lparr>hp_connections := new\<rparr>, filter (\<lambda>c. c \<notin> set new) (hp_connections h))"

definition begin_dial :: "nat \<Rightarrow> nat \<Rightarrow> nat list \<Rightarrow> string \<Rightarrow> arena \<Rightarrow> maint" where
  "begin_dial target live set0 addr a =
     (let to_create = target - live; new_conns = filter (\<lambda>c. \<not> closed_at a c) set0
      in M_Dial addr to_create to_create 0 new_conns)"

text \<open>A tick up to its first await, if it has one.\<close>

definition begin_tick :: "config \<Rightarrow> hop \<Rightarrow> arena \<Rightarrow> maint_result" where
  "begin_tick config h a =
     (case state_of h of
        Healthy \<Rightarrow>
          (let target = max (cfg_conn_per_hop config) 1;
               set0 = hp_connections h;
               live = live_count (closed_at a) set0
           in if live < target then
                (case hp_address h of
                   Some addr \<Rightarrow> (begin_dial target live set0 addr a, h, a, [])
                 | None \<Rightarrow> (M_Resolve set0 live, h, a, []))
              else (M_Idle, h, a, []))
      | Recovering \<Rightarrow>
          (case hp_address h of
             Some addr \<Rightarrow> (M_Reconnect addr, h, a, [])
           | None \<Rightarrow> (M_Lookup, h, a, []))
      | Unavailable \<Rightarrow>
          (M_Idle, if hp_address h \<noteq> None then set_state Recovering h else h, a, []))"

text \<open>The end of an iteration of the loop of \<open>ensure_connections\<close>.\<close>

definition next_dial :: "string \<Rightarrow> nat \<Rightarrow> nat \<Rightarrow> u64 \<Rightarrow> nat list \<Rightarrow> hop \<Rightarrow> arena \<Rightarrow> maint_result" where
  "next_dial addr to_create left conn_counter new_conns h a =
     (if left = 0 then
        (if new_conns \<noteq> [] then (case replace_connections new_conns h of (h, released) \<Rightarrow> (M_Idle, h, a, released))
         else (M_Idle, h, a, []))
      else (M_Dial addr to_create left conn_counter new_conns, h, a, []))"

text \<open>
  \<open>try_reconnect\<close> when its connection attempt returns: the new set and the state, or the point
  to go on from.
\<close>

definition end_reconnect :: "io \<Rightarrow> config \<Rightarrow> string \<Rightarrow> maint \<Rightarrow> hop \<Rightarrow> arena \<Rightarrow> maint_result" where
  "end_reconnect io config addr failed h a =
     (case open_conn io config addr 999999 a of
        (Inr conn, a) \<Rightarrow>
          (case replace_connections [conn] h of (h, released) \<Rightarrow> (M_Idle, set_state Healthy h, a, released))
      | (Inl e, a) \<Rightarrow> (failed, h, a, []))"

text \<open>
  One step of the task. At the timer, \<open>stop\<close> says that the \<open>select!\<close> takes the branch of the
  token: with the token cancelled and a tick due, it takes either.
\<close>

fun maint_step :: "io \<Rightarrow> config \<Rightarrow> resolver \<Rightarrow> bool \<Rightarrow> maint \<Rightarrow> hop \<Rightarrow> arena \<Rightarrow> maint_result" where
  "maint_step io config rs stop M_Stopped h a = (M_Stopped, h, a, [])"
| "maint_step io config rs stop M_Idle h a =
     (if stop then (if hp_cancelled h then M_Stopped else M_Idle, h, a, []) else begin_tick config h a)"
| "maint_step io config rs stop (M_Resolve set0 live) h a =
     (case hop_resolve io rs h a of
        (Inr addr, a) \<Rightarrow>
          (begin_dial (max (cfg_conn_per_hop config) 1) live set0 addr a, h\<lparr>hp_address := Some addr\<rparr>, a, [])
      | (Inl e, a) \<Rightarrow> (M_Idle, h, a, []))"
| "maint_step io config rs stop (M_Dial addr to_create left conn_counter new_conns) h a =
     (case open_conn io config addr conn_counter a of
        (Inr conn, a) \<Rightarrow> next_dial addr to_create (left - 1) (conn_counter + 1) (new_conns @ [conn]) h a
      | (Inl e, a) \<Rightarrow> next_dial addr to_create (left - 1) (conn_counter + 1) new_conns
          (if new_conns = [] \<and> to_create > 1 then set_state Recovering h else h) a)"
| "maint_step io config rs stop (M_Reconnect addr) h a = end_reconnect io config addr M_Lookup h a"
| "maint_step io config rs stop M_Lookup h a =
     (case hop_resolve io rs h a of
        (Inr new_addr, a) \<Rightarrow> (M_Redial new_addr, h\<lparr>hp_address := Some new_addr\<rparr>, a, [])
      | (Inl e, a) \<Rightarrow> (M_Idle, h, a, []))"
| "maint_step io config rs stop (M_Redial addr) h a = end_reconnect io config addr M_Idle h a"

text \<open>The task alone, up to the end of the tick, with all it releases on the way.\<close>

fun maint_run :: "io \<Rightarrow> config \<Rightarrow> resolver \<Rightarrow> nat \<Rightarrow> maint_result \<Rightarrow> maint_result" where
  "maint_run io config rs 0 s = s"
| "maint_run io config rs (Suc n) (pc, h, a, released) =
     (if pc = M_Idle then (pc, h, a, released)
      else (case maint_step io config rs False pc h a of
        (pc, h, a, more_released) \<Rightarrow> maint_run io config rs n (pc, h, a, released @ more_released)))"

section \<open>Uninterrupted, the steps are a tick\<close>

lemma maint_run_idle [simp]: "maint_run io config rs n (M_Idle, s) = (M_Idle, s)"
  by (cases n; cases s) auto

lemma run_dial:
  assumes "create_conns io config addr tc (Suc k) cnt new h a = (cs, h1, a1)" and "Suc k \<le> n"
  shows "maint_run io config rs n (M_Dial addr tc (Suc k) cnt new, h, a, rel) =
    (M_Idle, if cs \<noteq> [] then h1\<lparr>hp_connections := cs\<rparr> else h1, a1,
     rel @ (if cs \<noteq> [] then filter (\<lambda>c. c \<notin> set cs) (hp_connections h1) else []))"
  using assms
proof (induction k arbitrary: n cnt new h a)
  case 0
  then obtain m where "n = Suc m" by (cases n) auto
  with 0 show ?case
    by (auto simp: next_dial_def replace_connections_def split: prod.splits sum.splits)
next
  case (Suc k)
  then obtain m where m: "n = Suc m" "Suc k \<le> m" by (cases n) auto
  obtain r a2 where o: "open_conn io config addr cnt a = (r, a2)" by fastforce
  show ?case
  proof (cases r)
    case (Inl e)
    with Suc.prems(1) o have "create_conns io config addr tc (Suc k) (cnt + 1) new
        (if new = [] \<and> tc > 1 then set_state Recovering h else h) a2 = (cs, h1, a1)" by simp
    from Suc.IH [OF this m(2)] show ?thesis using m o Inl by (simp add: next_dial_def)
  next
    case (Inr c)
    with Suc.prems(1) o have "create_conns io config addr tc (Suc k) (cnt + 1) (new @ [c]) h a2 = (cs, h1, a1)"
      by simp
    from Suc.IH [OF this m(2)] show ?thesis using m o Inr by (simp add: next_dial_def)
  qed
qed

lemma end_reconnect_try:
  "end_reconnect io config addr failed h a =
     (case open_conn io config addr 999999 a of
        (Inr c, a1) \<Rightarrow> (M_Idle, set_state Healthy (h\<lparr>hp_connections := [c]\<rparr>), a1, filter (\<lambda>x. x \<noteq> c) (hp_connections h))
      | (Inl e, a1) \<Rightarrow> (failed, h, a1, []))"
  by (auto simp: end_reconnect_def replace_connections_def split: prod.splits sum.splits)

lemma try_reconnect_open:
  "try_reconnect io config addr h a =
     (case open_conn io config addr 999999 a of
        (Inr c, a1) \<Rightarrow> (True, h\<lparr>hp_connections := [c]\<rparr>, close_all (filter (\<lambda>x. x \<noteq> c) (hp_connections h)) a1)
      | (Inl e, a1) \<Rightarrow> (False, h, a1))"
  by (auto simp: try_reconnect_def store_connections_def drop_replaced_def split: prod.splits sum.splits)

text \<open>The connections opened from the program points of \<open>ensure_connections\<close>.\<close>

lemma run_begin_dial:
  assumes live: "live < target" "target \<le> n"
    and create: "create_conns io config addr (target - live) (target - live) 0
      (filter (\<lambda>c. \<not> closed_at a c) set0) h a = (cs, h1, a1)"
    and set0: "set0 = hp_connections h"
  shows "\<exists>h' a0 rel. maint_run io config rs n (begin_dial target live set0 addr a, h, a, []) = (M_Idle, h', a0, rel) \<and>
    (if cs \<noteq> [] then store_connections cs h1 a1 else (h1, a1)) = (h', close_all rel a0)"
proof -
  obtain k where k: "target - live = Suc k" using live by (cases "target - live") auto
  have n: "Suc k \<le> n" using k live by simp
  show ?thesis
    using run_dial [OF create [unfolded k] n, of rs "[]"]
    by (auto simp: begin_dial_def k store_connections_def drop_replaced_def)
qed

lemma lookup_run:
  assumes "2 \<le> n"
  shows "\<exists>h' a0 rel. maint_run io config rs n (M_Lookup, h, a, []) = (M_Idle, h', a0, rel) \<and>
    (case hop_resolve io rs h a of
        (Inr addr, a) \<Rightarrow>
          (let h = h\<lparr>hp_address := Some addr\<rparr>;
               (ok, h, a) = try_reconnect io config addr h a
           in if ok then (set_state Healthy h, a) else (h, a))
      | (Inl e, a) \<Rightarrow> (h, a)) = (h', close_all rel a0)"
proof -
  obtain m where n: "n = Suc (Suc m)" using assms by (cases n; cases "n - 1") auto
  obtain r a1 where r: "hop_resolve io rs h a = (r, a1)" by fastforce
  show ?thesis
  proof (cases r)
    case (Inl e)
    with r show ?thesis by (simp add: n)
  next
    case (Inr addr)
    obtain q a2 where o: "open_conn io config addr 999999 a1 = (q, a2)" by fastforce
    show ?thesis using r Inr o
      by (cases q) (simp_all add: n end_reconnect_try try_reconnect_open Let_def)
  qed
qed

text \<open>
  A tick that nothing interrupts ends after at most as many awaits as connections are wanted,
  plus two, and does what \<open>maintenance_tick\<close> does; what it releases is closed at the end.
\<close>

lemma tick_alone:
  assumes "hop_target config + 2 \<le> n"
  shows "\<exists>h' a0 rel. maint_run io config rs n (maint_step io config rs False M_Idle h a) = (M_Idle, h', a0, rel) \<and>
    maintenance_tick io config rs h a = (h', close_all rel a0)"
proof -
  let ?t = "max (cfg_conn_per_hop config) 1"
  have t: "1 \<le> ?t" "?t + 2 \<le> n" using assms by (simp_all add: hop_target_def)
  show ?thesis
  proof (cases "state_of h")
    case Unavailable
    then show ?thesis by (simp add: begin_tick_def maintenance_tick_def)
  next
    case Recovering
    show ?thesis
    proof (cases "hp_address h")
      case None
      with Recovering t lookup_run [of n io config rs h a] show ?thesis
        by (simp add: begin_tick_def maintenance_tick_def)
    next
      case (Some addr)
      obtain m where n: "n = Suc m" "2 \<le> m" using t by (cases n) auto
      obtain q a1 where o: "open_conn io config addr 999999 a = (q, a1)" by fastforce
      show ?thesis
      proof (cases q)
        case (Inr c)
        with Recovering Some o show ?thesis
          by (simp add: n begin_tick_def maintenance_tick_def end_reconnect_try try_reconnect_open)
      next
        case (Inl e)
        with Recovering Some o lookup_run [OF n(2), of io config rs h a1] show ?thesis
          by (simp add: n begin_tick_def maintenance_tick_def end_reconnect_try try_reconnect_open)
      qed
    qed
  next
    case Healthy
    let ?live = "live_count (closed_at a) (hp_connections h)"
    show ?thesis
    proof (cases "?live < ?t")
      case False
      with Healthy show ?thesis
        by (simp add: begin_tick_def maintenance_tick_def ensure_connections_def Let_def)
    next
      case live: True
      have fill: "\<exists>h' a' rel. maint_run io config rs k (begin_dial ?t ?live (hp_connections h0) addr a0, h0, a0, []) =
          (M_Idle, h', a', rel) \<and>
          (let to_create = ?t - ?live; kept = filter (\<lambda>c. \<not> closed_at a0 c) (hp_connections h0);
               (new_conns, h, a) = create_conns io config addr to_create to_create 0 kept h0 a0
           in if new_conns \<noteq> [] then store_connections new_conns h a else (h, a)) = (h', close_all rel a')"
        if "?t \<le> k" for addr h0 a0 k
      proof -
        obtain cs h1 a1 where c: "create_conns io config addr (?t - ?live) (?t - ?live) 0
            (filter (\<lambda>c. \<not> closed_at a0 c) (hp_connections h0)) h0 a0 = (cs, h1, a1)"
          by (metis prod_cases3)
        from run_begin_dial [OF live that c refl, of rs] show ?thesis by (simp add: Let_def c del: One_nat_def)
      qed
      show ?thesis
      proof (cases "hp_address h")
        case (Some addr)
        from fill [where k = n and addr = addr and ?h0.0 = h and ?a0.0 = a] t live Healthy Some show ?thesis
          by (simp add: begin_tick_def maintenance_tick_def ensure_connections_def Let_def)
      next
        case None
        obtain m where n: "n = Suc m" "?t \<le> m" using t by (cases n) auto
        obtain r a1 where r: "hop_resolve io rs h a = (r, a1)" by fastforce
        show ?thesis
        proof (cases r)
          case (Inl e)
          with Healthy live None r show ?thesis
            by (simp add: n begin_tick_def maintenance_tick_def ensure_connections_def Let_def)
        next
          case (Inr addr)
          with fill [OF n(2), where addr = addr and ?h0.0 = "h\<lparr>hp_address := Some addr\<rparr>" and ?a0.0 = a1] Healthy live None r show ?thesis
            by (simp add: n begin_tick_def maintenance_tick_def ensure_connections_def Let_def)
        qed
      qed
    qed
  qed
qed

section \<open>Each step is local\<close>

text \<open>
  A step opens connections and stores sets; it closes none. What the hop and its task hold
  afterwards they held before, or it is new.
\<close>

definition held :: "hop \<Rightarrow> maint \<Rightarrow> nat set" where
  "held h pc = set (hp_connections h) \<union> set (task_conns pc)"

definition task_local :: "maint \<Rightarrow> hop \<Rightarrow> arena \<Rightarrow> maint_result \<Rightarrow> bool" where
  "task_local pc h a res \<longleftrightarrow> (case res of (pc', h', a', released) \<Rightarrow>
     local_step {} a a' \<and> held h' pc' \<subseteq> held h pc \<union> {ar_next a..<ar_next a'} \<and>
     set released \<subseteq> set (hp_connections h) \<and> keeps_hop h h' \<and>
     (ahs_ok (hp_state h) \<longrightarrow> ahs_ok (hp_state h')))"

lemma task_local_same: "held h' pc' \<subseteq> held h pc \<Longrightarrow> keeps_hop h h' \<Longrightarrow>
    (ahs_ok (hp_state h) \<longrightarrow> ahs_ok (hp_state h')) \<Longrightarrow> task_local pc h a (pc', h', a, [])"
  by (auto simp: task_local_def)

lemma local_step_next: "local_step own a a' \<Longrightarrow> ar_next a \<le> ar_next a'"
  by (simp add: local_step_def)

lemma end_reconnect_local:
  assumes "task_conns failed = []"
  shows "task_local pc h a (end_reconnect io config addr failed h a)"
proof -
  obtain r a1 where o: "open_conn io config addr 999999 a = (r, a1)" by fastforce
  note L = open_conn_local [OF o]
  show ?thesis
  proof (cases r)
    case (Inl e)
    with o L assms show ?thesis by (auto simp: end_reconnect_try task_local_def held_def keeps_hop_def)
  next
    case (Inr c)
    with L have "local_step {} a a1" "c = ar_next a" "ar_next a1 = Suc (ar_next a)" by simp_all
    with o Inr show ?thesis by (auto simp: end_reconnect_try task_local_def held_def keeps_hop_def)
  qed
qed

lemma next_dial_local:
  assumes "local_step {} a0 a" and "set new \<subseteq> held h0 pc \<union> {ar_next a0..<ar_next a}"
    and "hp_connections h = hp_connections h0" "keeps_hop h0 h" "ahs_ok (hp_state h0) \<longrightarrow> ahs_ok (hp_state h)"
  shows "task_local pc h0 a0 (next_dial addr tc left cnt new h a)"
  using assms
  by (auto simp: next_dial_def replace_connections_def task_local_def held_def keeps_hop_def)

lemma begin_tick_local: "task_local M_Idle h a (begin_tick config h a)"
  by (auto simp: begin_tick_def begin_dial_def held_def keeps_hop_def Let_def
      intro!: task_local_same split: hop_state.split option.split)

lemma maint_step_local: "task_local pc h a (maint_step io config rs stop pc h a)"
proof (cases pc)
  case (M_Dial addr tc left cnt new)
  obtain r a1 where o: "open_conn io config addr cnt a = (r, a1)" by fastforce
  note L = open_conn_local [OF o]
  have new: "set new \<subseteq> held h pc" by (simp add: held_def M_Dial)
  show ?thesis
  proof (cases r)
    case (Inl e)
    with L o new M_Dial show ?thesis
      by (auto intro!: next_dial_local simp: keeps_hop_def)
  next
    case (Inr c)
    with L o new M_Dial show ?thesis
      by (auto intro!: next_dial_local simp: keeps_hop_def)
  qed
next
  case (M_Resolve set0 live)
  obtain r a1 where r: "hop_resolve io rs h a = (r, a1)" by fastforce
  with hop_resolve_local [OF r, of "{}"] M_Resolve show ?thesis
    by (cases r) (auto simp: task_local_def held_def keeps_hop_def begin_dial_def Let_def)
next
  case M_Lookup
  obtain r a1 where r: "hop_resolve io rs h a = (r, a1)" by fastforce
  with hop_resolve_local [OF r, of "{}"] M_Lookup show ?thesis
    by (cases r) (auto simp: task_local_def held_def keeps_hop_def)
next
  case M_Idle
  then show ?thesis
    using begin_tick_local by (auto intro!: task_local_same simp: keeps_hop_def held_def)
next
  case M_Stopped
  then show ?thesis by (auto intro!: task_local_same simp: keeps_hop_def)
qed (simp_all add: end_reconnect_local)

text \<open>The task ends only at the timer, with the token cancelled.\<close>

lemma maint_step_stopped:
  assumes "maint_step io config rs stop pc h a = (M_Stopped, h', a', rel)"
  shows "pc = M_Stopped \<or> hp_cancelled h"
  using assms
  by (cases pc) (auto simp: begin_tick_def begin_dial_def next_dial_def end_reconnect_try
      replace_connections_def Let_def split: if_splits hop_state.splits option.splits prod.splits sum.splits)

section \<open>No step loses a connection\<close>

text \<open>
  What the hop and its task held before the step, and what the step opened, they hold after it,
  unless it is closed or among the released ones. The set a task has loaded before it resolves
  is still that of the hop.
\<close>

fun task_current :: "hop \<Rightarrow> maint \<Rightarrow> bool" where
  "task_current h (M_Resolve set0 live) \<longleftrightarrow> set set0 \<subseteq> set (hp_connections h)"
| "task_current h _ \<longleftrightarrow> True"

definition task_keeps :: "maint \<Rightarrow> hop \<Rightarrow> arena \<Rightarrow> maint_result \<Rightarrow> bool" where
  "task_keeps pc h a r \<longleftrightarrow> (case r of (pc', h', a', released) \<Rightarrow>
     (\<forall>c\<in>held h pc \<union> {ar_next a..<ar_next a'}. closed_at a' c \<or> c \<in> held h' pc' \<or> c \<in> set released) \<and>
     task_current h' pc')"

lemma open_conn_next: "open_conn io config addr i a = (Inl e, a') \<Longrightarrow> ar_next a' = ar_next a"
  by (auto simp: open_conn_def Let_def split: sum.splits)

lemma end_reconnect_keeps:
  assumes pc: "task_conns pc = []" and failed: "failed = M_Lookup \<or> failed = M_Idle"
  shows "task_keeps pc h a (end_reconnect io config addr failed h a)"
proof -
  obtain r a1 where o: "open_conn io config addr 999999 a = (r, a1)" by fastforce
  show ?thesis
  proof (cases r)
    case (Inl e)
    with o open_conn_next [of io config addr 999999 a e a1] pc failed show ?thesis
      by (auto simp: end_reconnect_try task_keeps_def held_def)
  next
    case (Inr c)
    with open_conn_local [OF o] have "c = ar_next a" "ar_next a1 = Suc (ar_next a)" by simp_all
    with o Inr pc show ?thesis by (auto simp: end_reconnect_try task_keeps_def held_def)
  qed
qed

lemma next_dial_keeps:
  assumes "held h0 pc \<union> {ar_next a0..<ar_next a} \<subseteq> set (hp_connections h) \<union> set new"
  shows "task_keeps pc h0 a0 (next_dial addr tc left cnt new h a)"
  using assms by (auto simp: next_dial_def replace_connections_def task_keeps_def held_def)

lemma begin_tick_keeps: "task_keeps M_Idle h a (begin_tick config h a)"
  by (auto simp: begin_tick_def begin_dial_def held_def task_keeps_def Let_def
      split: hop_state.split option.split)

lemma maint_step_keeps:
  assumes "task_current h pc"
  shows "task_keeps pc h a (maint_step io config rs stop pc h a)"
proof (cases pc)
  case (M_Dial addr tc left cnt new)
  obtain r a1 where o: "open_conn io config addr cnt a = (r, a1)" by fastforce
  show ?thesis
  proof (cases r)
    case (Inl e)
    with o open_conn_next [of io config addr cnt a e a1] M_Dial show ?thesis
      by (auto intro!: next_dial_keeps simp: held_def)
  next
    case (Inr c)
    with open_conn_local [OF o] have "c = ar_next a" "ar_next a1 = Suc (ar_next a)" by simp_all
    with o Inr M_Dial show ?thesis by (auto intro!: next_dial_keeps simp: held_def)
  qed
next
  case (M_Resolve set0 live)
  obtain r a1 where r: "hop_resolve io rs h a = (r, a1)" by fastforce
  with hop_resolve_spec [OF r] M_Resolve assms show ?thesis
    by (cases r) (auto simp: task_keeps_def held_def begin_dial_def Let_def)
next
  case M_Lookup
  obtain r a1 where r: "hop_resolve io rs h a = (r, a1)" by fastforce
  with hop_resolve_spec [OF r] M_Lookup show ?thesis
    by (cases r) (auto simp: task_keeps_def held_def)
next
  case M_Idle
  then show ?thesis using begin_tick_keeps by (auto simp: task_keeps_def held_def)
next
  case M_Stopped
  then show ?thesis by (simp add: task_keeps_def)
qed (simp_all add: end_reconnect_keeps)

section \<open>Bounds at every program point\<close>

text \<open>
  At an await of \<open>ensure_connections\<close>, the connections that are open or still to be tried are
  no more than wanted, and an address is known while connecting.
\<close>

fun point_ok :: "nat \<Rightarrow> arena \<Rightarrow> hop \<Rightarrow> maint \<Rightarrow> bool" where
  "point_ok target a h (M_Resolve set0 live) \<longleftrightarrow> live_count (closed_at a) set0 \<le> live \<and> live < target"
| "point_ok target a h (M_Dial addr to_create left conn_counter new_conns) \<longleftrightarrow>
     length new_conns + left \<le> target \<and> 0 < left \<and> hp_address h \<noteq> None"
| "point_ok target a h (M_Reconnect addr) \<longleftrightarrow> hp_address h \<noteq> None"
| "point_ok target a h (M_Redial addr) \<longleftrightarrow> hp_address h \<noteq> None"
| "point_ok target a h _ \<longleftrightarrow> True"

definition hop_bounded :: "nat \<Rightarrow> arena \<Rightarrow> hop \<Rightarrow> maint \<Rightarrow> bool" where
  "hop_bounded target a h pc \<longleftrightarrow> hop_live a h \<le> target \<and>
     (state_of h = Recovering \<longrightarrow> hp_address h \<noteq> None) \<and> point_ok target a h pc"

lemma live_count_length: "live_count closed cs \<le> length cs"
  by (simp add: live_count_def)

lemma hop_live_set_state [simp]: "hop_live a (set_state s h) = hop_live a h"
  by (simp add: hop_live_def)

lemma hop_live_address [simp]: "hop_live a (h\<lparr>hp_address := x\<rparr>) = hop_live a h"
  by (simp add: hop_live_def)

text \<open>The bounds only look at which connections are closed.\<close>

lemma hop_bounded_mono:
  assumes "hop_bounded target a h pc"
    and "\<forall>c\<in>held h pc. closed_at a c \<longrightarrow> closed_at a' c"
  shows "hop_bounded target a' h pc"
proof -
  have mono: "live_count (closed_at a') cs \<le> live_count (closed_at a) cs"
    if "\<forall>c\<in>set cs. closed_at a c \<longrightarrow> closed_at a' c" for cs
    using that by (induction cs) (auto simp: live_count_def le_SucI)
  have "hop_live a' h \<le> hop_live a h" using mono assms(2) by (simp add: hop_live_def held_def)
  moreover have "point_ok target a' h pc"
  proof (cases pc)
    case (M_Resolve set0 live)
    with mono [of set0] assms show ?thesis by (auto simp: hop_bounded_def held_def)
  qed (use assms(1) in \<open>auto simp: hop_bounded_def\<close>)
  ultimately show ?thesis using assms(1) by (simp add: hop_bounded_def)
qed

lemma local_step_open: "local_step {} a a' \<Longrightarrow> c < ar_next a \<Longrightarrow> closed_at a' c = closed_at a c"
  by (simp add: local_step_def closed_at_def)

lemma hop_live_local:
  assumes "hop_ok a h" and "local_step {} a a'"
  shows "hop_live a' h = hop_live a h"
  using assms by (intro hop_live_cong) (auto simp: hop_ok_def local_step_open)

lemma begin_dial_ok:
  assumes "live_count (closed_at a) set0 \<le> live" and "live < target" and "hp_address h \<noteq> None"
  shows "point_ok target a h (begin_dial target live set0 addr a)"
  using assms by (simp add: begin_dial_def live_count_def Let_def)

lemma next_dial_bounded:
  assumes "hop_live a h \<le> target" and "length new + left \<le> target" and "hp_address h \<noteq> None"
    and "next_dial addr tc left cnt new h a = (pc', h', a', rel)"
  shows "hop_bounded target a' h' pc'"
  using assms live_count_length [of "closed_at a" new]
  by (auto simp: next_dial_def replace_connections_def hop_bounded_def hop_live_def split: if_splits)

lemma end_reconnect_bounded:
  assumes ok: "hop_ok a h" and bd: "hop_live a h \<le> target" "state_of h = Recovering \<longrightarrow> hp_address h \<noteq> None"
    and "0 < target" and "point_ok target a h failed = True" and "failed = M_Idle \<or> failed = M_Lookup"
    and run: "end_reconnect io config addr failed h a = (pc', h', a', rel)"
  shows "hop_bounded target a' h' pc'"
proof -
  obtain r a1 where o: "open_conn io config addr 999999 a = (r, a1)" by fastforce
  have L: "local_step {} a a1" using open_conn_local [OF o] by simp
  show ?thesis
  proof (cases r)
    case (Inl e)
    with run o hop_live_local [OF ok L] bd assms(6) show ?thesis
      by (auto simp: end_reconnect_try hop_bounded_def)
  next
    case (Inr c)
    with run o assms(4) live_count_length [of "closed_at a1" "[c]"] show ?thesis
      by (auto simp: end_reconnect_try hop_bounded_def hop_live_def)
  qed
qed

lemma maint_step_bounded:
  assumes ok: "hop_ok a h" "\<forall>c\<in>set (task_conns pc). c < ar_next a"
    and bd: "hop_bounded (hop_target config) a h pc"
    and run: "maint_step io config rs stop pc h a = (pc', h', a', rel)"
  shows "hop_bounded (hop_target config) a' h' pc'"
proof -
  let ?t = "hop_target config"
  have t: "0 < ?t" "max (cfg_conn_per_hop config) 1 = ?t" by (simp_all add: hop_target_def)
  have B: "hop_live a h \<le> ?t" "state_of h = Recovering \<longrightarrow> hp_address h \<noteq> None" "point_ok ?t a h pc"
    using bd by (simp_all add: hop_bounded_def)
  show ?thesis
  proof (cases pc)
    case M_Idle
    show ?thesis
    proof (cases stop)
      case True
      with run M_Idle bd show ?thesis by (auto simp: hop_bounded_def split: if_splits)
    next
      case False
      then have r: "begin_tick config h a = (pc', h', a', rel)" using run M_Idle by simp
      show ?thesis
      proof (cases "state_of h")
        case Healthy
        let ?live = "live_count (closed_at a) (hp_connections h)"
        show ?thesis
        proof (cases "?live < ?t")
          case True
          have dial: "point_ok ?t a h (begin_dial ?t ?live (hp_connections h) addr a)"
            if "hp_address h = Some addr" for addr
            using True that by (intro begin_dial_ok) simp_all
          show ?thesis
            using r Healthy True B dial t(2)
            by (cases "hp_address h") (auto simp: begin_tick_def hop_bounded_def Let_def simp del: point_ok.simps(2))
        next
          case False
          with r Healthy B t(2) show ?thesis by (auto simp: begin_tick_def hop_bounded_def Let_def)
        qed
      qed (use r B in \<open>auto simp: begin_tick_def hop_bounded_def split: option.splits if_splits\<close>)
    qed
  next
    case M_Stopped
    with run bd show ?thesis by simp
  next
    case (M_Resolve set0 live)
    obtain r a1 where r: "hop_resolve io rs h a = (r, a1)" by fastforce
    note L = hop_live_local [OF ok(1) hop_resolve_local [OF r]]
    have "closed_at a1 = closed_at a" using hop_resolve_spec [OF r] by simp
    show ?thesis
    proof (cases r)
      case (Inl e)
      with run r M_Resolve B L show ?thesis by (auto simp: hop_bounded_def)
    next
      case (Inr addr)
      have "point_ok ?t a1 (h\<lparr>hp_address := Some addr\<rparr>) (begin_dial ?t live set0 addr a1)"
        using B(3) M_Resolve \<open>closed_at a1 = _\<close> by (intro begin_dial_ok) simp_all
      with run r Inr M_Resolve B L t(2) show ?thesis
        by (auto simp: hop_bounded_def simp del: point_ok.simps(2))
    qed
  next
    case (M_Dial addr tc left cnt new)
    obtain r a1 where o: "open_conn io config addr cnt a = (r, a1)" by fastforce
    have L: "hop_live a1 h = hop_live a h" using open_conn_local [OF o] by (intro hop_live_local [OF ok(1)]) simp
    have P: "length new + left \<le> ?t" "0 < left" "hp_address h \<noteq> None" using B(3) M_Dial by simp_all
    show ?thesis
    proof (cases r)
      case (Inl e)
      let ?h = "if new = [] \<and> tc > 1 then set_state Recovering h else h"
      have "next_dial addr tc (left - 1) (cnt + 1) new ?h a1 = (pc', h', a', rel)"
        using run M_Dial o Inl by simp
      with next_dial_bounded [of a1 ?h ?t new "left - 1"] B L P show ?thesis by auto
    next
      case (Inr c)
      with run M_Dial o have "next_dial addr tc (left - 1) (cnt + 1) (new @ [c]) h a1 = (pc', h', a', rel)" by simp
      with next_dial_bounded [of a1 h ?t "new @ [c]" "left - 1"] B L P show ?thesis by auto
    qed
  next
    case M_Lookup
    obtain r a1 where r: "hop_resolve io rs h a = (r, a1)" by fastforce
    note L = hop_live_local [OF ok(1) hop_resolve_local [OF r]]
    show ?thesis using run M_Lookup r B L by (cases r) (auto simp: hop_bounded_def)
  next
    case (M_Reconnect addr)
    with run B(3) show ?thesis
      by (intro end_reconnect_bounded [OF ok(1) B(1,2) t(1), of M_Lookup io config addr]) simp_all
  next
    case (M_Redial addr)
    with run B(3) show ?thesis
      by (intro end_reconnect_bounded [OF ok(1) B(1,2) t(1), of M_Idle io config addr]) simp_all
  qed
qed

section \<open>A resolution asked for by a request\<close>

text \<open>
  \<open>resolve_address\<close>, in two steps: the check whether an address is known, and what is stored
  when the resolver returns. The first component says whether the task has ended.
\<close>

definition resolve_step :: "io \<Rightarrow> resolver \<Rightarrow> bool \<Rightarrow> hop \<Rightarrow> arena \<Rightarrow> bool \<times> hop \<times> arena" where
  "resolve_step io rs waiting h a =
     (if \<not> waiting then (hp_address h \<noteq> None, h, a)
      else (case hop_resolve io rs h a of
        (Inr addr, a) \<Rightarrow> (True, h\<lparr>hp_address := Some addr\<rparr>, a)
      | (Inl e, a) \<Rightarrow> (True, set_state Unavailable h, a)))"

lemma resolve_alone:
  "snd (resolve_address io rs h a) =
     (case resolve_step io rs False h a of
        (done, h, a) \<Rightarrow> if done then (h, a) else snd (resolve_step io rs True h a))"
  by (auto simp: resolve_address_def ensure_address_def resolve_step_def
      split: option.split prod.split sum.split)

lemma resolve_step_local:
  assumes "resolve_step io rs waiting h a = (d, h', a')"
  shows "local_step {} a a' \<and> hp_connections h' = hp_connections h \<and> keeps_hop h h' \<and>
    (ahs_ok (hp_state h) \<longrightarrow> ahs_ok (hp_state h')) \<and> ar_conns a' = ar_conns a"
proof (cases waiting)
  case True
  obtain r a1 where r: "hop_resolve io rs h a = (r, a1)" by fastforce
  have "ar_conns a1 = ar_conns a" using r by (auto simp: hop_resolve_def Let_def split: prod.splits)
  with True assms r hop_resolve_local [OF r, of "{}"] show ?thesis
    by (cases r) (auto simp: resolve_step_def keeps_hop_def)
qed (use assms in \<open>simp add: resolve_step_def keeps_hop_def\<close>)

lemma resolve_step_bounded:
  assumes ok: "hop_ok a h" and bd: "hop_bounded target a h pc"
    and run: "resolve_step io rs waiting h a = (d, h', a')"
  shows "hop_bounded target a' h' pc"
proof -
  note L = resolve_step_local [OF run]
  have "closed_at a' = closed_at a" using L by (simp add: closed_at_def fun_eq_iff)
  then have live: "hop_live a' h' = hop_live a h" using L by (simp add: hop_live_def)
  have addr: "hp_address h \<noteq> None \<longrightarrow> hp_address h' \<noteq> None"
    and st: "state_of h' = Recovering \<longrightarrow> state_of h = Recovering"
    using run by (auto simp: resolve_step_def split: if_splits prod.splits sum.splits)
  have "point_ok target a' h' pc"
    using bd addr \<open>closed_at a' = _\<close> by (cases pc) (auto simp: hop_bounded_def)
  with bd live addr st show ?thesis by (auto simp: hop_bounded_def)
qed

text \<open>Shutting down closes the connections the hop has at that moment.\<close>

lemma shutdown_bounded:
  assumes "hop_bounded target a h pc" and "shutdown h a = (h', a')"
  shows "hop_bounded target a' h' pc"
proof -
  have "hop_bounded target a' h pc"
    using assms by (intro hop_bounded_mono [OF assms(1)]) (auto simp: shutdown_def)
  moreover have "hop_live a' h' = hop_live a' h" "state_of h' = state_of h" "hp_address h' = hp_address h"
    using assms(2) by (auto simp: shutdown_def hop_live_def)
  moreover have "point_ok target a' h' pc = point_ok target a' h pc"
    using calculation(4) by (cases pc) auto
  ultimately show ?thesis by (simp add: hop_bounded_def)
qed

text \<open>The last reference to a hop whose task has ended goes: its connections are released.\<close>

definition drop_hop :: "hop \<Rightarrow> hop \<times> nat list" where
  "drop_hop h = ((hop_drop h)\<lparr>hp_connections := []\<rparr>, hp_connections h)"

text \<open>
  A tick that a shutdown overtakes goes on: it dials, and stores an open connection in a hop that
  has been shut down. The connection is closed when the task has ended and the hop is dropped.
\<close>

lemma shutdown_overtaken:
  assumes "shutdown h a = (h1, a1)" and "open_conn io config addr cnt a1 = (Inr conn, a2)"
  shows "\<exists>h2 rel. maint_step io config rs stop (M_Dial addr tc 1 cnt []) h1 a1 = (M_Idle, h2, a2, rel) \<and>
    hp_cancelled h2 \<and> hop_live a2 h2 = 1"
proof -
  have "hp_cancelled h1" using assms(1) by (auto simp: shutdown_def)
  moreover have "\<not> closed_at a2 conn"
    using assms(2) by (auto simp: open_conn_cases closed_at_def is_closed_def connect_def Let_def split: if_splits)
  ultimately show ?thesis
    using assms(2) by (simp add: next_dial_def replace_connections_def hop_live_def live_count_def)
qed

end
