(* ===== verification/Hop_Manager.thy ===== *)
theory Hop_Manager
  imports Hop_Task
begin

text \<open>
  The hop registry of \<open>src/hop_manager.rs\<close>, with the hops, their connections and the background
  tasks it starts: the maintenance task of every hop, the shutdown tasks of retired hops and
  the resolve tasks of requests; each of these tasks is cut at its awaits. A handle of a hop
  stands for an \<open>Arc<Hop>\<close>. The registry is
  written by one task only (the synchronisation with rzid), so its operations are sequential.
  The contract of the registry is the locale \<open>hop_registry\<close>.
\<close>

section \<open>State and operations\<close>

text \<open>
  \<open>nt_tasks\<close> gives the program point of the maintenance task of each hop. An entry of
  \<open>nt_resolves\<close> says whether the task waits for the resolver. \<open>nt_released\<close> are connections that
  no set holds any more; each closes once the last request using it has dropped it.
\<close>

record net =
  nt_map :: "(string, nat) hmap"
  nt_hops :: "nat \<Rightarrow> hop"
  nt_next :: nat
  nt_arena :: arena
  nt_shutdowns :: "nat list"
  nt_resolves :: "(nat \<times> bool) list"
  nt_tasks :: "nat \<Rightarrow> maint"
  nt_released :: "nat list"

definition net_new :: net where
  "net_new = \<lparr>nt_map = [], nt_hops = (\<lambda>_. hop_new ''''), nt_next = 0,
     nt_arena = \<lparr>ar_conns = (\<lambda>_. projr (connect (\<lambda>_. None) '''' 0 (default_config '''' '''') 0)),
       ar_next = 0, ar_dials = 0, ar_https = 0\<rparr>,
     nt_shutdowns = [], nt_resolves = [], nt_tasks = (\<lambda>_. M_Idle), nt_released = []\<rparr>"

text \<open>The last branch is for a concurrent creation between the two loads of the map.\<close>

definition get_or_create :: "string \<Rightarrow> net \<Rightarrow> (nat \<times> net) run" where
  "get_or_create hop_id n =
     (case hm_get (nt_map n) hop_id of
        Some hop \<Rightarrow> Some (hop, n)
      | None \<Rightarrow>
          (let new_map = nt_map n in
           if hm_get new_map hop_id = None then
             (let hop = nt_next n in
              Some (hop, n\<lparr>nt_hops := (nt_hops n)(hop := hop_new hop_id), nt_next := Suc hop,
                nt_tasks := (nt_tasks n)(hop := M_Idle),
                nt_map := hm_insert hop_id hop new_map\<rparr>))
           else do { hop \<leftarrow> hm_get (nt_map n) hop_id; Some (hop, n) }))"

definition registry_get :: "net \<Rightarrow> string \<Rightarrow> nat option" where
  "registry_get n hop_id = hm_get (nt_map n) hop_id"

fun retire_loop :: "string list \<Rightarrow> (string, nat) hmap \<Rightarrow> nat list \<Rightarrow> (string, nat) hmap \<times> nat list" where
  "retire_loop [] new_map spawned = (new_map, spawned)"
| "retire_loop (i # to_retire) new_map spawned =
     (case hm_get new_map i of
        Some hop \<Rightarrow> retire_loop to_retire (hm_remove i new_map) (spawned @ [hop])
      | None \<Rightarrow> retire_loop to_retire new_map spawned)"

definition retire_unused :: "string list \<Rightarrow> net \<Rightarrow> net" where
  "retire_unused active_hop_ids n =
     (let to_retire = filter (\<lambda>i. i \<notin> set active_hop_ids) (hm_keys (nt_map n)) in
      if to_retire = [] then n
      else (let (new_map, spawned) = retire_loop to_retire (nt_map n) [] in
        n\<lparr>nt_map := new_map, nt_shutdowns := nt_shutdowns n @ spawned\<rparr>))"

definition get_all_ids :: "net \<Rightarrow> string list" where
  "get_all_ids n = hm_keys (nt_map n)"

definition registry_len :: "net \<Rightarrow> nat" where
  "registry_len n = length (nt_map n)"

definition registry_is_empty :: "net \<Rightarrow> bool" where
  "registry_is_empty n \<longleftrightarrow> nt_map n = []"

section \<open>Tasks\<close>

text \<open>An operation of one hop on the shared arena.\<close>

definition put_hop :: "nat \<Rightarrow> hop \<Rightarrow> arena \<Rightarrow> net \<Rightarrow> net" where
  "put_hop h hop a n = n\<lparr>nt_hops := (nt_hops n)(h := hop), nt_arena := a\<rparr>"

definition put_task :: "nat \<Rightarrow> maint \<Rightarrow> nat list \<Rightarrow> net \<Rightarrow> net" where
  "put_task h pc released n =
     n\<lparr>nt_tasks := (nt_tasks n)(h := pc), nt_released := nt_released n @ released\<rparr>"

text \<open>A step of the maintenance task of a hop.\<close>

definition net_maint :: "io \<Rightarrow> config \<Rightarrow> resolver \<Rightarrow> bool \<Rightarrow> nat \<Rightarrow> net \<Rightarrow> net" where
  "net_maint io config rs stop h n =
     (if h < nt_next n then
        (case maint_step io config rs stop (nt_tasks n h) (nt_hops n h) (nt_arena n) of
           (pc, hop, a, released) \<Rightarrow> put_task h pc released (put_hop h hop a n))
      else n)"

definition drop_at :: "nat \<Rightarrow> 'a list \<Rightarrow> 'a list" where
  "drop_at k xs = take k xs @ drop (Suc k) xs"

definition run_shutdown :: "nat \<Rightarrow> net \<Rightarrow> net" where
  "run_shutdown k n =
     (if k < length (nt_shutdowns n) then
        (let h = nt_shutdowns n ! k; (hop, a) = shutdown (nt_hops n h) (nt_arena n) in
         (put_hop h hop a n)\<lparr>nt_shutdowns := drop_at k (nt_shutdowns n)\<rparr>)
      else n)"

definition run_resolve :: "io \<Rightarrow> resolver \<Rightarrow> nat \<Rightarrow> net \<Rightarrow> net" where
  "run_resolve io rs k n =
     (if k < length (nt_resolves n) then
        (let (h, waiting) = nt_resolves n ! k;
             (ended, hop, a) = resolve_step io rs waiting (nt_hops n h) (nt_arena n) in
         (put_hop h hop a n)\<lparr>nt_resolves :=
           if ended then drop_at k (nt_resolves n) else (nt_resolves n)[k := (h, True)]\<rparr>)
      else n)"

text \<open>
  A hop is dropped when its maintenance task has ended and neither the registry nor a spawned
  task refers to it; a released connection is closed when the last request lets go of it. A
  request may hold a hop or a connection longer, so both happen at any later time.
\<close>

definition net_drop :: "nat \<Rightarrow> net \<Rightarrow> net" where
  "net_drop h n =
     (if h < nt_next n \<and> nt_tasks n h = M_Stopped \<and> h \<notin> snd ` set (nt_map n) \<and>
         h \<notin> set (nt_shutdowns n) \<and> h \<notin> fst ` set (nt_resolves n)
      then (case drop_hop (nt_hops n h) of
        (hop, released) \<Rightarrow> put_task h M_Stopped released (put_hop h hop (nt_arena n) n))
      else n)"

definition net_release :: "nat \<Rightarrow> net \<Rightarrow> net" where
  "net_release k n =
     (if k < length (nt_released n) then
        n\<lparr>nt_arena := close_at (nt_released n ! k) (nt_arena n), nt_released := drop_at k (nt_released n)\<rparr>
      else n)"

text \<open>A step of one connection.\<close>

definition set_conn :: "nat \<Rightarrow> conn \<Rightarrow> net \<Rightarrow> net" where
  "set_conn c conn n = n\<lparr>nt_arena := (nt_arena n)\<lparr>ar_conns := (ar_conns (nt_arena n))(c := conn)\<rparr>\<rparr>"

definition net_conn :: "nat \<Rightarrow> conn_event \<Rightarrow> net \<Rightarrow> net run" where
  "net_conn c e n =
     (if c < ar_next (nt_arena n)
      then do { conn \<leftarrow> conn_step e (ar_conns (nt_arena n) c); Some (set_conn c conn n) }
      else Some n)"

definition net_next_connection :: "nat \<Rightarrow> net \<Rightarrow> nat option \<times> net" where
  "net_next_connection h n =
     (let (c, hop) = next_connection (nt_arena n) (nt_hops n h) in
      (c, n\<lparr>nt_hops := (nt_hops n)(h := hop)\<rparr>))"

definition spawn_resolve :: "nat \<Rightarrow> net \<Rightarrow> net" where
  "spawn_resolve h n = n\<lparr>nt_resolves := nt_resolves n @ [(h, False)]\<rparr>"

section \<open>The contract of a registry\<close>

text \<open>
  A registry is a map from ids to handles: creating an id that is present changes nothing and
  gives its handle, creating a new one adds it, retiring restricts the map.
\<close>

locale hop_registry =
  fixes get :: "'s \<Rightarrow> string \<Rightarrow> 'h option"
    and create :: "string \<Rightarrow> 's \<Rightarrow> ('h \<times> 's) option"
    and retire :: "string list \<Rightarrow> 's \<Rightarrow> 's"
    and ids :: "'s \<Rightarrow> string list"
    and ok :: "'s \<Rightarrow> bool"
  assumes create_present: "ok s \<Longrightarrow> get s i = Some h \<Longrightarrow> create i s = Some (h, s)"
    and create_absent: "ok s \<Longrightarrow> get s i = None \<Longrightarrow>
      \<exists>h s'. create i s = Some (h, s') \<and> ok s' \<and> get s' = (get s)(i \<mapsto> h) \<and> h \<notin> ran (get s)"
    and retire_get: "ok s \<Longrightarrow> get (retire act s) i = (if i \<in> set act then get s i else None)"
    and retire_ok: "ok s \<Longrightarrow> ok (retire act s)"
    and ids_get: "ok s \<Longrightarrow> i \<in> set (ids s) \<longleftrightarrow> get s i \<noteq> None"
begin

fun create_all :: "string list \<Rightarrow> 's \<Rightarrow> 's option" where
  "create_all [] s = Some s"
| "create_all (i # is) s = (case create i s of None \<Rightarrow> None | Some (_, s') \<Rightarrow> create_all is s')"

lemma create_ok:
  assumes "ok s"
  shows "\<exists>h s'. create i s = Some (h, s') \<and> ok s' \<and> get s' i = Some h \<and>
    (\<forall>j. j \<noteq> i \<longrightarrow> get s' j = get s j) \<and> (\<forall>g. get s i = Some g \<longrightarrow> h = g)"
proof (cases "get s i")
  case None
  from create_absent [OF assms None] obtain h s' where
    "create i s = Some (h, s')" "ok s'" "get s' = (get s)(i \<mapsto> h)" by blast
  with None show ?thesis by simp
qed (use create_present [OF assms] assms in simp)

text \<open>Creating is total, makes every id available and keeps the handles there are.\<close>

lemma create_all_ok:
  "ok s \<Longrightarrow> \<exists>s'. create_all is s = Some s' \<and> ok s' \<and>
     (\<forall>j. get s' j = None \<longleftrightarrow> get s j = None \<and> j \<notin> set is) \<and>
     (\<forall>j h. get s j = Some h \<longrightarrow> get s' j = Some h)"
proof (induction "is" arbitrary: s)
  case (Cons i js)
  from create_ok [OF Cons.prems, of i] obtain h s1 where s1: "create i s = Some (h, s1)" "ok s1"
    "get s1 i = Some h" "\<forall>j. j \<noteq> i \<longrightarrow> get s1 j = get s j" "\<forall>g. get s i = Some g \<longrightarrow> h = g" by blast
  from Cons.IH [OF s1(2)] obtain s2 where s2: "create_all js s1 = Some s2" "ok s2"
    "\<forall>j. get s2 j = None \<longleftrightarrow> get s1 j = None \<and> j \<notin> set js"
    "\<forall>j h. get s1 j = Some h \<longrightarrow> get s2 j = Some h" by blast
  have "get s2 j = None \<longleftrightarrow> get s j = None \<and> j \<notin> set (i # js)" for j
    using s1(3,4) s2(3) by (cases "j = i") auto
  moreover have "get s2 j = Some g" if "get s j = Some g" for j g
    using that s1(3,4,5) s2(4) by (cases "j = i") auto
  moreover have "create_all (i # js) s = Some s2" using s1(1) s2(1) by simp
  ultimately show ?case using s2(2) by blast
qed simp

text \<open>
  A reconciliation, which creates what is needed and then retires the rest: exactly the hops
  wanted that were present or created remain, and the ones that were present keep their handle.
\<close>

lemma reconcile:
  assumes "ok s" and "create_all is s = Some s'"
  shows "set (ids (retire act s')) = set act \<inter> (set (ids s) \<union> set is)"
    and "i \<in> set act \<Longrightarrow> get s i = Some h \<Longrightarrow> get (retire act s') i = Some h"
proof -
  from create_all_ok [OF assms(1), of "is"] assms(2) have s': "ok s'"
    "\<And>j. get s' j = None \<longleftrightarrow> get s j = None \<and> j \<notin> set is"
    "\<And>j h. get s j = Some h \<Longrightarrow> get s' j = Some h" by auto
  show "set (ids (retire act s')) = set act \<inter> (set (ids s) \<union> set is)"
  proof (rule set_eqI)
    fix j
    have "j \<in> set (ids (retire act s')) \<longleftrightarrow> j \<in> set act \<and> get s' j \<noteq> None"
      using ids_get [OF retire_ok [OF s'(1), of act], of j] retire_get [OF s'(1), of act j] by simp
    then show "j \<in> set (ids (retire act s')) \<longleftrightarrow> j \<in> set act \<inter> (set (ids s) \<union> set is)"
      using s'(2) [of j] ids_get [OF assms(1), of j] by (simp del: not_None_eq)
  qed
  show "i \<in> set act \<Longrightarrow> get s i = Some h \<Longrightarrow> get (retire act s') i = Some h"
    by (simp add: retire_get s'(1) s'(3))
qed

lemma retire_twice:
  "ok s \<Longrightarrow> get (retire act (retire act s)) i = get (retire act s) i"
  by (simp add: retire_get retire_ok)

end

section \<open>Invariant\<close>

text \<open>
  The invariant of the network: registered handles are live hops with their own id that are
  not cancelled and are not waiting to be shut down; no two hops, together with the program
  points of their tasks, share a connection; all connections satisfy theirs. The maintenance
  task of a hop that is not cancelled has not ended.
\<close>

definition owned :: "net \<Rightarrow> nat \<Rightarrow> nat set" where
  "owned n h = held (nt_hops n h) (nt_tasks n h)"

definition net_ok :: "net \<Rightarrow> bool" where
  "net_ok n \<longleftrightarrow> hm_ok (nt_map n) \<and>
     (\<forall>i h. hm_get (nt_map n) i = Some h \<longrightarrow> h < nt_next n \<and> hp_id (nt_hops n h) = i \<and>
        \<not> hp_cancelled (nt_hops n h) \<and> h \<notin> set (nt_shutdowns n)) \<and>
     (\<forall>h<nt_next n. ahs_ok (hp_state (nt_hops n h)) \<and> (\<forall>c\<in>owned n h. c < ar_next (nt_arena n)) \<and>
        (nt_tasks n h = M_Stopped \<longrightarrow> hp_cancelled (nt_hops n h))) \<and>
     (\<forall>g<nt_next n. \<forall>h<nt_next n. g \<noteq> h \<longrightarrow> owned n g \<inter> owned n h = {}) \<and>
     arena_ok (nt_arena n) \<and>
     (\<forall>h\<in>set (nt_shutdowns n) \<union> fst ` set (nt_resolves n). h < nt_next n)"

lemma net_okD:
  assumes "net_ok n"
  shows "hm_ok (nt_map n)"
    and "hm_get (nt_map n) i = Some h \<Longrightarrow> h < nt_next n"
    and "hm_get (nt_map n) i = Some h \<Longrightarrow> hp_id (nt_hops n h) = i"
    and "hm_get (nt_map n) i = Some h \<Longrightarrow> \<not> hp_cancelled (nt_hops n h)"
    and "hm_get (nt_map n) i = Some h \<Longrightarrow> h \<notin> set (nt_shutdowns n)"
    and "h < nt_next n \<Longrightarrow> hop_ok (nt_arena n) (nt_hops n h)"
    and "g < nt_next n \<Longrightarrow> h < nt_next n \<Longrightarrow> g \<noteq> h \<Longrightarrow> owned n g \<inter> owned n h = {}"
    and "arena_ok (nt_arena n)"
    and "h \<in> set (nt_shutdowns n) \<Longrightarrow> h < nt_next n"
    and "(h, b) \<in> set (nt_resolves n) \<Longrightarrow> h < nt_next n"
    and "h < nt_next n \<Longrightarrow> c \<in> owned n h \<Longrightarrow> c < ar_next (nt_arena n)"
    and "h < nt_next n \<Longrightarrow> nt_tasks n h = M_Stopped \<Longrightarrow> hp_cancelled (nt_hops n h)"
    and "h < nt_next n \<Longrightarrow> ahs_ok (hp_state (nt_hops n h))"
proof -
  note N = assms [unfolded net_ok_def]
  have map: "\<forall>i h. hm_get (nt_map n) i = Some h \<longrightarrow> h < nt_next n \<and> hp_id (nt_hops n h) = i \<and>
      \<not> hp_cancelled (nt_hops n h) \<and> h \<notin> set (nt_shutdowns n)" using N by (elim conjE)
  have each: "\<forall>h<nt_next n. ahs_ok (hp_state (nt_hops n h)) \<and> (\<forall>c\<in>owned n h. c < ar_next (nt_arena n)) \<and>
      (nt_tasks n h = M_Stopped \<longrightarrow> hp_cancelled (nt_hops n h))" using N by (elim conjE)
  have disjoint: "\<forall>g<nt_next n. \<forall>h<nt_next n. g \<noteq> h \<longrightarrow> owned n g \<inter> owned n h = {}" using N by (elim conjE)
  have tasks: "\<forall>h\<in>set (nt_shutdowns n) \<union> fst ` set (nt_resolves n). h < nt_next n" using N by (elim conjE)
  show "hm_ok (nt_map n)" using N by (elim conjE)
  show "arena_ok (nt_arena n)" using N by (elim conjE)
  show "hm_get (nt_map n) i = Some h \<Longrightarrow> h < nt_next n" "hm_get (nt_map n) i = Some h \<Longrightarrow> hp_id (nt_hops n h) = i"
    "hm_get (nt_map n) i = Some h \<Longrightarrow> \<not> hp_cancelled (nt_hops n h)"
    "hm_get (nt_map n) i = Some h \<Longrightarrow> h \<notin> set (nt_shutdowns n)" using map by blast+
  show "h < nt_next n \<Longrightarrow> hop_ok (nt_arena n) (nt_hops n h)"
    using each by (simp add: hop_ok_def owned_def held_def)
  show "g < nt_next n \<Longrightarrow> h < nt_next n \<Longrightarrow> g \<noteq> h \<Longrightarrow> owned n g \<inter> owned n h = {}" using disjoint by blast
  show "h \<in> set (nt_shutdowns n) \<Longrightarrow> h < nt_next n" using tasks by blast
  show "(h, b) \<in> set (nt_resolves n) \<Longrightarrow> h < nt_next n" using tasks by force
  show "h < nt_next n \<Longrightarrow> c \<in> owned n h \<Longrightarrow> c < ar_next (nt_arena n)"
    "h < nt_next n \<Longrightarrow> nt_tasks n h = M_Stopped \<Longrightarrow> hp_cancelled (nt_hops n h)"
    "h < nt_next n \<Longrightarrow> ahs_ok (hp_state (nt_hops n h))" using each by blast+
qed

lemma owned_fields [simp]:
  "owned (n\<lparr>nt_arena := a\<rparr>) = owned n" "owned (n\<lparr>nt_released := rel\<rparr>) = owned n"
  "owned (n\<lparr>nt_shutdowns := sh\<rparr>) = owned n" "owned (n\<lparr>nt_resolves := rv\<rparr>) = owned n"
  by (simp_all add: owned_def fun_eq_iff)

lemma net_okI:
  assumes "hm_ok (nt_map n)" and "arena_ok (nt_arena n)"
    and "\<And>i h. hm_get (nt_map n) i = Some h \<Longrightarrow> h < nt_next n \<and> hp_id (nt_hops n h) = i \<and>
        \<not> hp_cancelled (nt_hops n h) \<and> h \<notin> set (nt_shutdowns n)"
    and "\<And>h. h < nt_next n \<Longrightarrow> ahs_ok (hp_state (nt_hops n h)) \<and>
        (\<forall>c\<in>owned n h. c < ar_next (nt_arena n)) \<and>
        (nt_tasks n h = M_Stopped \<longrightarrow> hp_cancelled (nt_hops n h))"
    and "\<And>g h. g < nt_next n \<Longrightarrow> h < nt_next n \<Longrightarrow> g \<noteq> h \<Longrightarrow> owned n g \<inter> owned n h = {}"
    and "\<And>h. h \<in> set (nt_shutdowns n) \<Longrightarrow> h < nt_next n"
    and "\<And>h b. (h, b) \<in> set (nt_resolves n) \<Longrightarrow> h < nt_next n"
  shows "net_ok n"
  using assms unfolding net_ok_def by (intro conjI allI impI ballI) (auto simp del: disjoint_iff)

lemma put_hop_fields [simp]:
  "nt_map (put_hop h hop a n) = nt_map n" "nt_next (put_hop h hop a n) = nt_next n"
  "nt_hops (put_hop h hop a n) = (nt_hops n)(h := hop)" "nt_arena (put_hop h hop a n) = a"
  "nt_shutdowns (put_hop h hop a n) = nt_shutdowns n"
  "nt_resolves (put_hop h hop a n) = nt_resolves n"
  "nt_tasks (put_hop h hop a n) = nt_tasks n" "nt_released (put_hop h hop a n) = nt_released n"
  by (simp_all add: put_hop_def)

lemma put_task_fields [simp]:
  "nt_map (put_task h pc rel n) = nt_map n" "nt_next (put_task h pc rel n) = nt_next n"
  "nt_hops (put_task h pc rel n) = nt_hops n" "nt_arena (put_task h pc rel n) = nt_arena n"
  "nt_shutdowns (put_task h pc rel n) = nt_shutdowns n"
  "nt_resolves (put_task h pc rel n) = nt_resolves n"
  "nt_tasks (put_task h pc rel n) = (nt_tasks n)(h := pc)"
  by (simp_all add: put_task_def)

lemma net_ok_new: "net_ok net_new"
  by (simp add: net_ok_def net_new_def arena_ok_def)

text \<open>
  A step of one hop and its task: local on the arena, and not on a registered hop if it cancels.
\<close>

lemma put_task_ok:
  assumes ok: "net_ok n" and h: "h < nt_next n" and loc: "local_step own (nt_arena n) a"
    and sub: "held hop pc \<subseteq> owned n h \<union> {ar_next (nt_arena n)..<ar_next a}"
    and hop: "ahs_ok (hp_state hop)" "hp_id hop = hp_id (nt_hops n h)"
    and canc: "hp_cancelled hop = hp_cancelled (nt_hops n h) \<or> h \<notin> ran (hm_get (nt_map n))"
    and stop: "pc = M_Stopped \<Longrightarrow> hp_cancelled hop"
  shows "net_ok (put_task h pc rel (put_hop h hop a n))" (is "net_ok ?n")
proof -
  note D = net_okD [OF ok]
  have le: "ar_next (nt_arena n) \<le> ar_next a" and aok: "arena_ok a"
    using loc D(8) by (auto simp: local_step_def)
  have owned: "owned ?n g = (if g = h then held hop pc else owned n g)" for g by (simp add: owned_def)
  have old: "c < ar_next (nt_arena n)" if "g < nt_next n" "c \<in> owned n g" for g c
    using D(11) [OF that] .
  have dis: "held hop pc \<inter> owned n g = {}" if "g < nt_next n" "g \<noteq> h" for g
    using D(7) [OF h that(1)] that(2) sub old [OF that(1)] by fastforce
  have range: "c < ar_next a" if "g < nt_next n" "c \<in> owned ?n g" for g c
    using that sub old [of g c] old [of h c] h le by (fastforce simp: owned split: if_splits)
  show ?thesis
  proof (rule net_okI)
    fix i g assume i: "hm_get (nt_map ?n) i = Some g"
    then have i': "hm_get (nt_map n) i = Some g" by simp
    then have "g = h \<Longrightarrow> hp_cancelled hop = hp_cancelled (nt_hops n h)" using canc by (auto simp: ran_def)
    with D(2-5) [OF i'] hop(2) show "g < nt_next ?n \<and> hp_id (nt_hops ?n g) = i \<and>
        \<not> hp_cancelled (nt_hops ?n g) \<and> g \<notin> set (nt_shutdowns ?n)" by auto
  next
    fix f g assume "f < nt_next ?n" "g < nt_next ?n" "f \<noteq> g"
    then show "owned ?n f \<inter> owned ?n g = {}"
      using D(7) [of f g] dis [of f] dis [of g] by (cases "f = h"; cases "g = h") (auto simp: owned)
  next
    fix g assume "g < nt_next ?n"
    then show "ahs_ok (hp_state (nt_hops ?n g)) \<and> (\<forall>c\<in>owned ?n g. c < ar_next (nt_arena ?n)) \<and>
        (nt_tasks ?n g = M_Stopped \<longrightarrow> hp_cancelled (nt_hops ?n g))"
      using range [of g] D(12,13) [of g] hop(1) stop by auto
  qed (use D(1,9,10) aok in auto)
qed

lemma put_task_same [simp]: "put_task h (nt_tasks n h) [] (put_hop h hop a n) = put_hop h hop a n"
  by (simp add: put_task_def put_hop_def)

lemma put_hop_ok:
  assumes ok: "net_ok n" and h: "h < nt_next n" and loc: "local_step own (nt_arena n) a"
    and conns: "hp_connections hop = hp_connections (nt_hops n h)"
    and hop: "ahs_ok (hp_state hop)" "hp_id hop = hp_id (nt_hops n h)"
    and canc: "hp_cancelled hop = hp_cancelled (nt_hops n h) \<or> hp_cancelled hop \<and> h \<notin> ran (hm_get (nt_map n))"
  shows "net_ok (put_hop h hop a n)"
  using put_task_ok [OF ok h loc, of hop "nt_tasks n h" "[]"] net_okD(12) [OF ok h] conns hop canc
  by (auto simp: owned_def held_def)

section \<open>The registry meets its contract\<close>

lemma fresh_hop_ok:
  assumes ok: "net_ok n" and "hm_get (nt_map n) i = None"
  shows "net_ok (n\<lparr>nt_hops := (nt_hops n)(nt_next n := hop_new i), nt_next := Suc (nt_next n),
    nt_tasks := (nt_tasks n)(nt_next n := M_Idle),
    nt_map := hm_insert i (nt_next n) (nt_map n)\<rparr>)" (is "net_ok ?n")
proof -
  note D = net_okD [OF ok]
  have owned: "owned ?n g = (if g = nt_next n then {} else owned n g)" for g
    by (simp add: owned_def held_def hop_new_def)
  show ?thesis
  proof (rule net_okI)
    fix j h assume "hm_get (nt_map ?n) j = Some h"
    then have "j = i \<and> h = nt_next n \<or> j \<noteq> i \<and> hm_get (nt_map n) j = Some h"
      by (auto simp: hm_get_insert split: if_splits)
    then show "h < nt_next ?n \<and> hp_id (nt_hops ?n h) = j \<and> \<not> hp_cancelled (nt_hops ?n h) \<and>
        h \<notin> set (nt_shutdowns ?n)"
      using D(2-5) [of j h] D(9) [of h] by (auto simp: hop_new_def)
  next
    fix g h assume "g < nt_next ?n" "h < nt_next ?n" "g \<noteq> h"
    then show "owned ?n g \<inter> owned ?n h = {}"
      using D(7) [of g h] by (auto simp: owned less_Suc_eq)
  next
    fix h assume "h < nt_next ?n"
    moreover have "ahs_ok (hp_state (hop_new i))" by (simp add: hop_new_def)
    ultimately show "ahs_ok (hp_state (nt_hops ?n h)) \<and> (\<forall>c\<in>owned ?n h. c < ar_next (nt_arena ?n)) \<and>
        (nt_tasks ?n h = M_Stopped \<longrightarrow> hp_cancelled (nt_hops ?n h))"
      using D(11-13) [of h] by (auto simp: owned less_Suc_eq)
  next
    show "h < nt_next ?n" if "h \<in> set (nt_shutdowns ?n)" for h using D(9) [of h] that by auto
    show "h < nt_next ?n" if "(h, b) \<in> set (nt_resolves ?n)" for h b using D(10) [of h b] that by auto
  qed (use D(1,8) in auto)
qed

lemma get_or_create_cases:
  "get_or_create i n = (case hm_get (nt_map n) i of
      Some hop \<Rightarrow> Some (hop, n)
    | None \<Rightarrow> Some (nt_next n, n\<lparr>nt_hops := (nt_hops n)(nt_next n := hop_new i), nt_next := Suc (nt_next n),
        nt_tasks := (nt_tasks n)(nt_next n := M_Idle), nt_map := hm_insert i (nt_next n) (nt_map n)\<rparr>))"
  by (simp add: get_or_create_def Let_def split: option.splits)

text \<open>Retiring takes the listed ids out of the map and hands each of their hops to a shutdown.\<close>

lemma retire_loop_spec:
  assumes "retire_loop is m sp = (m', sp')" and "hm_ok m" and "distinct is"
  shows "hm_ok m' \<and> (\<forall>i. hm_get m' i = (if i \<in> set is then None else hm_get m i)) \<and>
    set sp' = set sp \<union> {h. \<exists>i\<in>set is. hm_get m i = Some h}"
  using assms
proof (induction "is" m sp rule: retire_loop.induct)
  case (2 i js m sp)
  show ?case
  proof (cases "hm_get m i")
    case None
    with 2 show ?thesis by auto
  next
    case (Some h)
    have "retire_loop js (hm_remove i m) (sp @ [h]) = (m', sp')" using 2(3) Some by simp
    from 2(2) [OF Some this] 2(4,5) have R: "hm_ok m'"
      "\<forall>j. hm_get m' j = (if j \<in> set js then None else hm_get (hm_remove i m) j)"
      "set sp' = set (sp @ [h]) \<union> {g. \<exists>j\<in>set js. hm_get (hm_remove i m) j = Some g}" by simp_all
    moreover have "{g. \<exists>j\<in>set js. hm_get (hm_remove i m) j = Some g} = {g. \<exists>j\<in>set js. hm_get m j = Some g}"
      using 2(5) by (auto simp: hm_get_remove)
    ultimately show ?thesis using Some by (auto simp: hm_get_remove)
  qed
qed auto

lemma retire_unused_spec:
  assumes ok: "net_ok n"
  shows "hm_ok (nt_map (retire_unused act n))"
    "hm_get (nt_map (retire_unused act n)) i = (if i \<in> set act then hm_get (nt_map n) i else None)"
    "set (nt_shutdowns (retire_unused act n)) = set (nt_shutdowns n) \<union>
       {h. \<exists>i. i \<notin> set act \<and> hm_get (nt_map n) i = Some h}"
    "nt_hops (retire_unused act n) = nt_hops n" "nt_next (retire_unused act n) = nt_next n"
    "nt_arena (retire_unused act n) = nt_arena n" "nt_resolves (retire_unused act n) = nt_resolves n"
    "nt_tasks (retire_unused act n) = nt_tasks n"
    "nt_released (retire_unused act n) = nt_released n"
proof -
  let ?is = "filter (\<lambda>i. i \<notin> set act) (hm_keys (nt_map n))"
  have hm: "hm_ok (nt_map n)" and d: "distinct ?is"
    using net_okD(1) [OF ok] by (auto simp: hm_ok_def hm_keys_def)
  obtain m sp where r: "retire_loop ?is (nt_map n) [] = (m, sp)" by fastforce
  note R = retire_loop_spec [OF r hm d]
  have "hm_ok (nt_map (retire_unused act n)) \<and>
    hm_get (nt_map (retire_unused act n)) i = (if i \<in> set act then hm_get (nt_map n) i else None) \<and>
    set (nt_shutdowns (retire_unused act n)) = set (nt_shutdowns n) \<union>
       {h. \<exists>i. i \<notin> set act \<and> hm_get (nt_map n) i = Some h} \<and>
    nt_hops (retire_unused act n) = nt_hops n \<and> nt_next (retire_unused act n) = nt_next n \<and>
    nt_arena (retire_unused act n) = nt_arena n \<and> nt_resolves (retire_unused act n) = nt_resolves n \<and>
    nt_tasks (retire_unused act n) = nt_tasks n \<and> nt_released (retire_unused act n) = nt_released n"
  proof (cases "?is = []")
    case True
    then have "retire_unused act n = n" by (simp add: retire_unused_def)
    moreover have "\<And>i. hm_get (nt_map n) i \<noteq> None \<Longrightarrow> i \<in> set act"
      using True by (auto simp: filter_empty_conv hm_keys_iff)
    ultimately show ?thesis using hm by fastforce
  next
    case False
    then have "retire_unused act n = n\<lparr>nt_map := m, nt_shutdowns := nt_shutdowns n @ sp\<rparr>"
      using r by (simp add: retire_unused_def del: filter_empty_conv)
    with R show ?thesis by (auto simp: hm_keys_iff)
  qed
  then show "hm_ok (nt_map (retire_unused act n))"
    "hm_get (nt_map (retire_unused act n)) i = (if i \<in> set act then hm_get (nt_map n) i else None)"
    "set (nt_shutdowns (retire_unused act n)) = set (nt_shutdowns n) \<union>
       {h. \<exists>i. i \<notin> set act \<and> hm_get (nt_map n) i = Some h}"
    "nt_hops (retire_unused act n) = nt_hops n" "nt_next (retire_unused act n) = nt_next n"
    "nt_arena (retire_unused act n) = nt_arena n" "nt_resolves (retire_unused act n) = nt_resolves n"
    "nt_tasks (retire_unused act n) = nt_tasks n"
    "nt_released (retire_unused act n) = nt_released n"
    by blast+
qed

lemma retire_unused_ok:
  assumes ok: "net_ok n"
  shows "net_ok (retire_unused act n)"
proof -
  note D = net_okD [OF ok] and R = retire_unused_spec [OF ok, of act]
  show ?thesis
  proof (rule net_okI)
    fix i h assume i: "hm_get (nt_map (retire_unused act n)) i = Some h"
    then have i': "i \<in> set act" "hm_get (nt_map n) i = Some h" by (auto simp: R(2) split: if_splits)
    have "j = i" if "hm_get (nt_map n) j = Some h" for j
      using D(3) [OF that] D(3) [OF i'(2)] by simp
    with D(2-5) [OF i'(2)] i' show "h < nt_next (retire_unused act n) \<and>
      hp_id (nt_hops (retire_unused act n) h) = i \<and> \<not> hp_cancelled (nt_hops (retire_unused act n) h) \<and>
      h \<notin> set (nt_shutdowns (retire_unused act n))"
      unfolding R(3-5) by blast
  next
    show "h < nt_next (retire_unused act n)" if "h \<in> set (nt_shutdowns (retire_unused act n))" for h
      using that D(2,9) by (auto simp: R)
    show "owned (retire_unused act n) g \<inter> owned (retire_unused act n) h = {}"
      if "g < nt_next (retire_unused act n)" "h < nt_next (retire_unused act n)" "g \<noteq> h" for g h
      using D(7) [of g h] that by (simp add: owned_def R)
    show "ahs_ok (hp_state (nt_hops (retire_unused act n) h)) \<and>
        (\<forall>c\<in>owned (retire_unused act n) h. c < ar_next (nt_arena (retire_unused act n))) \<and>
        (nt_tasks (retire_unused act n) h = M_Stopped \<longrightarrow> hp_cancelled (nt_hops (retire_unused act n) h))"
      if "h < nt_next (retire_unused act n)" for h
      using D(11-13) [of h] that by (simp add: owned_def R)
    show "h < nt_next (retire_unused act n)" if "(h, b) \<in> set (nt_resolves (retire_unused act n))" for h b
      using D(10) [of h b] that by (simp add: R)
  qed (use R(1) D(8) in \<open>simp_all add: R\<close>)
qed

interpretation hm: hop_registry registry_get get_or_create retire_unused get_all_ids net_ok
proof unfold_locales
  fix n :: net and i h assume "net_ok n" "registry_get n i = Some h"
  then show "get_or_create i n = Some (h, n)" by (simp add: get_or_create_cases registry_get_def)
next
  fix n :: net and i assume ok: "net_ok n" and i: "registry_get n i = None"
  have "nt_next n \<notin> ran (registry_get n)"
    using net_okD(2) [OF ok] by (auto simp: ran_def registry_get_def)
  with fresh_hop_ok [OF ok, of i] i show "\<exists>h s'. get_or_create i n = Some (h, s') \<and> net_ok s' \<and>
      registry_get s' = (registry_get n)(i \<mapsto> h) \<and> h \<notin> ran (registry_get n)"
    by (auto simp: get_or_create_cases registry_get_def hm_get_insert fun_eq_iff)
next
  fix n :: net and act i assume "net_ok n"
  then show "registry_get (retire_unused act n) i = (if i \<in> set act then registry_get n i else None)"
    by (simp add: registry_get_def retire_unused_spec)
next
  fix n :: net and i assume "net_ok n"
  then show "i \<in> set (get_all_ids n) \<longleftrightarrow> registry_get n i \<noteq> None"
    by (simp add: get_all_ids_def registry_get_def hm_keys_iff)
qed (rule retire_unused_ok)

section \<open>The tasks keep the invariant\<close>

lemma net_maint_ok:
  assumes ok: "net_ok n"
  shows "net_ok (net_maint io config rs stop h n)"
proof (cases "h < nt_next n")
  case True
  obtain pc hop a rel where m: "maint_step io config rs stop (nt_tasks n h) (nt_hops n h) (nt_arena n) =
      (pc, hop, a, rel)" by (metis prod_cases4)
  note L = maint_step_local [of "nt_tasks n h" "nt_hops n h" "nt_arena n" io config rs stop, unfolded m task_local_def,
    simplified]
  have "hp_cancelled hop" if "pc = M_Stopped"
    using maint_step_stopped [OF m [unfolded that]] net_okD(12) [OF ok True] L by (auto simp: keeps_hop_def)
  then have "net_ok (put_task h pc rel (put_hop h hop a n))"
    using L net_okD(13) [OF ok True] by (intro put_task_ok [OF ok True]) (auto simp: keeps_hop_def owned_def)
  with True m show ?thesis by (simp add: net_maint_def)
next
  case False
  with ok show ?thesis by (simp add: net_maint_def)
qed

lemma set_drop_at: "set (drop_at k xs) \<subseteq> set xs"
  by (auto simp: drop_at_def dest: in_set_takeD in_set_dropD)

lemma net_ok_tasks:
  assumes ok: "net_ok n" and "set sh \<subseteq> set (nt_shutdowns n)" and "fst ` set rv \<subseteq> fst ` set (nt_resolves n)"
  shows "net_ok (n\<lparr>nt_shutdowns := sh, nt_resolves := rv\<rparr>)"
proof (rule net_okI)
  show "h < nt_next (n\<lparr>nt_shutdowns := sh, nt_resolves := rv\<rparr>)"
    if "(h, b) \<in> set (nt_resolves (n\<lparr>nt_shutdowns := sh, nt_resolves := rv\<rparr>))" for h b
  proof -
    have "h \<in> fst ` set rv" using that by force
    then obtain b' where "(h, b') \<in> set (nt_resolves n)" using assms(3) by force
    then show ?thesis using net_okD(10) [OF ok] by simp
  qed
qed (use net_okD(1-5,7-9,11-13) [OF ok] assms(2) in \<open>auto simp: owned_def simp del: disjoint_iff\<close>)

lemma run_shutdown_ok:
  assumes ok: "net_ok n"
  shows "net_ok (run_shutdown k n)"
proof (cases "k < length (nt_shutdowns n)")
  case True
  define h where "h = nt_shutdowns n ! k"
  obtain hop a where sh: "shutdown (nt_hops n h) (nt_arena n) = (hop, a)" by fastforce
  have hs: "h \<in> set (nt_shutdowns n)" using True by (simp add: h_def)
  then have "h < nt_next n" using net_okD(9) [OF ok] by simp
  moreover have "h \<notin> ran (hm_get (nt_map n))"
    using hs net_okD(5) [OF ok] by (auto simp: ran_def)
  moreover have "ahs_ok (hp_state hop)" "hp_id hop = hp_id (nt_hops n h)" "hp_cancelled hop"
    "hp_connections hop = hp_connections (nt_hops n h)"
    using sh net_okD(13) [OF ok \<open>h < nt_next n\<close>] by (auto simp: shutdown_def)
  moreover have "local_step (set (hp_connections (nt_hops n h))) (nt_arena n) a"
    using shutdown_local [OF sh] by (simp add: local_op_def)
  ultimately have "net_ok (put_hop h hop a n)"
    by (intro put_hop_ok [OF ok, where own = "set (hp_connections (nt_hops n h))"]) auto
  from net_ok_tasks [OF this, of "drop_at k (nt_shutdowns n)" "nt_resolves n"] True sh
  show ?thesis by (simp add: run_shutdown_def h_def Let_def set_drop_at put_hop_def)
qed (simp add: run_shutdown_def ok)

lemma run_resolve_ok:
  assumes ok: "net_ok n"
  shows "net_ok (run_resolve io rs k n)"
proof (cases "k < length (nt_resolves n)")
  case True
  obtain h w where hw: "nt_resolves n ! k = (h, w)" by fastforce
  obtain d hop a where rv: "resolve_step io rs w (nt_hops n h) (nt_arena n) = (d, hop, a)"
    by (metis prod_cases3)
  have hs: "(h, w) \<in> set (nt_resolves n)" using True hw nth_mem by metis
  then have h: "h < nt_next n" using net_okD(10) [OF ok] by simp
  note L = resolve_step_local [OF rv]
  have put: "net_ok (put_hop h hop a n)"
    using L net_okD(13) [OF ok h] by (intro put_hop_ok [OF ok h, where own = "{}"]) (auto simp: keeps_hop_def)
  have "fst ` set (drop_at k (nt_resolves n)) \<subseteq> fst ` set (nt_resolves n)"
    using set_drop_at [of k "nt_resolves n"] by auto
  moreover have "fst ` set ((nt_resolves n)[k := (h, True)]) \<subseteq> fst ` set (nt_resolves n)"
    using set_update_subset_insert [of "nt_resolves n" k "(h, True)"] hs by force
  ultimately have "net_ok (put_hop h hop a n\<lparr>nt_shutdowns := nt_shutdowns n,
      nt_resolves := if d then drop_at k (nt_resolves n) else (nt_resolves n)[k := (h, True)]\<rparr>)"
    by (intro net_ok_tasks [OF put]) simp_all
  then show ?thesis using True hw rv by (simp add: run_resolve_def put_hop_def)
qed (simp add: run_resolve_def ok)

lemma spawn_resolve_ok: "net_ok n \<Longrightarrow> h < nt_next n \<Longrightarrow> net_ok (spawn_resolve h n)"
  using net_okD [of n] by (intro net_okI) (auto simp: spawn_resolve_def simp del: disjoint_iff)

lemma ran_hm_get: "h \<in> ran (hm_get m) \<Longrightarrow> h \<in> snd ` set m"
  by (force simp: ran_def dest: hm_get_SomeD)

lemma net_drop_ok:
  assumes ok: "net_ok n"
  shows "net_ok (net_drop h n)"
proof (cases "h < nt_next n \<and> nt_tasks n h = M_Stopped \<and> h \<notin> snd ` set (nt_map n) \<and>
    h \<notin> set (nt_shutdowns n) \<and> h \<notin> fst ` set (nt_resolves n)")
  case True
  then have "h \<notin> ran (hm_get (nt_map n))" using ran_hm_get by metis
  then have "net_ok (put_task h M_Stopped (hp_connections (nt_hops n h))
      (put_hop h ((hop_drop (nt_hops n h))\<lparr>hp_connections := []\<rparr>) (nt_arena n) n))"
    using True net_okD(13) [OF ok, of h]
    by (intro put_task_ok [OF ok, where own = "{}"]) (auto simp: held_def hop_drop_def)
  with True show ?thesis by (simp add: net_drop_def drop_hop_def)
next
  case False
  with ok show ?thesis unfolding net_drop_def by (simp only: if_False)
qed

lemma net_release_ok:
  assumes ok: "net_ok n"
  shows "net_ok (net_release k n)"
proof -
  have "arena_ok (close_at c (nt_arena n))" for c
    using close_at_local [of c "{c}" "nt_arena n"] net_okD(8) [OF ok] by (simp add: local_step_def)
  then have "net_ok (n\<lparr>nt_arena := close_at c (nt_arena n), nt_released := rel\<rparr>)" for c rel
    using net_okD [OF ok] by (intro net_okI) simp_all
  with ok show ?thesis by (simp add: net_release_def)
qed

lemma set_conn_ok:
  assumes ok: "net_ok n" and "conn_ok conn"
  shows "net_ok (set_conn c conn n)"
  using net_okD [OF ok] assms(2)
  by (intro net_okI) (simp_all add: set_conn_def arena_ok_def)

lemma net_conn_ok:
  assumes ok: "net_ok n"
  shows "\<exists>n'. net_conn c e n = Some n' \<and> net_ok n'"
proof (cases "c < ar_next (nt_arena n)")
  case True
  then have "conn_ok (ar_conns (nt_arena n) c)" using net_okD(8) [OF ok] by (simp add: arena_ok_def)
  from conn_step_ok [OF this, of e] True set_conn_ok [OF ok] show ?thesis
    by (auto simp: net_conn_def)
qed (simp add: net_conn_def ok)

lemma net_next_connection_ok:
  assumes ok: "net_ok n" and "net_next_connection h n = (c, n')" and h: "h < nt_next n"
  shows "net_ok n' \<and> nt_arena n' = nt_arena n \<and> nt_map n' = nt_map n \<and> nt_next n' = nt_next n \<and>
    (\<forall>x. c = Some x \<longrightarrow> x < ar_next (nt_arena n) \<and> \<not> closed_at (nt_arena n) x)"
proof -
  let ?hop = "nt_hops n h"
  let ?hop' = "?hop\<lparr>hp_rr := hp_rr ?hop + 1\<rparr>"
  have e: "c = pick (closed_at (nt_arena n)) (hp_connections ?hop) (hp_rr ?hop)"
    "n' = put_hop h ?hop' (nt_arena n) n"
    using assms(2) by (auto simp: net_next_connection_def next_connection_def put_hop_def)
  have "net_ok n'" unfolding e
    using net_okD(6) [OF ok h]
    by (intro put_hop_ok [OF ok h]) (auto simp: local_op_def hop_ok_def)
  moreover have "x < ar_next (nt_arena n) \<and> \<not> closed_at (nt_arena n) x" if "c = Some x" for x
    using pick_sound [OF that [unfolded e]] net_okD(6) [OF ok h] by (auto simp: hop_ok_def)
  ultimately show ?thesis by (simp add: e)
qed

end
