(* ===== verification/Routing_State.thy ===== *)
theory Routing_State
  imports Protocol
begin

text \<open>
  The routing tables of \<open>src/routing_state.rs\<close>: the edge state (segment, zone, routers), the
  zone state (segment, shard, bridges) and the snapshot that is one of the two. Both states
  are a two-level table; the locale \<open>two_level_table\<close> states what the rest of the program
  relies on, proves its consequences once, and is interpreted on both.
\<close>

section \<open>Two-level tables\<close>

text \<open>Segments name a group (a zone or a shard), groups list hop ids.\<close>

definition table_lookup ::
  "(string, string) hmap \<Rightarrow> (string, string list) hmap \<Rightarrow> string \<Rightarrow> string list" where
  "table_lookup seg_map grp_map segment =
     (case hm_get seg_map segment of
        Some g \<Rightarrow> (case hm_get grp_map g of Some hops \<Rightarrow> hops | None \<Rightarrow> [])
      | None \<Rightarrow> [])"

text \<open>
  The contract of a two-level table: the representation invariant is kept by every operation,
  a group can be given a hop list, the segment list of a group can be replaced, groups can be
  pruned, and a lookup goes through both levels.
\<close>

locale two_level_table =
  fixes segs :: "'s \<Rightarrow> (string, string) hmap"
    and grps :: "'s \<Rightarrow> (string, string list) hmap"
    and set_hops :: "'s \<Rightarrow> string \<Rightarrow> string list \<Rightarrow> 's"
    and replace :: "'s \<Rightarrow> string \<Rightarrow> string list \<Rightarrow> 's"
    and prune_segs :: "'s \<Rightarrow> (string \<Rightarrow> bool) \<Rightarrow> 's"
    and look :: "'s \<Rightarrow> string \<Rightarrow> string list"
    and ok :: "'s \<Rightarrow> bool"
  assumes look_eq: "look s seg = table_lookup (segs s) (grps s) seg"
    and ok_set_hops: "ok s \<Longrightarrow> ok (set_hops s g hs)"
    and ok_replace: "ok s \<Longrightarrow> ok (replace s g ks)"
    and ok_prune: "ok s \<Longrightarrow> ok (prune_segs s P)"
    and segs_set_hops: "segs (set_hops s g hs) = segs s"
    and grps_set_hops: "hm_get (grps (set_hops s g hs)) = (hm_get (grps s))(g \<mapsto> hs)"
    and grps_replace: "grps (replace s g ks) = grps s"
    and segs_replace: "ok s \<Longrightarrow> hm_get (segs (replace s g ks)) seg =
          (if seg \<in> set ks then Some g
           else if hm_get (segs s) seg = Some g then None else hm_get (segs s) seg)"
    and grps_prune: "grps (prune_segs s P) = grps s"
    and segs_prune: "ok s \<Longrightarrow> hm_get (segs (prune_segs s P)) seg =
          (case hm_get (segs s) seg of Some g \<Rightarrow> if P g then Some g else None | None \<Rightarrow> None)"
begin

text \<open>No segment points at a group without a hop list.\<close>

definition closed_table :: "'s \<Rightarrow> bool" where
  "closed_table s \<longleftrightarrow> (\<forall>seg g. hm_get (segs s) seg = Some g \<longrightarrow> hm_has (grps s) g)"

lemma look_replace_listed:
  "ok s \<Longrightarrow> seg \<in> set ks \<Longrightarrow> hm_get (grps s) g = Some hs \<Longrightarrow> look (replace s g ks) seg = hs"
  by (simp add: look_eq table_lookup_def segs_replace grps_replace)

lemma look_replace_dropped:
  "ok s \<Longrightarrow> seg \<notin> set ks \<Longrightarrow> hm_get (segs s) seg = Some g \<Longrightarrow> look (replace s g ks) seg = []"
  by (simp add: look_eq table_lookup_def segs_replace grps_replace)

lemma look_replace_other:
  "ok s \<Longrightarrow> seg \<notin> set ks \<Longrightarrow> hm_get (segs s) seg \<noteq> Some g \<Longrightarrow>
   look (replace s g ks) seg = look s seg"
  by (simp add: look_eq table_lookup_def segs_replace grps_replace)

lemma look_replace:
  "ok s \<Longrightarrow> look (replace s g ks) seg =
     (if seg \<in> set ks then (case hm_get (grps s) g of Some hs \<Rightarrow> hs | None \<Rightarrow> [])
      else if hm_get (segs s) seg = Some g then [] else look s seg)"
  by (simp add: look_eq table_lookup_def segs_replace grps_replace)

lemma look_set_hops:
  "look (set_hops s g hs) seg = (if hm_get (segs s) seg = Some g then hs else look s seg)"
  by (simp add: look_eq table_lookup_def segs_set_hops grps_set_hops split: option.splits)

lemma look_prune:
  "ok s \<Longrightarrow> look (prune_segs s P) seg =
     (case hm_get (segs s) seg of Some g \<Rightarrow> if P g then look s seg else [] | None \<Rightarrow> [])"
  by (simp add: look_eq table_lookup_def segs_prune grps_prune split: option.splits)

lemma closed_prune:
  "ok s \<Longrightarrow> (\<And>g. P g \<Longrightarrow> hm_has (grps s) g) \<Longrightarrow> closed_table (prune_segs s P)"
  by (auto simp: closed_table_def segs_prune grps_prune split: option.splits if_splits)

lemma closed_replace:
  "ok s \<Longrightarrow> closed_table s \<Longrightarrow> hm_has (grps s) g \<Longrightarrow> closed_table (replace s g ks)"
  by (auto simp: closed_table_def segs_replace grps_replace split: if_splits)

lemma closed_set_hops: "closed_table s \<Longrightarrow> closed_table (set_hops s g hs)"
  by (auto simp: closed_table_def segs_set_hops grps_set_hops)

text \<open>
  In a closed table the hops a lookup returns are hops of some group; in any table they are
  hops of the group the segment names.
\<close>

lemma look_in_group:
  "h \<in> set (look s seg) \<Longrightarrow> \<exists>g hs. hm_get (grps s) g = Some hs \<and> h \<in> set hs"
  by (cases "hm_get (segs s) seg"; cases "hm_get (grps s) (the (hm_get (segs s) seg))")
     (auto simp: look_eq table_lookup_def)

lemma replace_idem:
  "ok s \<Longrightarrow> hm_get (segs (replace (replace s g ks) g ks)) seg = hm_get (segs (replace s g ks)) seg"
  by (auto simp: segs_replace ok_replace)

text \<open>Authoritative lists of two groups commute when they have no segment in common.\<close>

lemma replace_commute:
  "ok s \<Longrightarrow> g \<noteq> g' \<Longrightarrow> set ks \<inter> set ks' = {} \<Longrightarrow>
   hm_get (segs (replace (replace s g ks) g' ks')) seg =
   hm_get (segs (replace (replace s g' ks') g ks)) seg"
  by (auto simp: segs_replace ok_replace)

end

section \<open>Edge state\<close>

record edge_state =
  segment_to_zone :: "(string, string) hmap"
  zone_to_routers :: "(string, string list) hmap"

definition edge_new :: edge_state where
  "edge_new = \<lparr>segment_to_zone = [], zone_to_routers = []\<rparr>"

definition set_zone_routers :: "edge_state \<Rightarrow> string \<Rightarrow> string list \<Rightarrow> edge_state" where
  "set_zone_routers s zone_id routers =
     s\<lparr>zone_to_routers := hm_insert zone_id routers (zone_to_routers s)\<rparr>"

definition set_segment_zone :: "edge_state \<Rightarrow> string \<Rightarrow> string \<Rightarrow> edge_state" where
  "set_segment_zone s segment zone_id =
     s\<lparr>segment_to_zone := hm_insert segment zone_id (segment_to_zone s)\<rparr>"

text \<open>The loop of the two \<open>replace_*_segments\<close>: each segment is removed, then inserted.\<close>

fun install_segments ::
  "string \<Rightarrow> string list \<Rightarrow> (string, string) hmap \<Rightarrow> (string, string) hmap" where
  "install_segments g [] m = m"
| "install_segments g (segment # segments) m =
     install_segments g segments (hm_insert segment g (hm_remove segment m))"

definition replace_zone_segments :: "edge_state \<Rightarrow> string \<Rightarrow> string list \<Rightarrow> edge_state" where
  "replace_zone_segments s zone_id segments =
     (let kept = hm_retain (\<lambda>_ existing_zone. existing_zone \<noteq> zone_id) (segment_to_zone s)
      in s\<lparr>segment_to_zone := install_segments zone_id segments kept\<rparr>)"

definition retain_valid_zones :: "edge_state \<Rightarrow> string list \<Rightarrow> edge_state" where
  "retain_valid_zones s valid_zones =
     s\<lparr>zone_to_routers := hm_retain (\<lambda>zone _. zone \<in> set valid_zones) (zone_to_routers s),
       segment_to_zone := hm_retain (\<lambda>_ zone. zone \<in> set valid_zones) (segment_to_zone s)\<rparr>"

definition edge_lookup :: "edge_state \<Rightarrow> string \<Rightarrow> string list" where
  "edge_lookup s segment =
     (case hm_get (segment_to_zone s) segment of
        Some zone \<Rightarrow>
          (case hm_get (zone_to_routers s) zone of Some routers \<Rightarrow> routers | None \<Rightarrow> [])
      | None \<Rightarrow> [])"

definition edge_is_empty :: "edge_state \<Rightarrow> bool" where
  "edge_is_empty s \<longleftrightarrow> segment_to_zone s = [] \<and> zone_to_routers s = []"

definition edge_ok :: "edge_state \<Rightarrow> bool" where
  "edge_ok s \<longleftrightarrow> hm_ok (segment_to_zone s) \<and> hm_ok (zone_to_routers s)"

text \<open>The final consistency check of the edge synchronisation, a \<open>retain\<close> on the segments.\<close>

definition edge_prune_segments :: "edge_state \<Rightarrow> (string \<Rightarrow> bool) \<Rightarrow> edge_state" where
  "edge_prune_segments s P =
     s\<lparr>segment_to_zone := hm_retain (\<lambda>_ zone. P zone) (segment_to_zone s)\<rparr>"

lemma install_segments_ok [simp]: "hm_ok m \<Longrightarrow> hm_ok (install_segments g ks m)"
  by (induction g ks m rule: install_segments.induct) auto

lemma hm_get_install_segments [hmap_simps]:
  "hm_get (install_segments g ks m) seg = (if seg \<in> set ks then Some g else hm_get m seg)"
  by (induction g ks m rule: install_segments.induct) (auto simp: hmap_simps)

interpretation edge_table: two_level_table segment_to_zone zone_to_routers set_zone_routers
  replace_zone_segments edge_prune_segments edge_lookup edge_ok
  by unfold_locales
     (auto simp: edge_lookup_def table_lookup_def edge_ok_def set_zone_routers_def
       replace_zone_segments_def edge_prune_segments_def hmap_simps split: option.splits)

section \<open>Zone state\<close>

record zone_state =
  segment_to_shard :: "(string, string) hmap"
  shard_to_bridges :: "(string, string list) hmap"

definition zone_new :: zone_state where
  "zone_new = \<lparr>segment_to_shard = [], shard_to_bridges = []\<rparr>"

definition set_shard_bridges :: "zone_state \<Rightarrow> string \<Rightarrow> string list \<Rightarrow> zone_state" where
  "set_shard_bridges s shard_id bridges =
     s\<lparr>shard_to_bridges := hm_insert shard_id bridges (shard_to_bridges s)\<rparr>"

definition set_segment_shard :: "zone_state \<Rightarrow> string \<Rightarrow> string \<Rightarrow> zone_state" where
  "set_segment_shard s segment shard_id =
     s\<lparr>segment_to_shard := hm_insert segment shard_id (segment_to_shard s)\<rparr>"

definition replace_shard_segments :: "zone_state \<Rightarrow> string \<Rightarrow> string list \<Rightarrow> zone_state" where
  "replace_shard_segments s shard_id segments =
     (let kept = hm_retain (\<lambda>_ existing_shard. existing_shard \<noteq> shard_id) (segment_to_shard s)
      in s\<lparr>segment_to_shard := install_segments shard_id segments kept\<rparr>)"

definition retain_valid_shards :: "zone_state \<Rightarrow> string list \<Rightarrow> zone_state" where
  "retain_valid_shards s valid_shards =
     s\<lparr>segment_to_shard := hm_retain (\<lambda>_ shard. shard \<in> set valid_shards) (segment_to_shard s)\<rparr>"

definition zone_lookup :: "zone_state \<Rightarrow> string \<Rightarrow> string list" where
  "zone_lookup s segment =
     (case hm_get (segment_to_shard s) segment of
        Some shard \<Rightarrow>
          (case hm_get (shard_to_bridges s) shard of Some bridges \<Rightarrow> bridges | None \<Rightarrow> [])
      | None \<Rightarrow> [])"

definition zone_is_empty :: "zone_state \<Rightarrow> bool" where
  "zone_is_empty s \<longleftrightarrow> segment_to_shard s = [] \<and> shard_to_bridges s = []"

definition zone_ok :: "zone_state \<Rightarrow> bool" where
  "zone_ok s \<longleftrightarrow> hm_ok (segment_to_shard s) \<and> hm_ok (shard_to_bridges s)"

definition zone_prune_segments :: "zone_state \<Rightarrow> (string \<Rightarrow> bool) \<Rightarrow> zone_state" where
  "zone_prune_segments s P =
     s\<lparr>segment_to_shard := hm_retain (\<lambda>_ shard. P shard) (segment_to_shard s)\<rparr>"

interpretation zone_table: two_level_table segment_to_shard shard_to_bridges set_shard_bridges
  replace_shard_segments zone_prune_segments zone_lookup zone_ok
  by unfold_locales
     (auto simp: zone_lookup_def table_lookup_def zone_ok_def set_shard_bridges_def
       replace_shard_segments_def zone_prune_segments_def hmap_simps split: option.splits)

lemma retain_valid_shards_prune:
  "retain_valid_shards s valid = zone_prune_segments s (\<lambda>g. g \<in> set valid)"
  by (simp add: retain_valid_shards_def zone_prune_segments_def)

lemma retain_valid_zones_prune:
  "retain_valid_zones s valid = (edge_prune_segments s (\<lambda>g. g \<in> set valid))
     \<lparr>zone_to_routers := hm_retain (\<lambda>zone _. zone \<in> set valid) (zone_to_routers s)\<rparr>"
  by (simp add: retain_valid_zones_def edge_prune_segments_def)

section \<open>Snapshots\<close>

datatype routing_snapshot = Edge edge_state | Zone zone_state

fun snapshot_lookup :: "routing_snapshot \<Rightarrow> string \<Rightarrow> string list" where
  "snapshot_lookup (Edge state) segment = edge_lookup state segment"
| "snapshot_lookup (Zone state) segment = zone_lookup state segment"

definition serialize_segments :: "routing_snapshot \<Rightarrow> u32 \<Rightarrow> byte list run" where
  "serialize_segments snap clrid =
     (let segments = (case snap of
          Edge state \<Rightarrow> hm_keys (segment_to_zone state)
        | Zone state \<Rightarrow> hm_keys (segment_to_shard state))
      in serialize_get_segments segments clrid)"

fun is_edge :: "routing_snapshot \<Rightarrow> bool" where
  "is_edge (Edge _) = True"
| "is_edge (Zone _) = False"

fun is_zone :: "routing_snapshot \<Rightarrow> bool" where
  "is_zone (Zone _) = True"
| "is_zone (Edge _) = False"

fun get_all_hop_ids :: "routing_snapshot \<Rightarrow> string list" where
  "get_all_hop_ids (Edge state) = concat (hm_values (zone_to_routers state))"
| "get_all_hop_ids (Zone state) = concat (hm_values (shard_to_bridges state))"

fun snapshot_ok :: "routing_snapshot \<Rightarrow> bool" where
  "snapshot_ok (Edge state) = edge_ok state"
| "snapshot_ok (Zone state) = zone_ok state"

fun snapshot_segments :: "routing_snapshot \<Rightarrow> string list" where
  "snapshot_segments (Edge state) = hm_keys (segment_to_zone state)"
| "snapshot_segments (Zone state) = hm_keys (segment_to_shard state)"

fun snapshot_closed :: "routing_snapshot \<Rightarrow> bool" where
  "snapshot_closed (Edge state) = edge_table.closed_table state"
| "snapshot_closed (Zone state) = zone_table.closed_table state"

lemma serialize_segments_eq:
  "serialize_segments snap clrid =
     Some (reply_bytes clrid (reply_payload ''SUCCESS'' (segment_fields 0 (snapshot_segments snap))))"
  by (cases snap) (simp_all add: serialize_segments_def serialize_get_segments_eq)

text \<open>Every hop a lookup can return is among the hop ids used for reconciliation.\<close>

lemma snapshot_lookup_subset:
  "set (snapshot_lookup snap seg) \<subseteq> set (get_all_hop_ids snap)"
proof
  fix h assume h: "h \<in> set (snapshot_lookup snap seg)"
  show "h \<in> set (get_all_hop_ids snap)"
  proof (cases snap)
    case (Edge s)
    with h edge_table.look_in_group [of h s seg] show ?thesis
      by (auto intro: hm_value_in)
  next
    case (Zone s)
    with h zone_table.look_in_group [of h s seg] show ?thesis
      by (auto intro: hm_value_in)
  qed
qed

text \<open>A segment without a route is one the table does not name, or one with an empty group.\<close>

lemma snapshot_lookup_unlisted:
  "seg \<notin> set (snapshot_segments snap) \<Longrightarrow> snapshot_lookup snap seg = []"
  by (cases snap) (auto simp: hm_keys_iff edge_lookup_def zone_lookup_def)

end
