(* ===== verification/Rzid.thy ===== *)
theory Rzid
  imports Hop_Manager Routing_State
begin

text \<open>
  The client of the RzID service, from \<open>src/rzid.rs\<close>: its requests, the detection of changes by
  versions, and the synchronisation of the routing state in the two modes. HTTP and JSON are
  those of third-party crates: a \<open>rzid_server\<close> gives the outcome of the \<open>n\<close>-th request of the
  client for a URL, already as the type the code asks for. \<open>hash_order\<close> is the order in which a
  \<open>HashSet\<close> built from a list is iterated.
\<close>

section \<open>Wire types\<close>

record codecs_response =
  co_rate_features :: "string list"
  co_hash :: u64

record register_request =
  rg_kind :: string
  rg_id :: string
  rg_zone :: string
  rg_shard :: "string option"

record version_manifest =
  vm_global_version :: u64
  vm_versions :: "(string, u64) hmap"

record zone_routers_response =
  zr_version :: u64
  zr_routers :: "string list"

record zone_segments_response =
  zs_version :: u64
  zs_segments :: "string list"

record shard_bridges =
  sb_bridges :: "string list"

record zone_shards_response =
  zh_version :: u64
  zh_shards :: "(string, shard_bridges) hmap"

record shard_segments_response =
  sg_version :: u64
  sg_zone :: string
  sg_segments :: "string list"

text \<open>The four ways a GET ends; the strings are the texts of the errors.\<close>

datatype 'a fetch = Fetched 'a | Send_Failed string | Bad_Status string | Bad_Json string

text \<open>A POST: failure, or a status (as a number and as text) with the body, if it can be read.\<close>

datatype post = Post_Failed string | Post_Reply nat string "string option"

record rzid_server =
  rz_versions :: "nat \<Rightarrow> string \<Rightarrow> version_manifest fetch"
  rz_routers :: "nat \<Rightarrow> string \<Rightarrow> zone_routers_response fetch"
  rz_segments :: "nat \<Rightarrow> string \<Rightarrow> zone_segments_response fetch"
  rz_shards :: "nat \<Rightarrow> string \<Rightarrow> zone_shards_response fetch"
  rz_shard_segments :: "nat \<Rightarrow> string \<Rightarrow> shard_segments_response fetch"
  rz_codecs :: "nat \<Rightarrow> string \<Rightarrow> codecs_response fetch"
  rz_register :: "nat \<Rightarrow> string \<Rightarrow> register_request \<Rightarrow> post"

section \<open>The client\<close>

record rzid_client =
  rc_base_url :: string
  rc_mode :: router_mode
  rc_router_id :: string
  rc_zone_id :: string
  rc_local_versions :: "(string, u64) hmap"
  rc_requests :: nat

definition or_default :: "string option \<Rightarrow> string" where
  "or_default s = (case s of Some x \<Rightarrow> x | None \<Rightarrow> '''')"

text \<open>Building the HTTP client may fail; \<open>build_error\<close> is its error.\<close>

definition rzid_new :: "string option \<Rightarrow> config \<Rightarrow> rz_error + rzid_client" where
  "rzid_new build_error cfg =
     (if cfg_mode cfg = ModeZone \<and> (cfg_zone_id cfg = None \<or> cfg_router_id cfg = None)
      then Inl (RZ_Config ''zone mode requires zone_id and router_id'')
      else case build_error of
        Some e \<Rightarrow> Inl (RZ_System (''rzid client: '' @ e))
      | None \<Rightarrow> Inr \<lparr>rc_base_url = http_base (cfg_rzid_addr cfg), rc_mode = cfg_mode cfg,
          rc_router_id = or_default (cfg_router_id cfg), rc_zone_id = or_default (cfg_zone_id cfg),
          rc_local_versions = [], rc_requests = 0\<rparr>)"

definition send_heartbeat :: "rzid_server \<Rightarrow> rzid_client \<Rightarrow> (rz_error + unit) \<times> rzid_client" where
  "send_heartbeat srv c =
     (if rc_mode c \<noteq> ModeZone then (Inr (), c)
      else
        (let url = rc_base_url c @ ''/register'';
             body = \<lparr>rg_kind = ''router'', rg_id = rc_router_id c, rg_zone = rc_zone_id c, rg_shard = None\<rparr>;
             c' = c\<lparr>rc_requests := Suc (rc_requests c)\<rparr>
         in case rz_register srv (rc_requests c) url body of
              Post_Failed e \<Rightarrow> (Inl (RZ_Http (''rzid register: '' @ e)), c')
            | Post_Reply status status_text body \<Rightarrow>
                if \<not> is_success status
                then (Inl (RZ_Http (''rzid register '' @ status_text @ '': '' @ or_default body)), c')
                else (Inr (), c')))"

text \<open>The chain \<open>send\<close>, \<open>error_for_status\<close>, \<open>json\<close> of every GET, with its error messages.\<close>

fun fetch_result :: "string \<Rightarrow> 'a fetch \<Rightarrow> rz_error + 'a" where
  "fetch_result what (Fetched a) = Inr a"
| "fetch_result what (Send_Failed e) = Inl (RZ_Http (what @ '': '' @ e))"
| "fetch_result what (Bad_Status e) = Inl (RZ_Http (what @ '': '' @ e))"
| "fetch_result what (Bad_Json e) = Inl (RZ_Http (what @ '' json: '' @ e))"

definition http_get ::
  "(nat \<Rightarrow> string \<Rightarrow> 'a fetch) \<Rightarrow> string \<Rightarrow> string \<Rightarrow> rzid_client \<Rightarrow> (rz_error + 'a) \<times> rzid_client" where
  "http_get serve what path c =
     (fetch_result what (serve (rc_requests c) (rc_base_url c @ path)),
      c\<lparr>rc_requests := Suc (rc_requests c)\<rparr>)"

definition fetch_version_manifest ::
  "rzid_server \<Rightarrow> rzid_client \<Rightarrow> (rz_error + version_manifest) \<times> rzid_client" where
  "fetch_version_manifest srv c = http_get (rz_versions srv) ''versions'' ''/versions'' c"

definition fetch_zone_routers ::
  "rzid_server \<Rightarrow> string \<Rightarrow> rzid_client \<Rightarrow> (rz_error + u64 \<times> string list) \<times> rzid_client" where
  "fetch_zone_routers srv zone_id c =
     (let (r, c) = http_get (rz_routers srv) ''zone routers'' (''/zones/'' @ zone_id @ ''/routers'') c
      in (bind_res r (\<lambda>resp. Inr (zr_version resp, zr_routers resp)), c))"

definition fetch_zone_segments ::
  "rzid_server \<Rightarrow> string \<Rightarrow> rzid_client \<Rightarrow> (rz_error + u64 \<times> string list) \<times> rzid_client" where
  "fetch_zone_segments srv zone_id c =
     (let (r, c) = http_get (rz_segments srv) ''zone segments'' (''/zones/'' @ zone_id @ ''/segments'') c
      in (bind_res r (\<lambda>resp. Inr (zs_version resp, zs_segments resp)), c))"

definition fetch_zone_shards ::
  "rzid_server \<Rightarrow> string \<Rightarrow> rzid_client \<Rightarrow>
   (rz_error + u64 \<times> (string, string list) hmap) \<times> rzid_client" where
  "fetch_zone_shards srv zone_id c =
     (let (r, c) = http_get (rz_shards srv) ''zone shards'' (''/zones/'' @ zone_id @ ''/shards'') c
      in (bind_res r (\<lambda>resp. Inr (zh_version resp, map (\<lambda>(k, v). (k, sb_bridges v)) (zh_shards resp))), c))"

definition fetch_shard_segments ::
  "rzid_server \<Rightarrow> string \<Rightarrow> rzid_client \<Rightarrow> (rz_error + u64 \<times> string \<times> string list) \<times> rzid_client" where
  "fetch_shard_segments srv shard_id c =
     (let (r, c) = http_get (rz_shard_segments srv) ''shard segments'' (''/shards/'' @ shard_id @ ''/segments'') c
      in (bind_res r (\<lambda>resp. Inr (sg_version resp, sg_zone resp, sg_segments resp)), c))"

definition fetch_codecs :: "rzid_server \<Rightarrow> rzid_client \<Rightarrow> (rz_error + codecs_response) \<times> rzid_client" where
  "fetch_codecs srv c = http_get (rz_codecs srv) ''codecs'' ''/codecs'' c"

section \<open>Change detection\<close>

definition relevant_key :: "rzid_client \<Rightarrow> string \<Rightarrow> bool" where
  "relevant_key c key =
     (case rc_mode c of
        ModeEdge \<Rightarrow> starts_with key ''zones/'' \<and> (ends_with key ''/routers'' \<or> ends_with key ''/segments'')
      | ModeZone \<Rightarrow> starts_with key ''zones/'' \<and> contains key (rc_zone_id c) \<or>
          starts_with key ''shards/'' \<and> ends_with key ''/segments'')"

definition detect_changes :: "rzid_client \<Rightarrow> version_manifest \<Rightarrow> string list" where
  "detect_changes c manifest =
     map fst (filter (\<lambda>(key, version). hm_get (rc_local_versions c) key \<noteq> Some version)
       (filter (\<lambda>(key, _). relevant_key c key) (vm_versions manifest)))"

definition update_local_version :: "string \<Rightarrow> u64 \<Rightarrow> rzid_client \<Rightarrow> rzid_client" where
  "update_local_version key version c =
     c\<lparr>rc_local_versions := hm_insert key version (rc_local_versions c)\<rparr>"

section \<open>Edge synchronisation\<close>

definition routers_key :: "string \<Rightarrow> string" where
  "routers_key zone_id = ''zones/'' @ zone_id @ ''/routers''"

definition segments_key :: "string \<Rightarrow> string" where
  "segments_key zone_id = ''zones/'' @ zone_id @ ''/segments''"

definition shards_key :: "string \<Rightarrow> string" where
  "shards_key zone_id = ''zones/'' @ zone_id @ ''/shards''"

definition shard_segments_key :: "string \<Rightarrow> string" where
  "shard_segments_key shard_id = ''shards/'' @ shard_id @ ''/segments''"

definition zone_of_key :: "string \<Rightarrow> string option" where
  "zone_of_key key =
     (case split_char (CHR ''/'') key of
        first # second # _ \<Rightarrow> if first = ''zones'' then Some second else None
      | _ \<Rightarrow> None)"

definition valid_zones :: "version_manifest \<Rightarrow> string list" where
  "valid_zones manifest = remdups (List.map_filter zone_of_key (hm_keys (vm_versions manifest)))"

text \<open>The hops of a list are created if they do not exist; the list is returned as it is.\<close>

fun create_hops :: "string list \<Rightarrow> net \<Rightarrow> net run" where
  "create_hops [] n = Some n"
| "create_hops (i # is) n = do { (_, n) \<leftarrow> get_or_create i n; create_hops is n }"

definition sync_zone_routers ::
  "rzid_server \<Rightarrow> string list \<Rightarrow> string \<Rightarrow> edge_state \<Rightarrow> rzid_client \<Rightarrow> net \<Rightarrow>
   (edge_state \<times> rzid_client \<times> net) run" where
  "sync_zone_routers srv changed zone_id state c n =
     (if routers_key zone_id \<in> set changed then
        (case fetch_zone_routers srv zone_id c of
           (Inr (version, routers), c) \<Rightarrow> do {
             n \<leftarrow> create_hops routers n;
             Some (set_zone_routers state zone_id routers,
               update_local_version (routers_key zone_id) version c, n)
           }
         | (Inl e, c) \<Rightarrow> Some (state, c, n))
      else Some (state, c, n))"

definition sync_zone_segments ::
  "rzid_server \<Rightarrow> string list \<Rightarrow> string \<Rightarrow> edge_state \<Rightarrow> rzid_client \<Rightarrow> edge_state \<times> rzid_client" where
  "sync_zone_segments srv changed zone_id state c =
     (if segments_key zone_id \<in> set changed then
        (case fetch_zone_segments srv zone_id c of
           (Inr (version, segments), c) \<Rightarrow>
             (replace_zone_segments state zone_id segments,
              update_local_version (segments_key zone_id) version c)
         | (Inl e, c) \<Rightarrow> (state, c))
      else (state, c))"

fun sync_zones ::
  "rzid_server \<Rightarrow> string list \<Rightarrow> string list \<Rightarrow> edge_state \<Rightarrow> rzid_client \<Rightarrow> net \<Rightarrow>
   (edge_state \<times> rzid_client \<times> net) run" where
  "sync_zones srv changed [] state c n = Some (state, c, n)"
| "sync_zones srv changed (zone_id # zones) state c n = do {
     (state, c, n) \<leftarrow> sync_zone_routers srv changed zone_id state c n;
     let (state, c) = sync_zone_segments srv changed zone_id state c;
     sync_zones srv changed zones state c n
   }"

type_synonym sync_result = "rz_error + routing_snapshot option"

definition sync_edge_state ::
  "rzid_server \<Rightarrow> (string list \<Rightarrow> string list) \<Rightarrow> routing_snapshot option \<Rightarrow> version_manifest \<Rightarrow>
   string list \<Rightarrow> rzid_client \<Rightarrow> net \<Rightarrow> (sync_result \<times> rzid_client \<times> net) run" where
  "sync_edge_state srv hash_order current manifest changed c n =
     (let state = (case current of Some (Edge existing) \<Rightarrow> existing | _ \<Rightarrow> edge_new);
          zones = hash_order (valid_zones manifest);
          state = retain_valid_zones state zones
      in do {
        (state, c, n) \<leftarrow> sync_zones srv changed zones state c n;
        let zones_with_routers = hm_keys (zone_to_routers state);
        let state = edge_prune_segments state (\<lambda>zone. zone \<in> set zones_with_routers);
        Some (if edge_is_empty state then Inl (RZ_NoRoute ''empty edge state after sync'')
              else Inr (Some (Edge state)), c, n)
      })"

section \<open>Zone synchronisation\<close>

fun install_bridges ::
  "(string, string list) hmap \<Rightarrow> (string, string list) hmap \<Rightarrow> net \<Rightarrow> ((string, string list) hmap \<times> net) run"
where
  "install_bridges [] new n = Some (new, n)"
| "install_bridges ((shard_id, bridges) # shards) new n = do {
     n \<leftarrow> create_hops bridges n;
     install_bridges shards (hm_insert shard_id bridges new) n
   }"

definition sync_topology ::
  "rzid_server \<Rightarrow> string list \<Rightarrow> zone_state \<Rightarrow> rzid_client \<Rightarrow> net \<Rightarrow> (zone_state \<times> rzid_client \<times> net) run"
where
  "sync_topology srv changed state c n =
     (if shards_key (rc_zone_id c) \<in> set changed \<or> shard_to_bridges state = [] then
        (case fetch_zone_shards srv (rc_zone_id c) c of
           (Inr (version, shards), c) \<Rightarrow> do {
             (new_shard_to_bridges, n) \<leftarrow> install_bridges shards [] n;
             let state = state\<lparr>shard_to_bridges := new_shard_to_bridges\<rparr>;
             let state = retain_valid_shards state (hm_keys (shard_to_bridges state));
             Some (state, update_local_version (shards_key (rc_zone_id c)) version c, n)
           }
         | (Inl e, c) \<Rightarrow> Some (state, c, n))
      else Some (state, c, n))"

fun sync_shards ::
  "rzid_server \<Rightarrow> version_manifest \<Rightarrow> string list \<Rightarrow> zone_state \<Rightarrow> rzid_client \<Rightarrow> zone_state \<times> rzid_client"
where
  "sync_shards srv manifest [] state c = (state, c)"
| "sync_shards srv manifest (shard_id # shards) state c =
     (case hm_get (vm_versions manifest) (shard_segments_key shard_id) of
        None \<Rightarrow> sync_shards srv manifest shards state c
      | Some manifest_version \<Rightarrow>
          if hm_get (rc_local_versions c) (shard_segments_key shard_id) = Some manifest_version
          then sync_shards srv manifest shards state c
          else (case fetch_shard_segments srv shard_id c of
              (Inr (version, zone, segments), c) \<Rightarrow>
                if zone \<noteq> rc_zone_id c then sync_shards srv manifest shards state c
                else sync_shards srv manifest shards (replace_shard_segments state shard_id segments)
                  (update_local_version (shard_segments_key shard_id) version c)
            | (Inl e, c) \<Rightarrow> sync_shards srv manifest shards state c))"

definition sync_zone_state ::
  "rzid_server \<Rightarrow> routing_snapshot option \<Rightarrow> version_manifest \<Rightarrow> string list \<Rightarrow> rzid_client \<Rightarrow> net \<Rightarrow>
   (sync_result \<times> rzid_client \<times> net) run" where
  "sync_zone_state srv current manifest changed c n =
     (let state = (case current of Some (Zone existing) \<Rightarrow> existing | _ \<Rightarrow> zone_new) in do {
        (state, c, n) \<leftarrow> sync_topology srv changed state c n;
        let local_shards = hm_keys (shard_to_bridges state);
        let (state, c) = sync_shards srv manifest local_shards state c;
        let state = retain_valid_shards state (hm_keys (shard_to_bridges state));
        Some (if zone_is_empty state then Inl (RZ_NoRoute ''empty zone state after sync'')
              else Inr (Some (Zone state)), c, n)
      })"

section \<open>The synchronisation\<close>

definition sync_routing_state ::
  "rzid_server \<Rightarrow> (string list \<Rightarrow> string list) \<Rightarrow> routing_snapshot option \<Rightarrow> rzid_client \<Rightarrow> net \<Rightarrow>
   (sync_result \<times> rzid_client \<times> net) run" where
  "sync_routing_state srv hash_order current c n =
     (case fetch_version_manifest srv c of
        (Inl e, c) \<Rightarrow> Some (Inl e, c, n)
      | (Inr manifest, c) \<Rightarrow>
          (let changed_keys = detect_changes c manifest in
           if changed_keys = [] then Some (Inr None, c, n)
           else do {
             (result, c, n) \<leftarrow> (case rc_mode c of
                 ModeEdge \<Rightarrow> sync_edge_state srv hash_order current manifest changed_keys c n
               | ModeZone \<Rightarrow> sync_zone_state srv current manifest changed_keys c n);
             Some (result, c, case result of
                 Inr (Some snapshot) \<Rightarrow> retire_unused (get_all_hop_ids snapshot) n
               | _ \<Rightarrow> n)
           }))"

end
