(* ===== verification/World.thy ===== *)
theory World
  imports Hop_Manager Routing_State
begin

text \<open>
  The state that the tasks of the router share: the routing snapshot (an \<open>ArcSwap\<close>) and the
  network of hops. A world event is one uninterrupted step of a task other than the request
  under consideration; a request is modelled with the events that happen at each of its waits.
  The section on requests gives \<open>send_and_wait\<close> of \<open>src/connection.rs\<close> on the shared
  connections and proves that it is the operation of the theory \<open>Connection\<close>.
\<close>

section \<open>Events\<close>

record world =
  wd_routing :: routing_snapshot
  wd_net :: net

text \<open>The environment of the process: operating system, HTTP server, configuration.\<close>

record site =
  st_io :: io
  st_config :: config
  st_resolver :: resolver

text \<open>
  Steps of connections, of the maintenance tasks of hops (with the branch taken at the timer),
  of the tasks spawned for shutdown and resolution, the end of a hop or of a replaced
  connection, and the three things the synchronisation with rzid does to the shared state.
\<close>

datatype world_event =
    WE_Conn nat conn_event
  | WE_Maint nat bool
  | WE_Shutdown nat
  | WE_Resolve nat
  | WE_Drop nat
  | WE_Release nat
  | WE_Create string
  | WE_Retire "string list"
  | WE_Install routing_snapshot

definition on_net :: "(net \<Rightarrow> net) \<Rightarrow> world \<Rightarrow> world" where
  "on_net f w = w\<lparr>wd_net := f (wd_net w)\<rparr>"

fun world_step :: "site \<Rightarrow> world_event \<Rightarrow> world \<Rightarrow> world run" where
  "world_step site (WE_Conn c e) w = do { n \<leftarrow> net_conn c e (wd_net w); Some (w\<lparr>wd_net := n\<rparr>) }"
| "world_step site (WE_Maint h stop) w =
     Some (on_net (net_maint (st_io site) (st_config site) (st_resolver site) stop h) w)"
| "world_step site (WE_Shutdown k) w = Some (on_net (run_shutdown k) w)"
| "world_step site (WE_Resolve k) w = Some (on_net (run_resolve (st_io site) (st_resolver site) k) w)"
| "world_step site (WE_Drop h) w = Some (on_net (net_drop h) w)"
| "world_step site (WE_Release k) w = Some (on_net (net_release k) w)"
| "world_step site (WE_Create hop_id) w =
     do { (_, n) \<leftarrow> get_or_create hop_id (wd_net w); Some (w\<lparr>wd_net := n\<rparr>) }"
| "world_step site (WE_Retire active) w = Some (on_net (retire_unused active) w)"
| "world_step site (WE_Install snap) w = Some (w\<lparr>wd_routing := snap\<rparr>)"

fun world_run :: "site \<Rightarrow> world_event list \<Rightarrow> world \<Rightarrow> world run" where
  "world_run site [] w = Some w"
| "world_run site (e # es) w = do { w' \<leftarrow> world_step site e w; world_run site es w' }"

lemma world_run_append: "world_run site (es @ fs) w =
    (case world_run site es w of None \<Rightarrow> None | Some w' \<Rightarrow> world_run site fs w')"
proof (induction es arbitrary: w)
  case (Cons e es)
  then show ?case by (cases "world_step site e w") auto
qed simp

section \<open>Requests on shared connections\<close>

definition conn_at :: "world \<Rightarrow> nat \<Rightarrow> conn" where
  "conn_at w c = ar_conns (nt_arena (wd_net w)) c"

definition conn_exists :: "world \<Rightarrow> nat \<Rightarrow> bool" where
  "conn_exists w c \<longleftrightarrow> c < ar_next (nt_arena (wd_net w))"

definition put_conn :: "nat \<Rightarrow> conn \<Rightarrow> world \<Rightarrow> world" where
  "put_conn c conn = on_net (set_conn c conn)"

text \<open>
  \<open>send_and_wait\<close> on connection \<open>c\<close>, with what the other tasks do during the wait. The deadline
  of the request itself is not theirs, so it is taken out of their events.
\<close>

definition request ::
  "site \<Rightarrow> world_event list \<Rightarrow> int \<Rightarrow> nat \<Rightarrow> byte list \<Rightarrow> u32 \<Rightarrow> world \<Rightarrow> ((rz_error + byte list) \<times> world) run"
where
  "request site events now c frame cid w = do {
     (r, conn) \<leftarrow> send_begin (conn_at w c) frame cid now;
     let w = put_conn c conn w;
     case r of
       Inl e \<Rightarrow> Some (Inl e, w)
     | Inr t \<Rightarrow> do {
         w \<leftarrow> world_run site (filter (\<lambda>e. e \<noteq> WE_Conn c (Ev_Expire t)) events) w;
         (r, conn) \<leftarrow> send_end (conn_at w c) cid (wait_outcome (conn_at w c) t);
         Some (r, put_conn c conn w)
       }
   }"

section \<open>What an event may do\<close>

definition world_ok :: "world \<Rightarrow> bool" where
  "world_ok w \<longleftrightarrow> net_ok (wd_net w)"

text \<open>
  Handles stay valid, and every connection only moves forward: nothing a waiter waits for is
  lost, except by its own deadline.
\<close>

definition world_le :: "world \<Rightarrow> world \<Rightarrow> bool" where
  "world_le w w' \<longleftrightarrow> world_ok w' \<and> nt_next (wd_net w) \<le> nt_next (wd_net w') \<and>
     (\<forall>c. conn_exists w c \<longrightarrow> conn_exists w' c \<and> conn_le (conn_at w c) (conn_at w' c))"

definition tracks :: "world_event \<Rightarrow> world \<Rightarrow> world \<Rightarrow> bool" where
  "tracks e w w' \<longleftrightarrow> (\<forall>c t. conn_exists w c \<longrightarrow> e \<noteq> WE_Conn c (Ev_Expire t) \<longrightarrow>
     tracked (conn_at w c) t \<longrightarrow> tracked (conn_at w' c) t)"

lemma world_conn_ok: "world_ok w \<Longrightarrow> conn_exists w c \<Longrightarrow> conn_ok (conn_at w c)"
  using net_okD(8) [of "wd_net w"] by (simp add: world_ok_def conn_exists_def conn_at_def arena_ok_def)

lemma world_le_refl: "world_ok w \<Longrightarrow> world_le w w"
  by (simp add: world_le_def)

lemma world_le_trans [trans]: "world_le u v \<Longrightarrow> world_le v w \<Longrightarrow> world_le u w"
  unfolding world_le_def by (metis conn_le_trans order_trans)

lemma world_le_ok: "world_le w w' \<Longrightarrow> world_ok w'"
  by (simp add: world_le_def)

lemma conn_at_put [simp]: "conn_at (put_conn c conn w) c' = (if c' = c then conn else conn_at w c')"
  by (simp add: conn_at_def put_conn_def on_net_def set_conn_def)

lemma put_conn_fields [simp]:
  "conn_exists (put_conn c conn w) c' = conn_exists w c'"
  "nt_next (wd_net (put_conn c conn w)) = nt_next (wd_net w)"
  "nt_map (wd_net (put_conn c conn w)) = nt_map (wd_net w)"
  "wd_routing (put_conn c conn w) = wd_routing w"
  by (simp_all add: conn_exists_def put_conn_def on_net_def set_conn_def)

lemma put_conn_le:
  assumes "world_ok w" and "conn_ok conn" and "conn_le (conn_at w c) conn"
  shows "world_le w (put_conn c conn w)"
proof -
  have "world_ok (put_conn c conn w)"
    using assms(1,2) by (simp add: world_ok_def put_conn_def on_net_def set_conn_ok)
  with assms(3) show ?thesis by (simp add: world_le_def)
qed

text \<open>An operation of a hop, seen from the connections.\<close>

lemma close_le: "conn_ok c \<Longrightarrow> conn_le c (close c) \<and> (\<forall>t. tracked c t \<longrightarrow> tracked (close c) t)"
  by (simp add: conn_le_def close_def tracked_def)

lemma local_step_le:
  assumes ok: "world_ok w" and ok': "net_ok n" and next': "nt_next (wd_net w) \<le> nt_next n"
    and loc: "local_step own (nt_arena (wd_net w)) (nt_arena n)"
  shows "world_le w (w\<lparr>wd_net := n\<rparr>) \<and> tracks e w (w\<lparr>wd_net := n\<rparr>)"
proof -
  have step: "conn_exists (w\<lparr>wd_net := n\<rparr>) c \<and> conn_le (conn_at w c) (conn_at (w\<lparr>wd_net := n\<rparr>) c) \<and>
      (tracked (conn_at w c) t \<longrightarrow> tracked (conn_at (w\<lparr>wd_net := n\<rparr>) c) t)" if c: "conn_exists w c" for c t
  proof -
    have "conn_at (w\<lparr>wd_net := n\<rparr>) c = conn_at w c \<or> conn_at (w\<lparr>wd_net := n\<rparr>) c = close (conn_at w c)"
      using loc c by (auto simp: local_step_def conn_at_def conn_exists_def)
    moreover have "conn_exists (w\<lparr>wd_net := n\<rparr>) c"
      using loc c by (auto simp: local_step_def conn_exists_def)
    ultimately show ?thesis using close_le [OF world_conn_ok [OF ok c]] by auto
  qed
  with ok' next' show ?thesis by (auto simp: world_le_def tracks_def world_ok_def)
qed

lemma on_net_le:
  assumes "world_ok w" and "net_ok (f (wd_net w))" and "nt_next (wd_net w) \<le> nt_next (f (wd_net w))"
    and "local_step own (nt_arena (wd_net w)) (nt_arena (f (wd_net w)))"
  shows "world_le w (on_net f w) \<and> tracks e w (on_net f w)"
  using local_step_le [OF assms(1-4)] by (simp add: on_net_def)

lemma net_maint_local: "local_step {} (nt_arena n) (nt_arena (net_maint io config rs stop h n))"
proof -
  obtain pc hop a rel where m: "maint_step io config rs stop (nt_tasks n h) (nt_hops n h) (nt_arena n) =
      (pc, hop, a, rel)" by (metis prod_cases4)
  from maint_step_local [of "nt_tasks n h" "nt_hops n h" "nt_arena n" io config rs stop, unfolded m task_local_def] m
  show ?thesis by (simp add: net_maint_def local_step_refl)
qed

lemma run_shutdown_local: "\<exists>own. local_step own (nt_arena n) (nt_arena (run_shutdown k n))"
proof -
  obtain hop a where "shutdown (nt_hops n (nt_shutdowns n ! k)) (nt_arena n) = (hop, a)" by fastforce
  with shutdown_local [OF this] local_step_refl show ?thesis
    by (auto simp: run_shutdown_def local_op_def Let_def)
qed

lemma run_resolve_local: "local_step {} (nt_arena n) (nt_arena (run_resolve io rs k n))"
proof -
  obtain h b where hb: "nt_resolves n ! k = (h, b)" by fastforce
  obtain d hop a where r: "resolve_step io rs b (nt_hops n h) (nt_arena n) = (d, hop, a)"
    by (metis prod_cases3)
  from resolve_step_local [OF r] r hb show ?thesis by (simp add: run_resolve_def local_step_refl)
qed

lemma net_drop_fields [simp]: "nt_arena (net_drop h n) = nt_arena n" "nt_next (net_drop h n) = nt_next n"
  "nt_map (net_drop h n) = nt_map n" "nt_shutdowns (net_drop h n) = nt_shutdowns n"
  "nt_resolves (net_drop h n) = nt_resolves n"
  by (simp_all add: net_drop_def drop_hop_def)

lemma net_release_fields [simp]: "nt_hops (net_release k n) = nt_hops n" "nt_next (net_release k n) = nt_next n"
  "nt_map (net_release k n) = nt_map n" "nt_tasks (net_release k n) = nt_tasks n"
  by (simp_all add: net_release_def)

lemma net_release_local: "\<exists>own. local_step own (nt_arena n) (nt_arena (net_release k n))"
  using close_at_local [of "nt_released n ! k" "{nt_released n ! k}" "nt_arena n"] local_step_refl
  by (auto simp: net_release_def)

lemma net_next_same:
  "nt_next (net_maint io config rs stop h n) = nt_next n" "nt_next (run_shutdown k n) = nt_next n"
  "nt_next (run_resolve io rs k n) = nt_next n"
  by (auto simp: net_maint_def run_shutdown_def run_resolve_def Let_def split: prod.splits)

lemma world_step_ok:
  assumes ok: "world_ok w"
  shows "\<exists>w'. world_step site e w = Some w' \<and> world_le w w' \<and> tracks e w w'"
proof -
  have net: "net_ok (wd_net w)" using ok by (simp add: world_ok_def)
  show ?thesis
  proof (cases e)
    case (WE_Conn c ev)
    show ?thesis
    proof (cases "conn_exists w c")
      case True
      from conn_step_ok [OF world_conn_ok [OF ok True], of ev] obtain conn where
        s: "conn_step ev (conn_at w c) = Some conn" "conn_ok conn" "conn_le (conn_at w c) conn"
        "\<forall>t. tracked (conn_at w c) t \<longrightarrow> ev \<noteq> Ev_Expire t \<longrightarrow> tracked conn t" by blast
      have "world_step site e w = Some (put_conn c conn w)"
        using s(1) True WE_Conn
        by (simp add: net_conn_def conn_exists_def conn_at_def put_conn_def on_net_def)
      moreover have "tracks e w (put_conn c conn w)" using s(4) WE_Conn by (auto simp: tracks_def)
      ultimately show ?thesis using put_conn_le [OF ok s(2,3)] by blast
    next
      case False
      with WE_Conn ok show ?thesis
        by (simp add: net_conn_def conn_exists_def tracks_def world_le_refl)
    qed
  next
    case (WE_Maint h stop)
    with on_net_le [where f = "net_maint (st_io site) (st_config site) (st_resolver site) stop h",
        OF ok net_maint_ok [OF net] _ net_maint_local] show ?thesis
      by (simp add: net_next_same)
  next
    case (WE_Shutdown k)
    obtain own where "local_step own (nt_arena (wd_net w)) (nt_arena (run_shutdown k (wd_net w)))"
      using run_shutdown_local by blast
    from on_net_le [where f = "run_shutdown k", OF ok run_shutdown_ok [OF net] _ this] WE_Shutdown show ?thesis
      by (simp add: net_next_same)
  next
    case (WE_Resolve k)
    with on_net_le [where f = "run_resolve (st_io site) (st_resolver site) k",
        OF ok run_resolve_ok [OF net] _ run_resolve_local] show ?thesis
      by (simp add: net_next_same)
  next
    case (WE_Drop h)
    with on_net_le [where f = "net_drop h", OF ok net_drop_ok [OF net] _, of "{}"] show ?thesis
      by (simp add: local_step_refl)
  next
    case (WE_Release k)
    obtain own where "local_step own (nt_arena (wd_net w)) (nt_arena (net_release k (wd_net w)))"
      using net_release_local by blast
    from on_net_le [where f = "net_release k", OF ok net_release_ok [OF net] _ this] WE_Release show ?thesis
      by simp
  next
    case (WE_Create i)
    from hm.create_ok [OF net, of i] obtain h n where c: "get_or_create i (wd_net w) = Some (h, n)"
      and n: "net_ok n" by blast
    have "nt_arena n = nt_arena (wd_net w)" "nt_next (wd_net w) \<le> nt_next n"
      using c by (auto simp: get_or_create_cases split: option.splits)
    with local_step_le [OF ok n, of "{}" e] c WE_Create show ?thesis by simp
  next
    case (WE_Retire active)
    from on_net_le [OF ok, of "retire_unused active" "{}"] WE_Retire show ?thesis
      by (simp add: retire_unused_ok [OF net] retire_unused_spec [OF net])
  next
    case (WE_Install snap)
    with ok show ?thesis
      by (simp add: world_le_def world_ok_def tracks_def conn_exists_def conn_at_def)
  qed
qed

lemma world_run_ok:
  assumes "world_ok w"
  shows "\<exists>w'. world_run site es w = Some w' \<and> world_le w w' \<and>
    (\<forall>c t. conn_exists w c \<longrightarrow> WE_Conn c (Ev_Expire t) \<notin> set es \<longrightarrow> tracked (conn_at w c) t \<longrightarrow>
       tracked (conn_at w' c) t)"
  using assms
proof (induction es arbitrary: w)
  case (Cons e es)
  from world_step_ok [OF Cons.prems] obtain w1 where
    w1: "world_step site e w = Some w1" "world_le w w1" "tracks e w w1" by blast
  from Cons.IH [OF world_le_ok [OF w1(2)]] obtain w2 where
    w2: "world_run site es w1 = Some w2" "world_le w1 w2"
    "\<forall>c t. conn_exists w1 c \<longrightarrow> WE_Conn c (Ev_Expire t) \<notin> set es \<longrightarrow> tracked (conn_at w1 c) t \<longrightarrow>
       tracked (conn_at w2 c) t" by blast
  have "world_le w w2" using w1(2) w2(2) by (rule world_le_trans)
  moreover have "tracked (conn_at w2 c) t" if "conn_exists w c" "WE_Conn c (Ev_Expire t) \<notin> set (e # es)"
    "tracked (conn_at w c) t" for c t
    using that w1(2,3) w2(3) by (auto simp: tracks_def world_le_def)
  ultimately show ?case using w1(1) w2(1) by auto
qed (simp add: world_le_refl)

section \<open>Requests are safe\<close>

text \<open>
  A request never panics, its reply carries its own id, its sender is never dropped while it
  waits, and the errors it can end with are the three of \<open>send_and_wait\<close>.
\<close>

lemma request_ok:
  assumes ok: "world_ok w" and c: "conn_exists w c"
  shows "\<exists>r w'. request site events now c frame cid w = Some (r, w') \<and> world_le w w' \<and>
    (\<forall>response. r = Inr response \<longrightarrow> reply_ok cid response) \<and>
    (\<forall>e. r = Inl e \<longrightarrow> e = RZ_ConnectionClosed \<or> e = RZ_Timeout \<or> (\<exists>m. e = RZ_Validation m))"
proof -
  note cok = world_conn_ok [OF ok c]
  from send_begin_ok [OF cok, of frame cid now] obtain r1 conn where
    b: "send_begin (conn_at w c) frame cid now = Some (r1, conn)" "conn_ok conn"
    "conn_le (conn_at w c) conn"
    "\<forall>t. r1 = Inr t \<longrightarrow> t < length (cn_owner conn) \<and> cn_owner conn ! t = cid \<and> tracked conn t" by blast
  let ?w1 = "put_conn c conn w"
  note le1 = put_conn_le [OF ok b(2,3)]
  show ?thesis
  proof (cases r1)
    case (Inl e)
    have "e = RZ_ConnectionClosed \<or> e = RZ_Timeout \<or> (\<exists>m. e = RZ_Validation m)"
      using b(1) Inl by (auto simp: send_begin_def Let_def split: if_splits bind_splits)
    with b(1) Inl le1 show ?thesis by (simp add: request_def)
  next
    case (Inr t)
    let ?es = "filter (\<lambda>e. e \<noteq> WE_Conn c (Ev_Expire t)) events"
    from world_run_ok [OF world_le_ok [OF le1], of site ?es] obtain w2 where
      w2: "world_run site ?es ?w1 = Some w2" "world_le ?w1 w2" "tracked (conn_at w2 c) t"
      using b(4) Inr c by fastforce
    have ex: "conn_exists w2 c" and le2: "conn_le conn (conn_at w2 c)"
      using w2(2) c by (auto simp: world_le_def)
    note cok2 = world_conn_ok [OF world_le_ok [OF w2(2)] ex]
    have owner: "cn_owner (conn_at w2 c) ! t = cid" using conn_le_owner [OF le2] b(4) Inr by simp
    obtain r conn' where e: "send_end (conn_at w2 c) cid (wait_outcome (conn_at w2 c) t) = Some (r, conn')"
      "conn_ok conn'" "conn_le (conn_at w2 c) conn'"
      using send_end_ok [OF cok2, of cid "wait_outcome (conn_at w2 c) t"] by blast
    have "reply_ok cid response" if "r = Inr response" for response
    proof -
      have "hm_get (cn_mail (conn_at w2 c)) t = Some (Inr response)"
        using e(1) that by (auto simp: send_end_def wait_outcome_def
            split: option.splits wait_result.splits sum.splits demux_error.splits if_splits bind_splits)
      then show ?thesis using conn_okD(7) [OF cok2] owner by blast
    qed
    moreover have "err = RZ_Timeout \<or> err = RZ_ConnectionClosed" if "r = Inl err" for err
      using e(1) that by (auto simp: send_end_def
          split: wait_result.splits sum.splits demux_error.splits bind_splits)
    moreover have "world_le w (put_conn c conn' w2)"
      using le1 w2(2) put_conn_le [OF world_le_ok [OF w2(2)] e(2,3)] world_le_trans by blast
    moreover have "request site events now c frame cid w = Some (r, put_conn c conn' w2)"
      using b(1) Inr w2(1) e(1) by (simp add: request_def)
    ultimately show ?thesis by blast
  qed
qed

text \<open>With no other activity than that of its own connection, it is \<open>send_and_wait\<close>.\<close>

lemma world_run_conn:
  assumes "conn_exists w c"
  shows "world_run site (map (WE_Conn c) es) w =
    (case conn_run es (conn_at w c) of None \<Rightarrow> None | Some conn \<Rightarrow> Some (put_conn c conn w))"
  using assms
proof (induction es arbitrary: w)
  case Nil
  then show ?case by (simp add: put_conn_def on_net_def set_conn_def conn_at_def)
next
  case (Cons e es)
  have step: "world_step site (WE_Conn c e) w =
      (case conn_step e (conn_at w c) of None \<Rightarrow> None | Some conn \<Rightarrow> Some (put_conn c conn w))"
    using Cons.prems by (simp add: net_conn_def conn_exists_def conn_at_def put_conn_def on_net_def
        split: option.splits)
  have twice: "put_conn c b (put_conn c a w) = put_conn c b w" for a b
    by (simp add: put_conn_def on_net_def set_conn_def)
  show ?case
    using Cons.prems Cons.IH [of "put_conn c conn w" for conn]
    by (simp add: step twice del: world_step.simps split: option.splits)
qed

lemma request_send_and_wait:
  assumes "conn_exists w c" and "Ev_Expire (length (cn_owner (conn_at w c))) \<notin> set es"
    and "conn_ok (conn_at w c)"
  shows "request site (map (WE_Conn c) es) now c frame cid w =
    (case send_and_wait es (conn_at w c) frame cid now of
       None \<Rightarrow> None | Some (r, conn) \<Rightarrow> Some (r, put_conn c conn w))"
proof -
  from send_begin_ok [OF assms(3), of frame cid now] obtain r conn where
    b: "send_begin (conn_at w c) frame cid now = Some (r, conn)"
    "\<forall>t. r = Inr t \<longrightarrow> t = length (cn_owner (conn_at w c))" by blast
  show ?thesis
  proof (cases r)
    case (Inl e)
    with b show ?thesis by (simp add: request_def send_and_wait_def)
  next
    case (Inr t)
    have f: "filter (\<lambda>e. e \<noteq> WE_Conn c (Ev_Expire t)) (map (WE_Conn c) es) = map (WE_Conn c) es"
      using b(2) Inr assms(2) by (auto simp: filter_id_conv)
    have twice: "put_conn c b (put_conn c a w) = put_conn c b w" for a b
      by (simp add: put_conn_def on_net_def set_conn_def)
    show ?thesis
      using b(1) Inr assms(1)
      by (simp add: request_def send_and_wait_def f world_run_conn twice split: option.splits)
  qed
qed

end
