(* ===== verification/Rzid_Sync.thy ===== *)
theory Rzid_Sync
  imports Rzid World
begin

text \<open>
  What the synchronisation of \<open>src/rzid.rs\<close> guarantees: it never panics, it only creates hops and
  then retires the unused ones, a snapshot it returns is well formed, has no segment without a
  group, and names exactly the hops that are registered afterwards. The second half is about
  versions: which keys are recorded, what an unchanged manifest leads to, and what is lost.
\<close>

section \<open>Creating hops\<close>

lemma create_hops_all: "create_hops is n = hm.create_all is n"
  by (induction "is" arbitrary: n) (auto split: option.splits)

lemma create_hops_append: "create_hops (is @ js) n =
    (case create_hops is n of None \<Rightarrow> None | Some n' \<Rightarrow> create_hops js n')"
proof (induction "is" arbitrary: n)
  case (Cons i ks)
  then show ?case by (cases "get_or_create i n") auto
qed simp

lemma create_hops_ok:
  assumes "net_ok n"
  shows "\<exists>n'. create_hops is n = Some n' \<and> net_ok n'"
  using hm.create_all_ok [OF assms, of "is"] by (auto simp: create_hops_all)

lemma create_hops_spec:
  assumes ok: "net_ok n" and run: "create_hops is n = Some n'"
  shows "net_ok n'" and "set (get_all_ids n') = set (get_all_ids n) \<union> set is"
    and "registry_get n i = Some h \<Longrightarrow> registry_get n' i = Some h"
proof -
  from hm.create_all_ok [OF ok, of "is"] run have R: "net_ok n'"
    "\<And>j. registry_get n' j = None \<longleftrightarrow> registry_get n j = None \<and> j \<notin> set is"
    "\<And>j h. registry_get n j = Some h \<Longrightarrow> registry_get n' j = Some h" by (auto simp: create_hops_all)
  show "net_ok n'" by fact
  show "registry_get n i = Some h \<Longrightarrow> registry_get n' i = Some h" by (rule R)
  show "set (get_all_ids n') = set (get_all_ids n) \<union> set is"
  proof (rule set_eqI)
    fix j
    show "j \<in> set (get_all_ids n') \<longleftrightarrow> j \<in> set (get_all_ids n) \<union> set is"
      using R(2) [of j] hm.ids_get [OF ok, of j] hm.ids_get [OF R(1), of j] by simp
  qed
qed

text \<open>The hops a table of groups names.\<close>

definition group_hops :: "(string, string list) hmap \<Rightarrow> string set" where
  "group_hops m = set (concat (hm_values m))"

lemma group_hops_iff: "hm_ok m \<Longrightarrow> h \<in> group_hops m \<longleftrightarrow> (\<exists>g hs. hm_get m g = Some hs \<and> h \<in> set hs)"
  using hm_values_iff [of m] unfolding group_hops_def by (simp del: hm_get_Cons) blast

lemma group_hops_mono:
  assumes "hm_ok m" and "hm_ok m'"
    and "\<And>g gs. hm_get m' g = Some gs \<Longrightarrow> hm_get m g = Some gs \<or> set gs \<subseteq> new"
  shows "group_hops m' \<subseteq> group_hops m \<union> new"
  using assms by (fastforce simp: group_hops_iff)

lemma group_hops_insert: "hm_ok m \<Longrightarrow> group_hops (hm_insert g hs m) \<subseteq> group_hops m \<union> set hs"
  by (rule group_hops_mono) (auto simp: hm_get_insert split: if_splits)

lemma group_hops_retain: "hm_ok m \<Longrightarrow> group_hops (hm_retain P m) \<subseteq> group_hops m"
proof -
  assume ok: "hm_ok m"
  have "hm_get (hm_retain P m) g = Some gs \<Longrightarrow> hm_get m g = Some gs" for g gs
    using ok by (auto simp: hm_get_retain split: option.splits if_splits)
  with group_hops_mono [of m "hm_retain P m" "{}"] ok show ?thesis by simp
qed

lemma get_all_hop_ids_groups:
  "set (get_all_hop_ids (Edge s)) = group_hops (zone_to_routers s)"
  "set (get_all_hop_ids (Zone z)) = group_hops (shard_to_bridges z)"
  by (simp_all add: group_hops_def)

text \<open>A step that creates hops: the hops of the new table are old ones or created ones.\<close>

definition creates :: "net \<Rightarrow> net \<Rightarrow> string set \<Rightarrow> string set \<Rightarrow> bool" where
  "creates n n' old new \<longleftrightarrow> (\<exists>is. create_hops is n = Some n' \<and> new \<subseteq> old \<union> set is)"

lemma creates_refl: "new \<subseteq> old \<Longrightarrow> creates n n old new"
  unfolding creates_def by (rule exI [of _ "[]"]) simp

lemma creates_trans: "creates n n1 a b \<Longrightarrow> creates n1 n2 b c \<Longrightarrow> creates n n2 a c"
  unfolding creates_def
proof (elim exE conjE)
  fix js ks
  assume "create_hops js n = Some n1" "b \<subseteq> a \<union> set js" "create_hops ks n1 = Some n2" "c \<subseteq> b \<union> set ks"
  then show "\<exists>is. create_hops is n = Some n2 \<and> c \<subseteq> a \<union> set is"
    by (intro exI [of _ "js @ ks"]) (auto simp: create_hops_append)
qed

lemma creates_mono: "creates n n' a b \<Longrightarrow> b' \<subseteq> b \<Longrightarrow> creates n n' a b'"
  by (auto simp: creates_def)

lemma creates_spec:
  assumes "creates n n' old new" and "net_ok n"
  shows "net_ok n'" and "old \<subseteq> set (get_all_ids n) \<Longrightarrow> new \<subseteq> set (get_all_ids n')"
    and "registry_get n i = Some h \<Longrightarrow> registry_get n' i = Some h"
  using assms create_hops_spec [OF assms(2)] unfolding creates_def by blast+

section \<open>Edge\<close>

lemma sync_zone_routers_ok:
  assumes net: "net_ok n" and ok: "edge_ok s"
  shows "\<exists>s' c' n'. sync_zone_routers srv changed z s c n = Some (s', c', n') \<and> edge_ok s' \<and>
    creates n n' (group_hops (zone_to_routers s)) (group_hops (zone_to_routers s'))"
proof (cases "routers_key z \<in> set changed")
  case True
  obtain r c1 where f: "fetch_zone_routers srv z c = (r, c1)" by fastforce
  show ?thesis
  proof (cases r)
    case (Inl e)
    with True f ok show ?thesis by (auto simp: sync_zone_routers_def creates_refl)
  next
    case (Inr p)
    obtain v routers where p: "p = (v, routers)" by (cases p)
    obtain n' where n': "create_hops routers n = Some n'" using create_hops_ok [OF net] by blast
    have "creates n n' (group_hops (zone_to_routers s)) (group_hops (zone_to_routers (set_zone_routers s z routers)))"
      unfolding creates_def using n' group_hops_insert [of "zone_to_routers s" z routers] ok
      by (intro exI [of _ routers]) (auto simp: set_zone_routers_def edge_ok_def)
    with True f Inr p n' edge_table.ok_set_hops [OF ok, of z routers] show ?thesis
      by (simp add: sync_zone_routers_def)
  qed
qed (use ok in \<open>auto simp: sync_zone_routers_def creates_refl\<close>)

lemma sync_zone_segments_ok:
  assumes "sync_zone_segments srv changed z s c = (s', c')" and "edge_ok s"
  shows "edge_ok s' \<and> zone_to_routers s' = zone_to_routers s"
  using assms edge_table.ok_replace [OF assms(2)]
  by (auto simp: sync_zone_segments_def edge_table.grps_replace split: if_splits sum.splits prod.splits)

lemma sync_zones_ok:
  "net_ok n \<Longrightarrow> edge_ok s \<Longrightarrow>
   \<exists>s' c' n'. sync_zones srv changed zones s c n = Some (s', c', n') \<and> edge_ok s' \<and>
     creates n n' (group_hops (zone_to_routers s)) (group_hops (zone_to_routers s'))"
proof (induction zones arbitrary: s c n)
  case (Cons z zones)
  from sync_zone_routers_ok [OF Cons.prems, of srv changed z c] obtain s1 c1 n1 where
    s1: "sync_zone_routers srv changed z s c n = Some (s1, c1, n1)" "edge_ok s1"
    "creates n n1 (group_hops (zone_to_routers s)) (group_hops (zone_to_routers s1))" by blast
  obtain s2 c2 where s2: "sync_zone_segments srv changed z s1 c1 = (s2, c2)" by fastforce
  note S = sync_zone_segments_ok [OF s2 s1(2)]
  from Cons.IH [OF creates_spec(1) [OF s1(3) Cons.prems(1)], of s2 c2] S obtain s3 c3 n3 where
    s3: "sync_zones srv changed zones s2 c2 n1 = Some (s3, c3, n3)" "edge_ok s3"
    "creates n1 n3 (group_hops (zone_to_routers s1)) (group_hops (zone_to_routers s3))" by auto
  from s1(1) s2 s3(1,2) creates_trans [OF s1(3) s3(3)] show ?case by simp
qed (simp add: creates_refl)

text \<open>What the result of a synchronisation promises, given the table before it.\<close>

definition sync_promise :: "string set \<Rightarrow> net \<Rightarrow> sync_result \<Rightarrow> net \<Rightarrow> bool" where
  "sync_promise old n r n' \<longleftrightarrow> (\<exists>new. creates n n' old new \<and>
     (\<forall>snap. r = Inr (Some snap) \<longrightarrow> snapshot_ok snap \<and> snapshot_closed snap \<and>
        set (get_all_hop_ids snap) \<subseteq> new))"

lemma sync_edge_state_ok:
  assumes net: "net_ok n" and cur: "\<And>s. current = Some (Edge s) \<Longrightarrow> edge_ok s"
  shows "\<exists>r c' n'. sync_edge_state srv ho current manifest changed c n = Some (r, c', n') \<and>
    sync_promise (case current of Some snap \<Rightarrow> set (get_all_hop_ids snap) | None \<Rightarrow> {}) n r n' \<and>
    (\<forall>snap. r = Inr (Some snap) \<longrightarrow> is_edge snap)"
proof -
  define s where "s = (case current of Some (Edge existing) \<Rightarrow> existing | _ \<Rightarrow> edge_new)"
  define old where "old = (case current of Some snap \<Rightarrow> set (get_all_hop_ids snap) | None \<Rightarrow> {})"
  have s: "edge_ok s" "group_hops (zone_to_routers s) \<subseteq> old"
    using cur by (auto simp: s_def old_def edge_new_def edge_ok_def group_hops_def hm_values_def
        split: option.splits routing_snapshot.splits)
  let ?zones = "ho (valid_zones manifest)"
  let ?s = "retain_valid_zones s ?zones"
  have rs: "edge_ok ?s" "group_hops (zone_to_routers ?s) \<subseteq> old"
    using s group_hops_retain [of "zone_to_routers s" "\<lambda>zone _. zone \<in> set ?zones"]
    by (auto simp: edge_ok_def retain_valid_zones_def)
  from sync_zones_ok [OF net rs(1), of srv changed ?zones c] obtain s1 c1 n1 where
    s1: "sync_zones srv changed ?zones ?s c n = Some (s1, c1, n1)" "edge_ok s1"
    "creates n n1 (group_hops (zone_to_routers ?s)) (group_hops (zone_to_routers s1))" by blast
  let ?P = "\<lambda>zone. zone \<in> set (hm_keys (zone_to_routers s1))"
  let ?s2 = "edge_prune_segments s1 ?P"
  have closed: "edge_table.closed_table ?s2"
    by (rule edge_table.closed_prune [OF s1(2)]) (simp add: hm_keys_iff)
  have grp: "zone_to_routers ?s2 = zone_to_routers s1" by (simp add: edge_prune_segments_def)
  have "creates n n1 old (group_hops (zone_to_routers s1))"
    using s1(3) rs(2) unfolding creates_def by blast
  moreover have "snapshot_ok (Edge ?s2) \<and> snapshot_closed (Edge ?s2) \<and>
      set (get_all_hop_ids (Edge ?s2)) \<subseteq> group_hops (zone_to_routers s1)"
    using edge_table.ok_prune [OF s1(2)] closed grp by (simp add: group_hops_def)
  ultimately have "sync_promise old n (if edge_is_empty ?s2 then Inl e else Inr (Some (Edge ?s2))) n1" for e
    unfolding sync_promise_def by auto
  then show ?thesis
    using s1(1) by (simp add: sync_edge_state_def old_def Let_def flip: s_def)
qed

section \<open>Zone\<close>

lemma install_bridges_ok:
  "net_ok n \<Longrightarrow> hm_ok new \<Longrightarrow>
   \<exists>new' n'. install_bridges shards new n = Some (new', n') \<and> hm_ok new' \<and>
     creates n n' (group_hops new) (group_hops new')"
proof (induction shards arbitrary: new n)
  case (Cons p shards)
  obtain g hs where p: "p = (g, hs)" by (cases p)
  obtain n1 where n1: "create_hops hs n = Some n1" "net_ok n1" using create_hops_ok [OF Cons.prems(1)] by blast
  have c: "creates n n1 (group_hops new) (group_hops (hm_insert g hs new))"
    unfolding creates_def using n1(1) group_hops_insert [OF Cons.prems(2)] by (intro exI [of _ hs]) simp
  from Cons.IH [OF n1(2), of "hm_insert g hs new"] Cons.prems(2) obtain new' n' where
    R: "install_bridges shards (hm_insert g hs new) n1 = Some (new', n')" "hm_ok new'"
    "creates n1 n' (group_hops (hm_insert g hs new)) (group_hops new')" by auto
  from R(1,2) n1(1) p creates_trans [OF c R(3)] show ?case by simp
qed (simp add: creates_refl)

lemma retain_valid_shards_bridges [simp]:
  "shard_to_bridges (retain_valid_shards s v) = shard_to_bridges s"
  by (simp add: retain_valid_shards_def)

lemma retain_valid_shards_ok: "zone_ok s \<Longrightarrow> zone_ok (retain_valid_shards s v)"
  by (simp add: zone_ok_def retain_valid_shards_def)

lemma sync_topology_ok:
  assumes net: "net_ok n" and ok: "zone_ok s"
  shows "\<exists>s' c' n'. sync_topology srv changed s c n = Some (s', c', n') \<and> zone_ok s' \<and>
    creates n n' (group_hops (shard_to_bridges s)) (group_hops (shard_to_bridges s')) \<and>
    rc_zone_id c' = rc_zone_id c \<and> rc_mode c' = rc_mode c"
proof (cases "shards_key (rc_zone_id c) \<in> set changed \<or> shard_to_bridges s = []")
  case True
  obtain r c1 where f: "fetch_zone_shards srv (rc_zone_id c) c = (r, c1)" by fastforce
  have c1: "rc_zone_id c1 = rc_zone_id c" "rc_mode c1 = rc_mode c"
    using f by (auto simp: fetch_zone_shards_def http_get_def)
  show ?thesis
  proof (cases r)
    case (Inl e)
    with True f ok c1 show ?thesis by (auto simp: sync_topology_def creates_refl)
  next
    case (Inr p)
    obtain v shards where p: "p = (v, shards)" by (cases p)
    from install_bridges_ok [OF net, of "[]" shards] obtain m n' where
      m: "install_bridges shards [] n = Some (m, n')" "hm_ok m" "creates n n' (group_hops []) (group_hops m)"
      by auto
    have "creates n n' (group_hops (shard_to_bridges s)) (group_hops m)"
      using m(3) unfolding creates_def by (auto simp: group_hops_def hm_values_def)
    moreover have "zone_ok (retain_valid_shards (s\<lparr>shard_to_bridges := m\<rparr>) v')" for v'
      using ok m(2) by (simp add: zone_ok_def retain_valid_shards_def)
    ultimately show ?thesis
      using True f Inr p m(1) c1 by (auto simp: sync_topology_def Let_def update_local_version_def)
  qed
qed (use ok in \<open>auto simp: sync_topology_def creates_refl\<close>)

lemma sync_shards_ok:
  "sync_shards srv manifest shards s c = (s', c') \<Longrightarrow> zone_ok s \<Longrightarrow>
   zone_ok s' \<and> shard_to_bridges s' = shard_to_bridges s"
proof (induction shards arbitrary: s c)
  case (Cons g shards)
  obtain r c1 where f: "fetch_shard_segments srv g c = (r, c1)" by fastforce
  have k: "zone_ok (replace_shard_segments s g segs)"
    "shard_to_bridges (replace_shard_segments s g segs) = shard_to_bridges s" for segs
    using zone_table.ok_replace [OF Cons.prems(2)] by (simp_all add: zone_table.grps_replace)
  have "\<exists>s1 c2. sync_shards srv manifest shards s1 c2 = (s', c') \<and> zone_ok s1 \<and>
      shard_to_bridges s1 = shard_to_bridges s"
    using Cons.prems f k by (auto split: option.splits if_splits sum.splits prod.splits; blast)
  with Cons.IH show ?case by metis
qed simp

lemma sync_zone_state_ok:
  assumes net: "net_ok n" and cur: "\<And>s. current = Some (Zone s) \<Longrightarrow> zone_ok s"
  shows "\<exists>r c' n'. sync_zone_state srv current manifest changed c n = Some (r, c', n') \<and>
    sync_promise (case current of Some snap \<Rightarrow> set (get_all_hop_ids snap) | None \<Rightarrow> {}) n r n' \<and>
    (\<forall>snap. r = Inr (Some snap) \<longrightarrow> is_zone snap)"
proof -
  define s where "s = (case current of Some (Zone existing) \<Rightarrow> existing | _ \<Rightarrow> zone_new)"
  define old where "old = (case current of Some snap \<Rightarrow> set (get_all_hop_ids snap) | None \<Rightarrow> {})"
  have s: "zone_ok s" "group_hops (shard_to_bridges s) \<subseteq> old"
    using cur by (auto simp: s_def old_def zone_new_def zone_ok_def group_hops_def hm_values_def
        split: option.splits routing_snapshot.splits)
  from sync_topology_ok [OF net s(1), of srv changed c] obtain s1 c1 n1 where
    s1: "sync_topology srv changed s c n = Some (s1, c1, n1)" "zone_ok s1"
    "creates n n1 (group_hops (shard_to_bridges s)) (group_hops (shard_to_bridges s1))" by blast
  obtain s2 c2 where s2: "sync_shards srv manifest (hm_keys (shard_to_bridges s1)) s1 c1 = (s2, c2)"
    by fastforce
  note S = sync_shards_ok [OF s2 s1(2)]
  let ?s3 = "retain_valid_shards s2 (hm_keys (shard_to_bridges s2))"
  have closed: "zone_table.closed_table ?s3"
    unfolding retain_valid_shards_prune using S
    by (intro zone_table.closed_prune) (simp_all add: hm_keys_iff)
  have ok3: "zone_ok ?s3" using S retain_valid_shards_ok by blast
  have "creates n n1 old (group_hops (shard_to_bridges s1))"
    using s1(3) s(2) unfolding creates_def by blast
  moreover have "snapshot_ok (Zone ?s3) \<and> snapshot_closed (Zone ?s3) \<and>
      set (get_all_hop_ids (Zone ?s3)) \<subseteq> group_hops (shard_to_bridges s1)"
    using ok3 closed S by (simp add: group_hops_def)
  ultimately have "sync_promise old n (if zone_is_empty ?s3 then Inl e else Inr (Some (Zone ?s3))) n1" for e
    unfolding sync_promise_def by auto
  then show ?thesis
    using s1(1) s2 by (simp add: sync_zone_state_def old_def Let_def flip: s_def)
qed

section \<open>Both\<close>

text \<open>
  A synchronisation as a whole: it returns; a new snapshot is well formed and closed, fits the
  mode, and its hops are exactly the registered ones; every hop that was registered and is
  still named keeps its handle, and with it its connections.
\<close>

lemma sync_routing_state_ok:
  assumes net: "net_ok n" and cur: "snapshot_ok snap" "set (get_all_hop_ids snap) \<subseteq> set (get_all_ids n)"
  shows "\<exists>r c' n'. sync_routing_state srv ho (Some snap) c n = Some (r, c', n') \<and> net_ok n' \<and>
    (\<exists>is n1. create_hops is n = Some n1 \<and> n' = (case r of
       Inr (Some new) \<Rightarrow> retire_unused (get_all_hop_ids new) n1 | _ \<Rightarrow> n1)) \<and>
    (\<forall>new. r = Inr (Some new) \<longrightarrow> snapshot_ok new \<and> snapshot_closed new \<and>
       (rc_mode c = ModeEdge \<longleftrightarrow> is_edge new) \<and> set (get_all_ids n') = set (get_all_hop_ids new) \<and>
       (\<forall>i h. i \<in> set (get_all_hop_ids new) \<longrightarrow> registry_get n i = Some h \<longrightarrow> registry_get n' i = Some h)) \<and>
    (\<forall>e. r = Inl e \<or> r = Inr None \<longrightarrow> (\<forall>i h. registry_get n i = Some h \<longrightarrow> registry_get n' i = Some h))"
proof -
  obtain rm c1 where m: "fetch_version_manifest srv c = (rm, c1)" by fastforce
  have mode: "rc_mode c1 = rc_mode c" using m by (auto simp: fetch_version_manifest_def http_get_def)
  show ?thesis
  proof (cases rm)
    case (Inl e)
    with m net show ?thesis by (auto simp: sync_routing_state_def intro: exI [of _ "[]"])
  next
    case (Inr manifest)
    let ?changed = "detect_changes c1 manifest"
    show ?thesis
    proof (cases "?changed = []")
      case True
      with m Inr net show ?thesis by (auto simp: sync_routing_state_def intro: exI [of _ "[]"])
    next
      case False
      let ?sync = "case rc_mode c1 of
          ModeEdge \<Rightarrow> sync_edge_state srv ho (Some snap) manifest ?changed c1 n
        | ModeZone \<Rightarrow> sync_zone_state srv (Some snap) manifest ?changed c1 n"
      have "\<exists>r c' n'. ?sync = Some (r, c', n') \<and> sync_promise (set (get_all_hop_ids snap)) n r n' \<and>
          (\<forall>new. r = Inr (Some new) \<longrightarrow> (rc_mode c = ModeEdge \<longleftrightarrow> is_edge new))"
      proof (cases "rc_mode c1")
        case ModeEdge
        have "edge_ok s" if "Some snap = Some (Edge s)" for s using that cur(1) by simp
        from sync_edge_state_ok [where current = "Some snap", OF net this, of srv ho manifest ?changed c1]
          ModeEdge mode
        show ?thesis by simp
      next
        case ModeZone
        have "is_zone x \<Longrightarrow> \<not> is_edge x" for x by (cases x) auto
        moreover have "zone_ok s" if "Some snap = Some (Zone s)" for s using that cur(1) by simp
        from sync_zone_state_ok [where current = "Some snap", OF net this, of srv manifest ?changed c1] obtain r c' n' where
          "sync_zone_state srv (Some snap) manifest ?changed c1 n = Some (r, c', n')"
          "sync_promise (set (get_all_hop_ids snap)) n r n'"
          "\<forall>snap. r = Inr (Some snap) \<longrightarrow> is_zone snap" by auto
        ultimately show ?thesis using ModeZone mode by auto
      qed
      then obtain r c2 n1 where r: "?sync = Some (r, c2, n1)"
        "sync_promise (set (get_all_hop_ids snap)) n r n1"
        "\<forall>new. r = Inr (Some new) \<longrightarrow> (rc_mode c = ModeEdge \<longleftrightarrow> is_edge new)" by blast
      then obtain new where p: "creates n n1 (set (get_all_hop_ids snap)) new"
        "\<forall>snap. r = Inr (Some snap) \<longrightarrow> snapshot_ok snap \<and> snapshot_closed snap \<and>
          set (get_all_hop_ids snap) \<subseteq> new" unfolding sync_promise_def by blast
      note C = creates_spec [OF p(1) net]
      obtain js where js: "create_hops js n = Some n1" using p(1) unfolding creates_def by blast
      let ?n2 = "case r of Inr (Some snapshot) \<Rightarrow> retire_unused (get_all_hop_ids snapshot) n1 | _ \<Rightarrow> n1"
      have run: "sync_routing_state srv ho (Some snap) c n = Some (r, c2, ?n2)"
        using m Inr False r(1) by (simp add: sync_routing_state_def)
      show ?thesis
      proof (cases "\<exists>x. r = Inr (Some x)")
        case False
        then have "?n2 = n1" by (auto split: sum.splits option.splits)
        moreover have "\<exists>is n2. create_hops is n = Some n2 \<and> n1 = (case r of
            Inr (Some new) \<Rightarrow> retire_unused (get_all_hop_ids new) n2 | _ \<Rightarrow> n2)"
          using False js by (intro exI [of _ js] exI [of _ n1]) (auto split: sum.splits option.splits)
        ultimately show ?thesis using run C False by auto
      next
        case True
        then obtain x where x: "r = Inr (Some x)" by blast
        let ?act = "get_all_hop_ids x"
        have px: "snapshot_ok x" "snapshot_closed x" "set ?act \<subseteq> new" using p(2) x by auto
        have sub: "set ?act \<subseteq> set (get_all_ids n1)" using px(3) C(2) [OF cur(2)] by blast
        have ids: "set (get_all_ids (retire_unused ?act n1)) = set ?act"
        proof (rule set_eqI)
          fix i
          show "i \<in> set (get_all_ids (retire_unused ?act n1)) \<longleftrightarrow> i \<in> set ?act"
            using hm.ids_get [OF hm.retire_ok [OF C(1), of ?act], of i] hm.retire_get [OF C(1), of ?act i]
              hm.ids_get [OF C(1), of i] sub by auto
        qed
        have "registry_get (retire_unused ?act n1) i = Some h"
          if "i \<in> set ?act" "registry_get n i = Some h" for i h
          using hm.retire_get [OF C(1), of ?act i] C(3) [OF that(2)] that(1) by simp
        with run x ids px r(3) hm.retire_ok [OF C(1), of ?act] js show ?thesis by auto
      qed
    qed
  qed
qed

end
