(* ===== verification/Rzid_Versions.thy ===== *)
theory Rzid_Versions
  imports Rzid_Sync
begin

text \<open>
  The versions the client of \<open>src/rzid.rs\<close> records: when a synchronisation settles, and the cases
  in which it does not, or settles on a state that lacks what the server has.
\<close>

section \<open>Change detection\<close>

lemma detect_changes_iff:
  assumes "hm_ok (vm_versions m)"
  shows "key \<in> set (detect_changes c m) \<longleftrightarrow> relevant_key c key \<and>
    (\<exists>v. hm_get (vm_versions m) key = Some v \<and> hm_get (rc_local_versions c) key \<noteq> Some v)"
proof -
  have *: "(key, v) \<in> set (vm_versions m) \<longleftrightarrow> hm_get (vm_versions m) key = Some v" for v
    using hm_get_in [OF assms, of key v] hm_get_SomeD [of "vm_versions m" key v] by blast
  have "key \<in> set (detect_changes c m) \<longleftrightarrow> (\<exists>v. (key, v) \<in> set (vm_versions m) \<and> relevant_key c key \<and>
      hm_get (rc_local_versions c) key \<noteq> Some v)"
    unfolding detect_changes_def set_map set_filter image_iff by force
  then show ?thesis unfolding * by blast
qed

lemma contains_infix: "contains (p @ s @ r) s"
proof (induction p)
  case Nil
  have "starts_with (s @ r) s" by (auto simp: starts_with_iff)
  then show ?case by (cases "s @ r") auto
qed (simp add: starts_with_iff)

lemma get_update [simp]:
  "hm_get (rc_local_versions (update_local_version k v c)) = (hm_get (rc_local_versions c))(k \<mapsto> v)"
  by (simp add: update_local_version_def hm_get_insert)

text \<open>What every request keeps of the client.\<close>

definition same_client :: "rzid_client \<Rightarrow> rzid_client \<Rightarrow> bool" where
  "same_client c c' \<longleftrightarrow> rc_mode c' = rc_mode c \<and> rc_zone_id c' = rc_zone_id c \<and>
     rc_base_url c' = rc_base_url c"

lemma same_client_refl [simp]: "same_client c c"
  by (simp add: same_client_def)

lemma same_client_trans: "same_client a b \<Longrightarrow> same_client b c \<Longrightarrow> same_client a c"
  by (simp add: same_client_def)

lemma same_client_update [simp]: "same_client c (update_local_version k v c') \<longleftrightarrow> same_client c c'"
  by (simp add: same_client_def update_local_version_def)

definition quiet :: "rzid_client \<Rightarrow> rzid_client \<Rightarrow> bool" where
  "quiet c c' \<longleftrightarrow> same_client c c' \<and> rc_local_versions c' = rc_local_versions c"

lemma fetch_quiet:
  "fetch_version_manifest srv c = (r1, c') \<Longrightarrow> quiet c c'"
  "fetch_zone_routers srv z c = (r2, c') \<Longrightarrow> quiet c c'"
  "fetch_zone_segments srv z c = (r3, c') \<Longrightarrow> quiet c c'"
  "fetch_zone_shards srv z c = (r4, c') \<Longrightarrow> quiet c c'"
  "fetch_shard_segments srv z c = (r5, c') \<Longrightarrow> quiet c c'"
  by (auto simp: fetch_version_manifest_def fetch_zone_routers_def fetch_zone_segments_def
      fetch_zone_shards_def fetch_shard_segments_def http_get_def quiet_def same_client_def)

section \<open>An edge synchronisation settles\<close>

text \<open>
  A server whose answers have the versions of its manifest, and a manifest whose relevant keys
  are those of zones with plain names.
\<close>

definition honest :: "rzid_server \<Rightarrow> string \<Rightarrow> version_manifest \<Rightarrow> bool" where
  "honest srv base m \<longleftrightarrow> (\<forall>n z.
     (\<exists>resp. rz_routers srv n (base @ ''/zones/'' @ z @ ''/routers'') = Fetched resp \<and>
        (hm_has (vm_versions m) (routers_key z) \<longrightarrow>
           hm_get (vm_versions m) (routers_key z) = Some (zr_version resp))) \<and>
     (\<exists>resp. rz_segments srv n (base @ ''/zones/'' @ z @ ''/segments'') = Fetched resp \<and>
        (hm_has (vm_versions m) (segments_key z) \<longrightarrow>
           hm_get (vm_versions m) (segments_key z) = Some (zs_version resp))))"

definition tidy :: "rzid_client \<Rightarrow> version_manifest \<Rightarrow> bool" where
  "tidy c m \<longleftrightarrow> hm_ok (vm_versions m) \<and> (\<forall>key. hm_has (vm_versions m) key \<longrightarrow> relevant_key c key \<longrightarrow>
     (\<exists>z. CHR ''/'' \<notin> set z \<and> (key = routers_key z \<or> key = segments_key z)))"

definition recorded :: "rzid_client \<Rightarrow> version_manifest \<Rightarrow> string \<Rightarrow> bool" where
  "recorded c m key \<longleftrightarrow> hm_get (rc_local_versions c) key = hm_get (vm_versions m) key"

lemma zone_of_key_plain:
  assumes "CHR ''/'' \<notin> set z"
  shows "zone_of_key (routers_key z) = Some z" "zone_of_key (segments_key z) = Some z"
proof -
  have *: "split_char (CHR ''/'') (''zones'' @ CHR ''/'' # z @ CHR ''/'' # r) =
      ''zones'' # z # split_char (CHR ''/'') r" for r
    using split_char_append [of "CHR ''/''" "''zones''" "z @ CHR ''/'' # r"]
      split_char_append [OF assms, of r] by simp
  show "zone_of_key (routers_key z) = Some z" "zone_of_key (segments_key z) = Some z"
    using * [of "''routers''"] * [of "''segments''"]
    by (simp_all add: zone_of_key_def routers_key_def segments_key_def)
qed

lemma sync_zone_routers_recorded:
  assumes "honest srv (rc_base_url c) m" and "sync_zone_routers srv changed z s c n = Some (s', c', n')"
    and "set changed \<subseteq> {k. hm_has (vm_versions m) k}"
  shows "same_client c c'" "recorded c m k \<Longrightarrow> recorded c' m k"
    "routers_key z \<in> set changed \<Longrightarrow> recorded c' m (routers_key z)"
proof -
  have A: "same_client c c' \<and> (recorded c m k \<longrightarrow> recorded c' m k) \<and>
      (routers_key z \<in> set changed \<longrightarrow> recorded c' m (routers_key z))"
  proof (cases "routers_key z \<in> set changed")
    case True
    obtain r c1 where f: "fetch_zone_routers srv z c = (r, c1)" by fastforce
    from assms(1) obtain resp where resp:
      "rz_routers srv (rc_requests c) (rc_base_url c @ ''/zones/'' @ z @ ''/routers'') = Fetched resp"
      "hm_get (vm_versions m) (routers_key z) = Some (zr_version resp)"
      using True assms(3) unfolding honest_def by blast
    then have "r = Inr (zr_version resp, zr_routers resp)"
      using f by (auto simp: fetch_zone_routers_def http_get_def)
    then have "c' = update_local_version (routers_key z) (zr_version resp) c1"
      using assms(2) True f by (auto simp: sync_zone_routers_def split: bind_splits)
    with fetch_quiet(2) [OF f] resp(2) show ?thesis by (auto simp: recorded_def quiet_def)
  qed (use assms(2) in \<open>auto simp: sync_zone_routers_def\<close>)
  show "same_client c c'" using A by simp
  show "recorded c m k \<Longrightarrow> recorded c' m k" using A by simp
  show "routers_key z \<in> set changed \<Longrightarrow> recorded c' m (routers_key z)" using A by simp
qed

lemma sync_zone_segments_recorded:
  assumes "honest srv (rc_base_url c) m" and "sync_zone_segments srv changed z s c = (s', c')"
    and "set changed \<subseteq> {k. hm_has (vm_versions m) k}"
  shows "same_client c c'" "recorded c m k \<Longrightarrow> recorded c' m k"
    "segments_key z \<in> set changed \<Longrightarrow> recorded c' m (segments_key z)"
proof -
  have A: "same_client c c' \<and> (recorded c m k \<longrightarrow> recorded c' m k) \<and>
      (segments_key z \<in> set changed \<longrightarrow> recorded c' m (segments_key z))"
  proof (cases "segments_key z \<in> set changed")
    case True
    obtain r c1 where f: "fetch_zone_segments srv z c = (r, c1)" by fastforce
    from assms(1) obtain resp where resp:
      "rz_segments srv (rc_requests c) (rc_base_url c @ ''/zones/'' @ z @ ''/segments'') = Fetched resp"
      "hm_get (vm_versions m) (segments_key z) = Some (zs_version resp)"
      using True assms(3) unfolding honest_def by blast
    then have "r = Inr (zs_version resp, zs_segments resp)"
      using f by (auto simp: fetch_zone_segments_def http_get_def)
    then have "c' = update_local_version (segments_key z) (zs_version resp) c1"
      using assms(2) True f by (auto simp: sync_zone_segments_def)
    with fetch_quiet(3) [OF f] resp(2) show ?thesis by (auto simp: recorded_def quiet_def)
  qed (use assms(2) in \<open>auto simp: sync_zone_segments_def\<close>)
  show "same_client c c'" using A by simp
  show "recorded c m k \<Longrightarrow> recorded c' m k" using A by simp
  show "segments_key z \<in> set changed \<Longrightarrow> recorded c' m (segments_key z)" using A by simp
qed

lemma sync_zones_recorded:
  assumes "sync_zones srv changed zones s c n = Some (s', c', n')"
    and "honest srv (rc_base_url c) m" and "set changed \<subseteq> {k. hm_has (vm_versions m) k}"
  shows "same_client c c' \<and> (\<forall>k. recorded c m k \<longrightarrow> recorded c' m k) \<and>
    (\<forall>z\<in>set zones. \<forall>k\<in>{routers_key z, segments_key z}. k \<in> set changed \<longrightarrow> recorded c' m k)"
  using assms(1,2)
proof (induction zones arbitrary: s c n)
  case (Cons z zones)
  from Cons.prems(1) obtain s1 c1 n1 s2 c2 where
    r: "sync_zone_routers srv changed z s c n = Some (s1, c1, n1)"
    "sync_zone_segments srv changed z s1 c1 = (s2, c2)"
    "sync_zones srv changed zones s2 c2 n1 = Some (s', c', n')"
    by (auto split: bind_splits prod.splits)
  note A = sync_zone_routers_recorded [OF Cons.prems(2) r(1) assms(3)]
  have h1: "honest srv (rc_base_url c1) m" using A(1) Cons.prems(2) by (simp add: same_client_def)
  note B = sync_zone_segments_recorded [OF h1 r(2) assms(3)]
  have h2: "honest srv (rc_base_url c2) m" using B(1) h1 by (simp add: same_client_def)
  note C = Cons.IH [OF r(3) h2]
  have "same_client c c'" using A(1) B(1) C same_client_trans by blast
  with A B C show ?case by auto
qed simp

lemma hm_has_keys: "hm_has m k \<longleftrightarrow> k \<in> set (hm_keys m)"
  by (simp add: hm_keys_iff)

lemma valid_zones_iff: "z \<in> set (valid_zones m) \<longleftrightarrow> (\<exists>k. hm_has (vm_versions m) k \<and> zone_of_key k = Some z)"
proof -
  have "z \<in> set (valid_zones m) \<longleftrightarrow> (\<exists>k\<in>set (hm_keys (vm_versions m)). zone_of_key k \<noteq> None \<and> the (zone_of_key k) = z)"
    unfolding valid_zones_def List.map_filter_def set_remdups set_map set_filter by auto
  then show ?thesis unfolding hm_keys_iff [symmetric] by (auto; force)
qed

text \<open>
  After an edge synchronisation with an honest server, the same manifest gives no changes, so
  the next synchronisation with it does nothing.
\<close>

lemma sync_edge_settles:
  assumes mode: "rc_mode c = ModeEdge" and hon: "honest srv (rc_base_url c) m" and tidy: "tidy c m"
    and ho: "\<And>xs. set (ho xs) = set xs"
    and run: "sync_edge_state srv ho current m (detect_changes c m) c n = Some (r, c', n')"
  shows "detect_changes c' m = []"
proof -
  let ?changed = "detect_changes c m" and ?zones = "ho (valid_zones m)"
  have hm: "hm_ok (vm_versions m)" using tidy by (simp add: tidy_def)
  note D = detect_changes_iff [OF hm]
  from run obtain s s1 where z: "sync_zones srv ?changed ?zones s c n = Some (s1, c', n')"
    by (auto simp: sync_edge_state_def Let_def split: bind_splits)
  have "set ?changed \<subseteq> {k. hm_has (vm_versions m) k}" using D by auto
  note R = sync_zones_recorded [OF z hon this]
  have rel: "relevant_key c' k = relevant_key c k" for k
  proof -
    have "rc_mode c' = rc_mode c" "rc_zone_id c' = rc_zone_id c" using R by (simp_all add: same_client_def)
    then show ?thesis by (simp only: relevant_key_def)
  qed
  have "key \<notin> set (detect_changes c' m)" for key
  proof
    assume "key \<in> set (detect_changes c' m)"
    then obtain v where v: "relevant_key c key" "hm_get (vm_versions m) key = Some v"
      "hm_get (rc_local_versions c') key \<noteq> Some v" using D rel by blast
    then obtain z where z: "CHR ''/'' \<notin> set z" "key = routers_key z \<or> key = segments_key z"
      using tidy unfolding tidy_def by blast
    have "zone_of_key key = Some z" using z zone_of_key_plain by auto
    then have "z \<in> set ?zones" using v(2) ho by (auto simp: valid_zones_iff)
    then have "recorded c' m key"
    proof (cases "key \<in> set ?changed")
      case True
      then show ?thesis using R z(2) \<open>z \<in> set ?zones\<close> by blast
    next
      case False
      then have "recorded c m key" using D v(1,2) by (auto simp: recorded_def)
      then show ?thesis using R by blast
    qed
    with v(2,3) show False by (simp add: recorded_def)
  qed
  then show ?thesis by (cases "detect_changes c' m") auto
qed

section \<open>A zone synchronisation does not\<close>

text \<open>
  The keys a zone synchronisation records are that of its shards and those of shard segments;
  the manifest's key for the routers of the zone matches the test for changes all the same.
\<close>

definition own_key :: "rzid_client \<Rightarrow> string \<Rightarrow> bool" where
  "own_key c key \<longleftrightarrow> key = shards_key (rc_zone_id c) \<or> (\<exists>g. key = shard_segments_key g)"

lemma sync_topology_versions:
  assumes "sync_topology srv changed s c n = Some (s', c', n')" and "\<not> own_key c key"
  shows "same_client c c' \<and> hm_get (rc_local_versions c') key = hm_get (rc_local_versions c) key"
proof (cases "shards_key (rc_zone_id c) \<in> set changed \<or> shard_to_bridges s = []")
  case True
  obtain r c1 where f: "fetch_zone_shards srv (rc_zone_id c) c = (r, c1)" by fastforce
  have "c' = c1 \<or> (\<exists>v. c' = update_local_version (shards_key (rc_zone_id c)) v c1)"
    using assms(1) True f fetch_quiet(4) [OF f]
    by (auto simp: sync_topology_def quiet_def same_client_def split: sum.splits bind_splits)
  with fetch_quiet(4) [OF f] assms(2) show ?thesis by (auto simp: quiet_def own_key_def)
qed (use assms in \<open>auto simp: sync_topology_def\<close>)

lemma sync_shards_versions:
  "sync_shards srv m shards s c = (s', c') \<Longrightarrow> \<not> own_key c key \<Longrightarrow>
   same_client c c' \<and> hm_get (rc_local_versions c') key = hm_get (rc_local_versions c) key"
proof (induction shards arbitrary: s c)
  case (Cons g shards)
  obtain r c1 where f: "fetch_shard_segments srv g c = (r, c1)" by fastforce
  note q = fetch_quiet(5) [OF f, unfolded quiet_def]
  have "\<exists>s1 c2. sync_shards srv m shards s1 c2 = (s', c') \<and> same_client c c2 \<and>
      hm_get (rc_local_versions c2) key = hm_get (rc_local_versions c) key"
    using Cons.prems f q
    by (auto simp: own_key_def split: option.splits if_splits sum.splits prod.splits; fastforce)
  then obtain s1 c2 where c2: "sync_shards srv m shards s1 c2 = (s', c')" "same_client c c2"
    "hm_get (rc_local_versions c2) key = hm_get (rc_local_versions c) key" by blast
  have "\<not> own_key c2 key" using Cons.prems(2) c2(2) by (simp add: own_key_def same_client_def)
  from Cons.IH [OF c2(1) this] c2 same_client_trans show ?case by metis
qed simp

lemma sync_zone_state_versions:
  assumes "sync_zone_state srv current m changed c n = Some (r, c', n')" and "\<not> own_key c key"
  shows "same_client c c' \<and> hm_get (rc_local_versions c') key = hm_get (rc_local_versions c) key"
proof -
  from assms(1) obtain s s1 c1 s2 where
    t: "sync_topology srv changed s c n = Some (s1, c1, n')"
    "sync_shards srv m (hm_keys (shard_to_bridges s1)) s1 c1 = (s2, c')"
    by (auto simp: sync_zone_state_def Let_def split: bind_splits prod.splits)
  note A = sync_topology_versions [OF t(1) assms(2)]
  have "\<not> own_key c1 key" using A assms(2) by (simp add: own_key_def same_client_def)
  from sync_shards_versions [OF t(2) this] A same_client_trans show ?thesis by metis
qed

lemma routers_key_not_own: "\<not> own_key c (routers_key z)"
  by (auto simp: own_key_def routers_key_def shards_key_def shard_segments_key_def
      dest: arg_cong [of _ _ rev])

lemma relevant_own_routers: "rc_mode c = ModeZone \<Longrightarrow> relevant_key c (routers_key (rc_zone_id c))"
  using contains_infix [of "''zones/''" "rc_zone_id c" "''/routers''"]
  by (simp add: relevant_key_def routers_key_def)

lemma zone_never_settles:
  assumes mode: "rc_mode c = ModeZone" and new: "hm_get (rc_local_versions c) (routers_key (rc_zone_id c)) = None"
    and run: "sync_routing_state srv ho current c n = Some (r, c', n')"
  shows "same_client c c' \<and> hm_get (rc_local_versions c') (routers_key (rc_zone_id c)) = None"
    and "hm_ok (vm_versions m) \<Longrightarrow> hm_has (vm_versions m) (routers_key (rc_zone_id c)) \<Longrightarrow>
      detect_changes c' m \<noteq> []"
proof -
  obtain rm c1 where f: "fetch_version_manifest srv c = (rm, c1)" by fastforce
  note q = fetch_quiet(1) [OF f, unfolded quiet_def]
  have mode1: "rc_mode c1 = ModeZone" using mode q by (simp add: same_client_def)
  have "same_client c1 c' \<and> hm_get (rc_local_versions c') (routers_key (rc_zone_id c)) =
      hm_get (rc_local_versions c1) (routers_key (rc_zone_id c))"
  proof (cases rm)
    case (Inl e)
    with run f show ?thesis by (auto simp: sync_routing_state_def)
  next
    case (Inr manifest)
    show ?thesis
    proof (cases "detect_changes c1 manifest = []")
      case True
      with run f Inr show ?thesis by (auto simp: sync_routing_state_def)
    next
      case False
      with run f Inr mode1 obtain n1 where
        "sync_zone_state srv current manifest (detect_changes c1 manifest) c1 n = Some (r, c', n1)"
        by (auto simp: sync_routing_state_def Let_def split: bind_splits)
      from sync_zone_state_versions [OF this routers_key_not_own] show ?thesis by blast
    qed
  qed
  with q new show A: "same_client c c' \<and> hm_get (rc_local_versions c') (routers_key (rc_zone_id c)) = None"
    using same_client_trans by metis
  assume hm: "hm_ok (vm_versions m)" and has: "hm_has (vm_versions m) (routers_key (rc_zone_id c))"
  have "rc_mode c' = ModeZone" "rc_zone_id c' = rc_zone_id c" using A mode by (auto simp: same_client_def)
  then have "routers_key (rc_zone_id c) \<in> set (detect_changes c' m)"
    using A has relevant_own_routers [of c'] by (auto simp: detect_changes_iff [OF hm])
  then show "detect_changes c' m \<noteq> []" by auto
qed

section \<open>What is not fetched again\<close>

text \<open>
  Segments of a zone can only enter the edge table in a synchronisation that finds their key
  changed. Once the version is recorded, segments dropped for want of routers stay away.
\<close>

lemma sync_zones_unfetched:
  "sync_zones srv changed zones s c n = Some (s', c', n') \<Longrightarrow> edge_ok s \<Longrightarrow>
   segments_key z \<notin> set changed \<Longrightarrow> hm_get (segment_to_zone s') seg = Some z \<Longrightarrow>
   hm_get (segment_to_zone s) seg = Some z"
proof (induction zones arbitrary: s c n)
  case (Cons y zones)
  from Cons.prems(1) obtain s1 c1 n1 s2 c2 where
    r: "sync_zone_routers srv changed y s c n = Some (s1, c1, n1)"
    "sync_zone_segments srv changed y s1 c1 = (s2, c2)"
    "sync_zones srv changed zones s2 c2 n1 = Some (s', c', n')"
    by (auto split: bind_splits prod.splits)
  have s1: "edge_ok s1" "segment_to_zone s1 = segment_to_zone s"
    using r(1) Cons.prems(2) edge_table.ok_set_hops [OF Cons.prems(2)]
    by (auto simp: sync_zone_routers_def edge_table.segs_set_hops split: if_splits sum.splits prod.splits bind_splits)
  note s2 = sync_zone_segments_ok [OF r(2) s1(1)]
  have "hm_get (segment_to_zone s2) seg = Some z" using Cons.IH [OF r(3)] s2 Cons.prems(3,4) by blast
  moreover have "s2 = s1 \<or> y \<noteq> z \<and> (\<exists>segs. s2 = replace_zone_segments s1 y segs)"
    using r(2) Cons.prems(3) by (auto simp: sync_zone_segments_def split: if_splits sum.splits prod.splits)
  ultimately show ?case
    using s1 edge_table.segs_replace [OF s1(1), of y _ seg] by (auto split: if_splits)
qed simp

lemma sync_edge_unfetched:
  assumes "sync_edge_state srv ho (Some (Edge s)) m changed c n = Some (Inr (Some (Edge s')), c', n')"
    and ok: "edge_ok s" and "segments_key z \<notin> set changed" and net: "net_ok n"
    and seg: "hm_get (segment_to_zone s') seg = Some z"
  shows "hm_get (segment_to_zone s) seg = Some z"
proof -
  let ?zones = "ho (valid_zones m)"
  from assms(1) obtain s1 where z: "sync_zones srv changed ?zones (retain_valid_zones s ?zones) c n = Some (s1, c', n')"
    and s': "s' = edge_prune_segments s1 (\<lambda>zone. zone \<in> set (hm_keys (zone_to_routers s1)))"
    by (auto simp: sync_edge_state_def Let_def split: bind_splits if_splits)
  have r: "edge_ok (retain_valid_zones s ?zones)"
    using ok by (simp add: edge_ok_def retain_valid_zones_def)
  from sync_zones_ok [OF net r, of srv changed ?zones c] z have "edge_ok s1" by auto
  then have "hm_get (segment_to_zone s1) seg = Some z"
    using seg unfolding s' edge_prune_segments_def
    by (auto simp: hm_get_retain edge_ok_def split: option.splits if_splits)
  from sync_zones_unfetched [OF z r assms(3) this] ok show ?thesis
    by (auto simp: retain_valid_zones_def edge_ok_def hm_get_retain split: option.splits if_splits)
qed

section \<open>Shards of other zones\<close>

text \<open>A segment enters the zone table only from an answer for one of its shards and for its zone.\<close>

lemma sync_shards_source:
  "sync_shards srv m shards s c = (s', c') \<Longrightarrow> zone_ok s \<Longrightarrow>
   hm_get (segment_to_shard s') seg = Some g \<Longrightarrow> hm_get (segment_to_shard s) seg \<noteq> Some g \<Longrightarrow>
   g \<in> set shards \<and> (\<exists>k resp. rz_shard_segments srv k (rc_base_url c @ ''/shards/'' @ g @ ''/segments'') =
     Fetched resp \<and> sg_zone resp = rc_zone_id c \<and> seg \<in> set (sg_segments resp))"
proof (induction shards arbitrary: s c)
  case (Cons h shards)
  obtain r c1 where f: "fetch_shard_segments srv h c = (r, c1)" by fastforce
  note q = fetch_quiet(5) [OF f, unfolded quiet_def same_client_def]
  have next': ?case if "sync_shards srv m shards s c2 = (s', c')" "rc_base_url c2 = rc_base_url c"
    "rc_zone_id c2 = rc_zone_id c" for c2
    using Cons.IH [OF that(1) Cons.prems(2-4)] that(2,3) by auto
  show ?case
  proof (cases "\<exists>v segs. r = Inr (v, rc_zone_id c, segs) \<and> sync_shards srv m shards
      (replace_shard_segments s h segs) (update_local_version (shard_segments_key h) v c1) = (s', c')")
    case False
    then have "\<exists>c2. sync_shards srv m shards s c2 = (s', c') \<and> rc_base_url c2 = rc_base_url c \<and>
        rc_zone_id c2 = rc_zone_id c"
      using Cons.prems(1) f q by (auto split: option.splits if_splits sum.splits prod.splits)
    with next' show ?thesis by blast
  next
    case True
    then obtain v segs where t: "r = Inr (v, rc_zone_id c, segs)" "sync_shards srv m shards
      (replace_shard_segments s h segs) (update_local_version (shard_segments_key h) v c1) = (s', c')" by blast
    from t(1) f obtain resp where resp: "rz_shard_segments srv (rc_requests c)
        (rc_base_url c @ ''/shards/'' @ h @ ''/segments'') = Fetched resp"
      "sg_zone resp = rc_zone_id c" "sg_segments resp = segs"
      by (cases "rz_shard_segments srv (rc_requests c) (rc_base_url c @ ''/shards/'' @ h @ ''/segments'')")
         (auto simp: fetch_shard_segments_def http_get_def)
    show ?thesis
    proof (cases "hm_get (segment_to_shard (replace_shard_segments s h segs)) seg = Some g")
      case True
      with zone_table.segs_replace [OF Cons.prems(2), of h segs seg] Cons.prems(4) have "g = h" "seg \<in> set segs"
        by (auto split: if_splits)
      with resp show ?thesis by auto
    next
      case False
      from Cons.IH [OF t(2) zone_table.ok_replace [OF Cons.prems(2)] Cons.prems(3) False] q show ?thesis
        by (auto simp: update_local_version_def)
    qed
  qed
qed simp

end
