(* ===== verification/Forwarder.thy ===== *)
theory Forwarder
  imports World
begin

text \<open>
  The forwarder of \<open>src/forwarder.rs\<close>: from a segment to the hops of the routing snapshot, to a
  connection, to the reply. The state of a call is threaded through its two loops; a ghost log
  records every call of \<open>send_and_wait\<close>. What the other tasks do is given by a schedule: the
  events and the clock at each wait of the call (a request or the pause between attempts).
\<close>

section \<open>The code\<close>

definition GETSEGMENTS :: string where
  "GETSEGMENTS = ''GETSEGMENTS''"

definition GETCODECS :: string where
  "GETCODECS = ''__codecs__''"

record forwarder =
  fw_max_retries :: nat
  fw_codecs :: "string list"

definition forwarder_new :: "string list \<Rightarrow> forwarder" where
  "forwarder_new codecs = \<lparr>fw_max_retries = 3, fw_codecs = codecs\<rparr>"

definition with_max_retries :: "forwarder \<Rightarrow> nat \<Rightarrow> forwarder" where
  "with_max_retries fw max_retries = fw\<lparr>fw_max_retries := max_retries\<rparr>"

text \<open>\<open>codecs.join(",")\<close>\<close>

fun join_comma :: "string list \<Rightarrow> string" where
  "join_comma [] = ''''"
| "join_comma [s] = s"
| "join_comma (s # t # ss) = s @ '','' @ join_comma (t # ss)"

record schedule =
  sc_events :: "nat \<Rightarrow> world_event list"
  sc_now :: "nat \<Rightarrow> int"

record send =
  sd_conn :: nat
  sd_id :: u32
  sd_frame :: "byte list"
  sd_result :: "rz_error + byte list"

record call =
  cl_world :: world
  cl_frame :: "byte list"
  cl_sent :: bool
  cl_waits :: nat
  cl_log :: "send list"

text \<open>The fixed parts of a call.\<close>

record job =
  jb_segment :: string
  jb_offset :: nat
  jb_clrid :: u32
  jb_write :: bool

type_synonym fwd_result = "forward_error + byte list"

text \<open>The reply with the id of the client; \<open>response[0]\<close> of the trace would panic on an empty one.\<close>

definition restore_clrid :: "u32 \<Rightarrow> byte list \<Rightarrow> byte list run" where
  "restore_clrid original_clrid response = do {
     _ \<leftarrow> rd response 0;
     if length response \<ge> 9 then patch response 1 5 (u32_le original_clrid) else Some response
   }"

text \<open>
  One hop: \<open>None\<close> in the first component is \<open>continue\<close>, \<open>Some r\<close> is \<open>return r\<close>.
\<close>

definition try_hop ::
  "site \<Rightarrow> schedule \<Rightarrow> job \<Rightarrow> string \<Rightarrow> call \<Rightarrow> (fwd_result option \<times> call) run" where
  "try_hop site sched job hop_id s =
     (let w = cl_world s in
      case registry_get (wd_net w) hop_id of
        None \<Rightarrow> Some (None, s)
      | Some h \<Rightarrow>
          (let (picked, n) = net_next_connection h (wd_net w); w = w\<lparr>wd_net := n\<rparr> in
           case picked of
             None \<Rightarrow> Some (None, s\<lparr>cl_world := on_net (spawn_resolve h) w\<rparr>)
           | Some c \<Rightarrow>
               if is_closed (conn_at w c) then Some (None, s\<lparr>cl_world := w\<rparr>)
               else
                 (let (new_clrid, conn) = next_corr_id (conn_at w c);
                      w = put_conn c conn w;
                      s = s\<lparr>cl_world := w\<rparr>;
                      frame = cl_frame s;
                      off = jb_offset job
                  in if off + 4 > length frame then
                       Some (Some (Inl (FE_Internal ''frame too short for CLRID'')), s)
                     else do {
                       _ \<leftarrow> slice frame off (off + 4);
                       frame \<leftarrow> patch frame off (off + 4) (u32_le new_clrid);
                       (r, w) \<leftarrow> request site (sc_events sched (cl_waits s)) (sc_now sched (cl_waits s))
                         c frame new_clrid w;
                       let s = s\<lparr>cl_world := w, cl_frame := frame, cl_waits := Suc (cl_waits s),
                         cl_log := cl_log s @ [\<lparr>sd_conn = c, sd_id = new_clrid, sd_frame = frame,
                           sd_result = r\<rparr>]\<rparr>;
                       case r of
                         Inr response \<Rightarrow> do {
                           restored \<leftarrow> restore_clrid (jb_clrid job) response;
                           Some (Some (Inr restored), s)
                         }
                       | Inl RZ_ConnectionClosed \<Rightarrow>
                           Some (None, s\<lparr>cl_world := put_conn c (close (conn_at w c)) w\<rparr>)
                       | Inl _ \<Rightarrow>
                           (let s = s\<lparr>cl_sent := True\<rparr> in
                            if jb_write job then Some (Some (Inl FE_Timeout), s)
                            else Some (None, s\<lparr>cl_world := put_conn c (close (conn_at w c)) w\<rparr>))
                     })))"

text \<open>The hops of one attempt, from the start index around.\<close>

fun try_hops ::
  "site \<Rightarrow> schedule \<Rightarrow> job \<Rightarrow> string list \<Rightarrow> nat \<Rightarrow> nat list \<Rightarrow> call \<Rightarrow> (fwd_result option \<times> call) run"
where
  "try_hops site sched job hop_ids start_idx [] s = Some (None, s)"
| "try_hops site sched job hop_ids start_idx (i # is) s = do {
     hop_id \<leftarrow> rd hop_ids ((start_idx + i) mod length hop_ids);
     (out, s) \<leftarrow> try_hop site sched job hop_id s;
     case out of
       Some r \<Rightarrow> Some (Some r, s)
     | None \<Rightarrow> try_hops site sched job hop_ids start_idx is s
   }"

text \<open>The attempts; the pause between two of them is a wait.\<close>

fun attempts ::
  "site \<Rightarrow> schedule \<Rightarrow> job \<Rightarrow> nat \<Rightarrow> nat list \<Rightarrow> call \<Rightarrow> (fwd_result \<times> call) run"
where
  "attempts site sched job max_retries [] s = Some (Inl FE_NetworkError, s)"
| "attempts site sched job max_retries (attempt # rest) s =
     (let snapshot = wd_routing (cl_world s);
          hop_ids = snapshot_lookup snapshot (jb_segment job)
      in if hop_ids = [] then Some (Inl (FE_UnknownSegment (jb_segment job)), s)
         else do {
           let start_idx = unat (jb_clrid job) mod length hop_ids;
           (out, s) \<leftarrow> try_hops site sched job hop_ids start_idx [0..<length hop_ids] s;
           case out of
             Some r \<Rightarrow> Some (r, s)
           | None \<Rightarrow>
               if jb_write job \<and> cl_sent s then Some (Inl FE_Timeout, s)
               else if attempt = max_retries - 1 then Some (Inl FE_NetworkError, s)
               else do {
                 w \<leftarrow> world_run site (sc_events sched (cl_waits s)) (cl_world s);
                 attempts site sched job max_retries rest
                   (s\<lparr>cl_world := w, cl_waits := Suc (cl_waits s)\<rparr>)
               }
         })"

definition start_call :: "world \<Rightarrow> byte list \<Rightarrow> call" where
  "start_call w frame = \<lparr>cl_world = w, cl_frame = frame, cl_sent = False, cl_waits = 0, cl_log = []\<rparr>"

definition forward ::
  "site \<Rightarrow> schedule \<Rightarrow> forwarder \<Rightarrow> byte list \<Rightarrow> string \<Rightarrow> nat \<Rightarrow> u32 \<Rightarrow> bool \<Rightarrow> world \<Rightarrow> (fwd_result \<times> call) run"
where
  "forward site sched fw frame segment clrid_offset original_clrid is_write w =
     (let s = start_call w frame in
      if segment = GETSEGMENTS then do {
        response \<leftarrow> serialize_segments (wd_routing w) original_clrid;
        Some (Inr response, s)
      }
      else if segment = GETCODECS then do {
        serialized \<leftarrow> serialize_codecs original_clrid (as_bytes (join_comma (fw_codecs fw)));
        Some (Inr serialized, s)
      }
      else attempts site sched
        \<lparr>jb_segment = segment, jb_offset = clrid_offset, jb_clrid = original_clrid, jb_write = is_write\<rparr>
        (fw_max_retries fw) [0..<fw_max_retries fw] s)"

section \<open>Requests of one hop\<close>

text \<open>The specification of a restored reply: the same message under another id.\<close>

definition with_clrid :: "u32 \<Rightarrow> byte list \<Rightarrow> byte list" where
  "with_clrid cid f = take 1 f @ u32_le cid @ drop 5 f"

lemma restore_clrid_ok:
  assumes "reply_ok i response"
  shows "restore_clrid cid response = Some (with_clrid cid response)"
  using reply_ok_length [OF assms]
  by (auto simp: restore_clrid_def rd_def patch_def with_clrid_def)

lemma length_u32_le [simp]: "length (u32_le x) = 4"
  by simp

lemma with_clrid_reply_ok:
  assumes "reply_ok i f"
  shows "reply_ok cid (with_clrid cid f) \<and> drop 5 (with_clrid cid f) = drop 5 f"
proof -
  have l: "9 \<le> length f" using reply_ok_length [OF assms] .
  then obtain b r where f: "f = b # r" by (cases f) auto
  have d: "drop 5 (with_clrid cid f) = drop 5 f" using f by (simp add: with_clrid_def)
  moreover have "reply_clrid (with_clrid cid f) = cid"
    using f by (simp add: reply_clrid_def with_clrid_def from_to_le_u32)
  moreover have "length (with_clrid cid f) = length f" using l by (simp add: with_clrid_def)
  moreover have "with_clrid cid f ! 0 = f ! 0" using f by (simp add: with_clrid_def)
  moreover have "reply_len (with_clrid cid f) = reply_len f" by (simp add: reply_len_def d)
  ultimately show ?thesis using assms by (simp add: reply_ok_def)
qed

section \<open>What a call does\<close>

text \<open>Frames that differ in the four id bytes only.\<close>

definition same_but :: "nat \<Rightarrow> byte list \<Rightarrow> byte list \<Rightarrow> bool" where
  "same_but off f f' \<longleftrightarrow> length f' = length f \<and> take off f' = take off f \<and> drop (off + 4) f' = drop (off + 4) f"

text \<open>
  A send of the log: the frame of the client with a fresh, non-zero id in its id bytes; its
  reply, if there is one, carries that id.
\<close>

definition send_ok :: "job \<Rightarrow> byte list \<Rightarrow> send \<Rightarrow> bool" where
  "send_ok job f0 e \<longleftrightarrow> jb_offset job + 4 \<le> length f0 \<and> sd_id e \<noteq> 0 \<and>
     sd_frame e = take (jb_offset job) f0 @ u32_le (sd_id e) @ drop (jb_offset job + 4) f0 \<and>
     (\<forall>response. sd_result e = Inr response \<longrightarrow> reply_ok (sd_id e) response)"

text \<open>The results after which a call goes on.\<close>

definition retryable :: "bool \<Rightarrow> send \<Rightarrow> bool" where
  "retryable is_write e \<longleftrightarrow> sd_result e = Inl RZ_ConnectionClosed \<or>
     \<not> is_write \<and> (\<exists>err. sd_result e = Inl err)"

text \<open>How the sends of a call explain its result.\<close>

fun explains :: "job \<Rightarrow> byte list \<Rightarrow> send list \<Rightarrow> fwd_result option \<Rightarrow> bool" where
  "explains job f0 es None \<longleftrightarrow> (\<forall>e\<in>set es. retryable (jb_write job) e)"
| "explains job f0 es (Some (Inr reply)) \<longleftrightarrow>
     (\<exists>es' e response. es = es' @ [e] \<and> (\<forall>e\<in>set es'. retryable (jb_write job) e) \<and>
        sd_result e = Inr response \<and> reply = with_clrid (jb_clrid job) response)"
| "explains job f0 es (Some (Inl FE_Timeout)) \<longleftrightarrow> jb_write job \<and>
     (\<exists>es' e err. es = es' @ [e] \<and> (\<forall>e\<in>set es'. retryable (jb_write job) e) \<and>
        sd_result e = Inl err \<and> err \<noteq> RZ_ConnectionClosed)"
| "explains job f0 es (Some (Inl (FE_Internal m))) \<longleftrightarrow>
     (\<forall>e\<in>set es. retryable (jb_write job) e) \<and> length f0 < jb_offset job + 4"
| "explains job f0 es (Some (Inl FE_NetworkError)) \<longleftrightarrow> (\<forall>e\<in>set es. retryable (jb_write job) e)"
| "explains job f0 es (Some (Inl (FE_UnknownSegment m))) \<longleftrightarrow>
     (\<forall>e\<in>set es. retryable (jb_write job) e) \<and> m = jb_segment job"

definition outcome :: "job \<Rightarrow> byte list \<Rightarrow> call \<Rightarrow> fwd_result option \<Rightarrow> call \<Rightarrow> nat \<Rightarrow> bool" where
  "outcome job f0 s out s' n \<longleftrightarrow> world_le (cl_world s) (cl_world s') \<and>
     same_but (jb_offset job) f0 (cl_frame s') \<and> (jb_write job \<and> out = None \<longrightarrow> cl_sent s' = cl_sent s) \<and>
     (\<exists>es. cl_log s' = cl_log s @ es \<and> length es \<le> n \<and> (\<forall>e\<in>set es. send_ok job f0 e) \<and>
        explains job f0 es out)"

lemma explains_more:
  assumes "\<forall>e\<in>set es. retryable (jb_write job) e" and "explains job f0 es' out"
  shows "explains job f0 (es @ es') out"
proof -
  have two: "\<exists>fs f err. es @ es' = fs @ [f] \<and> (\<forall>e\<in>set fs. retryable (jb_write job) e) \<and> P f err"
    if "es' = gs @ [f]" "\<forall>e\<in>set gs. retryable (jb_write job) e" "P f err" for gs f err
      and P :: "send \<Rightarrow> 'b \<Rightarrow> bool"
    using assms(1) that by (intro exI [of _ "es @ gs"] exI [of _ f] exI [of _ err]) auto
  show ?thesis
    using assms(2)
  proof (cases "(job, f0, es', out)" rule: explains.cases)
    case (2 job' f0' es'' reply)
    with assms(2) obtain gs f response where "es' = gs @ [f]" "\<forall>e\<in>set gs. retryable (jb_write job) e"
      "sd_result f = Inr response \<and> reply = with_clrid (jb_clrid job) response" by auto
    from two [of gs f "\<lambda>f response. sd_result f = Inr response \<and> reply = with_clrid (jb_clrid job) response",
        OF this] 2 show ?thesis by auto
  next
    case (3 job' f0' es'')
    with assms(2) obtain gs f err where "es' = gs @ [f]" "\<forall>e\<in>set gs. retryable (jb_write job) e"
      "sd_result f = Inl err \<and> err \<noteq> RZ_ConnectionClosed" by auto
    from two [of gs f "\<lambda>f err. sd_result f = Inl err \<and> err \<noteq> RZ_ConnectionClosed", OF this] 3 assms(2)
    show ?thesis by auto
  qed (use assms in auto)
qed

lemma outcome_trans:
  assumes "outcome job f0 s None s1 m" and "outcome job f0 s1 out s2 n"
  shows "outcome job f0 s out s2 (m + n)"
proof -
  obtain es where es: "cl_log s1 = cl_log s @ es" "length es \<le> m" "\<forall>e\<in>set es. send_ok job f0 e"
    "explains job f0 es None" using assms(1) by (auto simp: outcome_def)
  obtain es' where es': "cl_log s2 = cl_log s1 @ es'" "length es' \<le> n" "\<forall>e\<in>set es'. send_ok job f0 e"
    "explains job f0 es' out" using assms(2) by (auto simp: outcome_def)
  have "explains job f0 (es @ es') out" using es(4) es'(4) by (intro explains_more) auto
  moreover have "world_le (cl_world s) (cl_world s2)"
    using assms world_le_trans by (auto simp: outcome_def)
  ultimately show ?thesis
    using assms es es' by (auto simp: outcome_def intro!: exI [of _ "es @ es'"])
qed

lemma outcome_mono: "outcome job f0 s out s' m \<Longrightarrow> m \<le> n \<Longrightarrow> outcome job f0 s out s' n"
  by (auto simp: outcome_def)

lemma outcome_quiet:
  assumes "world_le (cl_world s) w" and "same_but (jb_offset job) f0 (cl_frame s)"
    and "cl_frame s' = cl_frame s" "cl_sent s' = cl_sent s" "cl_log s' = cl_log s" "cl_world s' = w"
  shows "outcome job f0 s None s' n"
  using assms by (simp add: outcome_def)

text \<open>The effect of picking a connection and of taking an id, on the world.\<close>

lemma picked_le:
  assumes ok: "world_ok w" and h: "registry_get (wd_net w) hop_id = Some h"
    and p: "net_next_connection h (wd_net w) = (picked, n)"
  shows "world_le w (w\<lparr>wd_net := n\<rparr>)" and "h < nt_next n"
    and "picked = Some c \<Longrightarrow> conn_exists (w\<lparr>wd_net := n\<rparr>) c"
    and "world_le w (on_net (spawn_resolve h) (w\<lparr>wd_net := n\<rparr>))"
proof -
  have net: "net_ok (wd_net w)" using ok by (simp add: world_ok_def)
  have hn: "h < nt_next (wd_net w)" using net_okD(2) [OF net] h by (simp add: registry_get_def)
  note N = net_next_connection_ok [OF net p hn]
  then have n: "net_ok n" "nt_arena n = nt_arena (wd_net w)" "nt_next n = nt_next (wd_net w)" by auto
  from local_step_le [OF ok n(1), of "{}"] n show "world_le w (w\<lparr>wd_net := n\<rparr>)" by simp
  show "h < nt_next n" using hn n by simp
  show "picked = Some c \<Longrightarrow> conn_exists (w\<lparr>wd_net := n\<rparr>) c" using N n(2) by (simp add: conn_exists_def)
  have "net_ok (spawn_resolve h n)" using n hn by (intro spawn_resolve_ok) auto
  from local_step_le [OF ok this, of "{}"] n
  show "world_le w (on_net (spawn_resolve h) (w\<lparr>wd_net := n\<rparr>))"
    by (simp add: on_net_def spawn_resolve_def)
qed

lemma next_id_le:
  assumes ok: "world_ok w" and c: "conn_exists w c" and i: "next_corr_id (conn_at w c) = (i, conn)"
  shows "world_le w (put_conn c conn w)" and "i \<noteq> 0"
proof -
  have conn: "conn = snd (next_corr_id (conn_at w c))" using i by simp
  have "conn_ok conn" using world_conn_ok [OF ok c] by (simp add: conn conn_ok_next_corr_id)
  moreover have "conn_le (conn_at w c) conn" by (simp add: conn next_corr_id_cases conn_le_def)
  ultimately show "world_le w (put_conn c conn w)" by (rule put_conn_le [OF ok])
  show "i \<noteq> 0" using next_corr_id_not_0 [of "conn_at w c"] i by simp
qed

lemma close_conn_le:
  assumes "world_ok w" and "conn_exists w c"
  shows "world_le w (put_conn c (close (conn_at w c)) w)"
  using close_le [OF world_conn_ok [OF assms]] conn_ok_close [OF world_conn_ok [OF assms]]
  by (intro put_conn_le [OF assms(1)]) auto

text \<open>One hop: at most one send, which explains what the call does next.\<close>

lemma try_hop_outcome:
  assumes ok: "world_ok (cl_world s)" and same: "same_but (jb_offset job) f0 (cl_frame s)"
  shows "\<exists>out s'. try_hop site sched job hop_id s = Some (out, s') \<and> outcome job f0 s out s' 1"
proof (cases "registry_get (wd_net (cl_world s)) hop_id")
  case None
  with ok same show ?thesis
    by (auto simp: try_hop_def Let_def intro!: outcome_quiet world_le_refl)
next
  case (Some h)
  obtain picked n where p: "net_next_connection h (wd_net (cl_world s)) = (picked, n)" by fastforce
  note P = picked_le [OF ok Some p]
  define w1 where "w1 = cl_world s\<lparr>wd_net := n\<rparr>"
  note unf = try_hop_def Some p Let_def
  show ?thesis
  proof (cases picked)
    case None
    with same P(4) show ?thesis
      by (simp add: unf) (rule outcome_quiet [where w = "on_net (spawn_resolve h) w1"], simp_all add: w1_def)
  next
    case c: (Some c)
    have w1: "world_le (cl_world s) w1" and ex: "conn_exists w1 c"
      using P(1) P(3) c by (auto simp: w1_def)
    show ?thesis
    proof (cases "is_closed (conn_at w1 c)")
      case True
      with same w1 show ?thesis by (auto simp: unf c w1_def intro!: outcome_quiet)
    next
      case open': False
      obtain i conn where i: "next_corr_id (conn_at w1 c) = (i, conn)" by fastforce
      define w2 where "w2 = put_conn c conn w1"
      note I = next_id_le [OF world_le_ok [OF w1] ex i]
      have w2: "world_le (cl_world s) w2" using w1 I(1) world_le_trans w2_def by blast
      have ex2: "conn_exists w2 c" using ex by (simp add: w2_def)
      show ?thesis
      proof (cases "jb_offset job + 4 > length (cl_frame s)")
        case True
        then have "length f0 < jb_offset job + 4" using same by (simp add: same_but_def)
        with True same w2 open' i show ?thesis
          by (simp add: unf c outcome_def flip: w1_def) (simp add: w2_def)
      next
        case False
        define f where "f = take (jb_offset job) (cl_frame s) @ u32_le i @ drop (jb_offset job + 4) (cl_frame s)"
        have f0: "f = take (jb_offset job) f0 @ u32_le i @ drop (jb_offset job + 4) f0"
          "jb_offset job + 4 \<le> length f0" and same': "same_but (jb_offset job) f0 f"
          using same False by (auto simp: same_but_def f_def)
        let ?ev = "sc_events sched (cl_waits s)" and ?now = "sc_now sched (cl_waits s)"
        from request_ok [OF world_le_ok [OF w2] ex2, of site ?ev ?now f i] obtain r w3 where
          r: "request site ?ev ?now c f i w2 = Some (r, w3)" "world_le w2 w3"
          "\<forall>response. r = Inr response \<longrightarrow> reply_ok i response" by blast
        let ?e = "\<lparr>sd_conn = c, sd_id = i, sd_frame = f, sd_result = r\<rparr>"
        define s3 where "s3 = s\<lparr>cl_world := w3, cl_frame := f, cl_waits := Suc (cl_waits s),
          cl_log := cl_log s @ [?e]\<rparr>"
        have w3: "world_le (cl_world s) w3" using w2 r(2) by (rule world_le_trans)
        have ex3: "conn_exists w3 c" using r(2) ex2 by (simp add: world_le_def)
        have w4: "world_le (cl_world s) (put_conn c (close (conn_at w3 c)) w3)"
          using w3 close_conn_le [OF world_le_ok [OF w3] ex3] by (rule world_le_trans)
        have e: "send_ok job f0 ?e" using f0 I(2) r(3) by (simp add: send_ok_def)
        have run: "try_hop site sched job hop_id s = (case r of
            Inr response \<Rightarrow> do {
              restored \<leftarrow> restore_clrid (jb_clrid job) response;
              Some (Some (Inr restored), s3) }
          | Inl RZ_ConnectionClosed \<Rightarrow> Some (None, s3\<lparr>cl_world := put_conn c (close (conn_at w3 c)) w3\<rparr>)
          | Inl _ \<Rightarrow>
              if jb_write job then Some (Some (Inl FE_Timeout), s3\<lparr>cl_sent := True\<rparr>)
              else Some (None, s3\<lparr>cl_sent := True, cl_world := put_conn c (close (conn_at w3 c)) w3\<rparr>))"
          using open' i False r(1)
          by (simp add: unf c slice_in patch_in f_def s3_def flip: w1_def w2_def
              split: sum.split rz_error.split)
        have O: "outcome job f0 s out s' 1"
          if "world_le (cl_world s) (cl_world s')" "cl_frame s' = f" "cl_log s' = cl_log s @ [?e]"
            "jb_write job \<and> out = None \<longrightarrow> cl_sent s' = cl_sent s" "explains job f0 [?e] out" for out s'
          using that e same' by (auto simp: outcome_def)
        show ?thesis
        proof (cases r)
          case (Inr response)
          then have "restore_clrid (jb_clrid job) response = Some (with_clrid (jb_clrid job) response)"
            using r(3) restore_clrid_ok by blast
          with Inr run w3 show ?thesis
            by (intro exI conjI, simp, intro O) (simp_all add: s3_def)
        next
          case (Inl err)
          show ?thesis
          proof (cases "err = RZ_ConnectionClosed")
            case True
            with Inl run w4 show ?thesis
              by (intro exI conjI, simp, intro O) (simp_all add: s3_def retryable_def)
          next
            case False
            then have run': "try_hop site sched job hop_id s =
                (if jb_write job then Some (Some (Inl FE_Timeout), s3\<lparr>cl_sent := True\<rparr>)
                 else Some (None, s3\<lparr>cl_sent := True, cl_world := put_conn c (close (conn_at w3 c)) w3\<rparr>))"
              using run Inl by (cases err) simp_all
            show ?thesis
            proof (cases "jb_write job")
              case True
              with run' Inl False w3 show ?thesis
                by (intro exI conjI, simp, intro O) (simp_all add: s3_def)
            next
              case nw: False
              with run' Inl w4 show ?thesis
                by (intro exI conjI, simp, intro O) (simp_all add: s3_def retryable_def)
            qed
          qed
        qed
      qed
    qed
  qed
qed

text \<open>All hops of an attempt: at most one send each.\<close>

lemma try_hops_outcome:
  assumes "world_ok (cl_world s)" and "same_but (jb_offset job) f0 (cl_frame s)" and "hop_ids \<noteq> []"
  shows "\<exists>out s'. try_hops site sched job hop_ids start is s = Some (out, s') \<and>
    outcome job f0 s out s' (length is)"
  using assms
proof (induction "is" arbitrary: s)
  case Nil
  then show ?case by (auto simp: outcome_def world_le_refl)
next
  case (Cons i js)
  let ?id = "hop_ids ! ((start + i) mod length hop_ids)"
  have rd: "rd hop_ids ((start + i) mod length hop_ids) = Some ?id"
    using Cons.prems(3) by (simp add: rd_in)
  from try_hop_outcome [OF Cons.prems(1,2), of site sched ?id] obtain out s1 where
    s1: "try_hop site sched job ?id s = Some (out, s1)" "outcome job f0 s out s1 1" by blast
  show ?case
  proof (cases out)
    case (Some r)
    with s1 rd show ?thesis by (auto intro: outcome_mono)
  next
    case None
    have "world_ok (cl_world s1)" "same_but (jb_offset job) f0 (cl_frame s1)"
      using s1(2) by (auto simp: outcome_def dest: world_le_ok)
    from Cons.IH [OF this Cons.prems(3)] obtain out' s2 where
      s2: "try_hops site sched job hop_ids start js s1 = Some (out', s2)"
      "outcome job f0 s1 out' s2 (length js)" by blast
    have "outcome job f0 s out' s2 (1 + length js)"
      using s1(2) s2(2) None outcome_trans by blast
    with s1(1) s2(1) rd None show ?thesis by simp
  qed
qed

text \<open>
  All attempts; for a write, \<open>request_sent\<close> is never set when an attempt ends, so the check
  after the inner loop is never taken. \<open>K\<close> bounds the number of hops of the segment in the snapshots of the run.
\<close>

definition hops_bound :: "schedule \<Rightarrow> string \<Rightarrow> nat \<Rightarrow> routing_snapshot \<Rightarrow> bool" where
  "hops_bound sched segment K snap \<longleftrightarrow> length (snapshot_lookup snap segment) \<le> K \<and>
     (\<forall>i snap'. WE_Install snap' \<in> set (sc_events sched i) \<longrightarrow> length (snapshot_lookup snap' segment) \<le> K)"

lemma world_run_routing:
  "world_run site es w = Some w' \<Longrightarrow> wd_routing w' = wd_routing w \<or> WE_Install (wd_routing w') \<in> set es"
proof (induction es arbitrary: w)
  case (Cons e es)
  then obtain w1 where w1: "world_step site e w = Some w1" "world_run site es w1 = Some w'"
    by (auto split: bind_splits)
  have "wd_routing w1 = wd_routing w \<or> e = WE_Install (wd_routing w1)"
    using w1(1) by (cases e) (auto simp: on_net_def split: bind_splits)
  with Cons.IH [OF w1(2)] show ?case by auto
qed simp

lemma put_conn_routing: "wd_routing (put_conn c x w) = wd_routing w"
  by simp

lemma request_routing:
  assumes "request site es now c frame cid w = Some (r, w')"
  shows "wd_routing w' = wd_routing w \<or> WE_Install (wd_routing w') \<in> set es"
  using assms unfolding request_def
  by (auto simp: Let_def split: bind_splits sum.splits dest!: world_run_routing)

lemma try_hop_routing:
  assumes "try_hop site sched job hop_id s = Some (out, s')"
  shows "wd_routing (cl_world s') = wd_routing (cl_world s) \<or>
    (\<exists>i. WE_Install (wd_routing (cl_world s')) \<in> set (sc_events sched i))"
  using assms unfolding try_hop_def
  by (auto simp: Let_def on_net_def split: bind_splits sum.splits option.splits prod.splits if_splits
      rz_error.splits dest!: request_routing)

lemma try_hops_routing:
  "try_hops site sched job hop_ids start is s = Some (out, s') \<Longrightarrow>
   wd_routing (cl_world s') = wd_routing (cl_world s) \<or>
    (\<exists>i. WE_Install (wd_routing (cl_world s')) \<in> set (sc_events sched i))"
proof (induction "is" arbitrary: s)
  case (Cons i js)
  then obtain hop_id out1 s1 where s1: "try_hop site sched job hop_id s = Some (out1, s1)"
    "(case out1 of Some r \<Rightarrow> Some (Some r, s1) | None \<Rightarrow> try_hops site sched job hop_ids start js s1)
      = Some (out, s')" by (auto split: bind_splits)
  with Cons.IH [of s1] try_hop_routing [OF s1(1)] show ?case by (cases out1) auto
qed simp

lemma hops_bound_step:
  assumes "hops_bound sched segment K snap"
    and "snap' = snap \<or> (\<exists>i. WE_Install snap' \<in> set (sc_events sched i))"
  shows "hops_bound sched segment K snap'"
  using assms by (auto simp: hops_bound_def)

lemma attempts_outcome:
  assumes "world_ok (cl_world s)" and "same_but (jb_offset job) f0 (cl_frame s)"
    and "jb_write job \<longrightarrow> \<not> cl_sent s"
  shows "\<exists>r s' n. attempts site sched job m js s = Some (r, s') \<and> outcome job f0 s (Some r) s' n \<and>
    (\<forall>K. hops_bound sched (jb_segment job) K (wd_routing (cl_world s)) \<longrightarrow> n \<le> length js * K)"
  using assms
proof (induction js arbitrary: s)
  case Nil
  then show ?case by (auto simp: outcome_def world_le_refl)
next
  case (Cons attempt rest)
  let ?hops = "snapshot_lookup (wd_routing (cl_world s)) (jb_segment job)"
  let ?bound = "\<lambda>K. hops_bound sched (jb_segment job) K"
  have K: "length ?hops \<le> K" if "?bound K (wd_routing (cl_world s))" for K
    using that by (simp add: hops_bound_def)
  show ?case
  proof (cases "?hops = []")
    case True
    with Cons.prems show ?thesis by (auto simp: outcome_def world_le_refl)
  next
    case False
    let ?start = "unat (jb_clrid job) mod length ?hops"
    from try_hops_outcome [OF Cons.prems(1,2) False, of site sched ?start "[0..<length ?hops]"]
    obtain out s1 where s1: "try_hops site sched job ?hops ?start [0..<length ?hops] s = Some (out, s1)"
      "outcome job f0 s out s1 (length ?hops)" by auto
    have first: "length ?hops \<le> length (attempt # rest) * K"
      if "?bound K (wd_routing (cl_world s))" for K
      using K [OF that] by (simp add: trans_le_add1)
    show ?thesis
    proof (cases out)
      case (Some r)
      with s1 False first show ?thesis by (auto simp: Let_def)
    next
      case None
      have stop: "outcome job f0 s (Some (Inl FE_NetworkError)) s1 (length ?hops)"
        using s1(2) None by (auto simp: outcome_def)
      have go: "\<not> (jb_write job \<and> cl_sent s1)"
        using s1(2) None Cons.prems(3) by (auto simp: outcome_def)
      show ?thesis
      proof (cases "attempt = m - 1")
        case True
        with s1(1) None False go stop first show ?thesis by (auto simp: Let_def)
      next
        case False': False
        from world_run_ok [of "cl_world s1" site "sc_events sched (cl_waits s1)"] s1(2) obtain w where
          w: "world_run site (sc_events sched (cl_waits s1)) (cl_world s1) = Some w"
          "world_le (cl_world s1) w" by (auto simp: outcome_def dest: world_le_ok)
        let ?s2 = "s1\<lparr>cl_world := w, cl_waits := Suc (cl_waits s1)\<rparr>"
        have o2: "outcome job f0 s None ?s2 (length ?hops)"
          using s1(2) None w(2) world_le_trans by (auto simp: outcome_def)
        have b: "?bound K (wd_routing (cl_world ?s2))" if "?bound K (wd_routing (cl_world s))" for K
          using that try_hops_routing [OF s1(1)] world_run_routing [OF w(1)]
          by (auto intro: hops_bound_step)
        have "world_ok (cl_world ?s2)" "same_but (jb_offset job) f0 (cl_frame ?s2)"
          using o2 by (auto simp: outcome_def dest: world_le_ok)
        moreover have "jb_write job \<longrightarrow> \<not> cl_sent ?s2" using go by auto
        ultimately obtain r s' n where
          r: "attempts site sched job m rest ?s2 = Some (r, s')"
          "outcome job f0 ?s2 (Some r) s' n"
          "\<forall>K. ?bound K (wd_routing (cl_world ?s2)) \<longrightarrow> n \<le> length rest * K" using Cons.IH by blast
        have "length ?hops + n \<le> length (attempt # rest) * K" if "?bound K (wd_routing (cl_world s))" for K
          using K [OF that] r(3) b [OF that] by (auto intro: add_mono)
        moreover have "attempts site sched job m (attempt # rest) s = Some (r, s')"
          using s1(1) None False False' go w(1) r(1) by (auto simp: Let_def)
        ultimately show ?thesis using outcome_trans [OF o2 r(2)] by blast
      qed
    qed
  qed
qed

section \<open>The call as a whole\<close>

lemma forward_outcome:
  assumes ok: "world_ok w" and "segment \<noteq> GETSEGMENTS" and "segment \<noteq> GETCODECS"
  shows "\<exists>r s n. forward site sched fw frame segment off clrid is_write w = Some (r, s) \<and>
    outcome \<lparr>jb_segment = segment, jb_offset = off, jb_clrid = clrid, jb_write = is_write\<rparr> frame
      (start_call w frame) (Some r) s n \<and>
    (\<forall>K. hops_bound sched segment K (wd_routing w) \<longrightarrow> n \<le> fw_max_retries fw * K)"
  using attempts_outcome [where s = "start_call w frame" and ?f0.0 = frame and sched = sched
      and job = "\<lparr>jb_segment = segment, jb_offset = off, jb_clrid = clrid, jb_write = is_write\<rparr>"
      and js = "[0..<fw_max_retries fw]" and m = "fw_max_retries fw" and site = site] assms
  by (simp add: forward_def start_call_def same_but_def)

lemma start_call_fields [simp]:
  "cl_log (start_call w frame) = []" "cl_frame (start_call w frame) = frame"
  "cl_sent (start_call w frame) = False" "cl_world (start_call w frame) = w"
  by (simp_all add: start_call_def)

text \<open>Some bound always exists when the schedule installs finitely many different snapshots.\<close>

lemma hops_bound_fixed:
  assumes "\<And>i snap'. WE_Install snap' \<notin> set (sc_events sched i)"
  shows "hops_bound sched segment (length (snapshot_lookup snap segment)) snap"
  using assms by (simp add: hops_bound_def)

text \<open>The two segments the router answers itself.\<close>

lemma forward_get_segments:
  "forward site sched fw frame GETSEGMENTS off clrid is_write w =
    Some (Inr (reply_bytes clrid (reply_payload ''SUCCESS''
      (segment_fields 0 (snapshot_segments (wd_routing w))))), start_call w frame)"
  by (simp add: forward_def serialize_segments_eq)

lemma forward_get_codecs:
  "forward site sched fw frame GETCODECS off clrid is_write w =
    Some (Inr (reply_bytes clrid (reply_payload ''SUCCESS'' [(1, 9, as_bytes (join_comma (fw_codecs fw)))])),
      start_call w frame)"
  by (simp add: forward_def serialize_codecs_eq GETSEGMENTS_def GETCODECS_def)

lemma forward_unknown:
  assumes "segment \<noteq> GETSEGMENTS" and "segment \<noteq> GETCODECS" and "0 < fw_max_retries fw"
    and "snapshot_lookup (wd_routing w) segment = []"
  shows "forward site sched fw frame segment off clrid is_write w =
    Some (Inl (FE_UnknownSegment segment), start_call w frame)"
  using assms by (simp add: forward_def upt_conv_Cons)

text \<open>
  The hops of an attempt are tried in the order of the list rotated by the id of the request,
  each of them once.
\<close>

fun try_list :: "site \<Rightarrow> schedule \<Rightarrow> job \<Rightarrow> string list \<Rightarrow> call \<Rightarrow> (fwd_result option \<times> call) run" where
  "try_list site sched job [] s = Some (None, s)"
| "try_list site sched job (hop_id # hop_ids) s = do {
     (out, s) \<leftarrow> try_hop site sched job hop_id s;
     case out of Some r \<Rightarrow> Some (Some r, s) | None \<Rightarrow> try_list site sched job hop_ids s
   }"

lemma try_hops_list:
  "hop_ids \<noteq> [] \<Longrightarrow> try_hops site sched job hop_ids start js s =
     try_list site sched job (map (\<lambda>i. hop_ids ! ((start + i) mod length hop_ids)) js) s"
  by (induction js arbitrary: s) (simp_all add: rd_in cong: option.case_cong)

lemma try_hops_rotate:
  assumes "hop_ids \<noteq> []"
  shows "try_hops site sched job hop_ids start [0..<length hop_ids] s =
    try_list site sched job (rotate start hop_ids) s"
proof -
  have "map (\<lambda>i. hop_ids ! ((start + i) mod length hop_ids)) [0..<length hop_ids] = rotate start hop_ids"
    by (intro nth_equalityI) (simp_all add: nth_rotate)
  with try_hops_list [OF assms, of site sched job start "[0..<length hop_ids]" s] show ?thesis by simp
qed

text \<open>
  A connection that is lost after the frame was written ends the wait with the same error as
  one that was closed before; the frame is on the wire all the same.
\<close>

lemma lost_after_send:
  assumes ok: "conn_ok c" and op: "\<not> is_closed c" and free: "dx.waiting (cn_demux c) cid = None"
    and room: "cn_queue c = []" "0 < cn_capacity c"
  shows "\<exists>c'. send_and_wait [Ev_Writer True True, Ev_Eof] c frame cid now =
    Some (Inl RZ_ConnectionClosed, c') \<and> cn_wire c' = cn_wire c @ [frame]"
proof -
  have wr: "cn_writer c" "cn_reader c" using ok op by (auto simp: conn_ok_def is_closed_def)
  let ?t = "length (cn_owner c)"
  define c1 where "c1 d = c\<lparr>cn_owner := cn_owner c @ [cid], cn_demux := d, cn_queue := [frame]\<rparr>" for d
  from send_begin_accepted [OF ok op free, of frame now] room obtain d where
    b: "send_begin c frame cid now = Some (Inr ?t, c1 d)" "conn_ok (c1 d)"
    "dx.waiting d = (dx.waiting (cn_demux c))(cid \<mapsto> ?t)" by (auto simp: c1_def)
  let ?c1 = "c1 d"
  let ?c2 = "?c1\<lparr>cn_queue := [], cn_wire := cn_wire c @ [frame]\<rparr>"
  have step1: "conn_step (Ev_Writer True True) ?c1 = Some ?c2"
    using wr op by (simp add: writer_step_def is_closed_def Let_def c1_def)
  have ok2: "conn_ok ?c2" using conn_step_ok [OF b(2), of "Ev_Writer True True"] step1 by auto
  have w: "dx.waiting (cn_demux ?c2) cid = Some ?t" using b(3) by (simp add: c1_def)
  note out = reader_stop_answers(1) [OF ok2 _ w]
  have "cn_wire (reader_stop ?c2) = cn_wire c @ [frame]"
    by (simp add: reader_stop_def fail_pending_def deliver_def split: prod.splits)
  moreover have "cn_reader ?c2" using wr by (simp add: c1_def)
  ultimately show ?thesis
    using b(1) step1 out by (simp add: send_and_wait_def send_end_def del: conn_step.simps(6))
qed

text \<open>
  The log of a write: it goes on after a lost connection only, and a result that leaves open
  whether the hop has acted is reported as a timeout.
\<close>

lemma write_log:
  assumes "explains job f0 es (Some r)" and "jb_write job"
  shows "(\<forall>e\<in>set (butlast es). sd_result e = Inl RZ_ConnectionClosed) \<and>
    (r = Inl FE_Timeout \<longleftrightarrow> es \<noteq> [] \<and> (\<exists>err. sd_result (last es) = Inl err \<and> err \<noteq> RZ_ConnectionClosed))"
proof -
  have closed_only: "retryable (jb_write job) e \<longleftrightarrow> sd_result e = Inl RZ_ConnectionClosed" for e
    using assms(2) by (simp add: retryable_def)
  have closed: ?thesis if "\<forall>e\<in>set es. retryable (jb_write job) e" "r \<noteq> Inl FE_Timeout"
    using that by (cases es rule: rev_cases) (simp_all add: closed_only)
  show ?thesis
  proof (cases r)
    case (Inr reply)
    with assms(1) show ?thesis by (auto simp: closed_only)
  next
    case (Inl fe)
    then show ?thesis
    proof (cases fe)
      case FE_Timeout
      with assms(1) Inl show ?thesis by (auto simp: closed_only)
    qed (use assms(1) Inl closed in simp_all)
  qed
qed

text \<open>The log of a whole call.\<close>

lemma forward_log:
  assumes "world_ok w" and "segment \<noteq> GETSEGMENTS" and "segment \<noteq> GETCODECS"
    and run: "forward site sched fw frame segment off clrid is_write w = Some (r, s)"
    and job: "job = \<lparr>jb_segment = segment, jb_offset = off, jb_clrid = clrid, jb_write = is_write\<rparr>"
  shows "explains job frame (cl_log s) (Some r)" and "\<forall>e\<in>set (cl_log s). send_ok job frame e"
proof -
  from forward_outcome [OF assms(1-3), of site sched fw frame off clrid is_write] run job
  obtain n where "outcome job frame (start_call w frame) (Some r) s n" by auto
  then show "explains job frame (cl_log s) (Some r)" and "\<forall>e\<in>set (cl_log s). send_ok job frame e"
    by (auto simp: outcome_def)
qed

end
