(* ===== verification/Stream_Frames.thy ===== *)
theory Stream_Frames
  imports Protocol
begin

text \<open>
  The frames of a byte stream, as the read loop of \<open>src/tcp_server.rs\<close> takes them from its
  buffer: decode at the front, skip to the next magic byte on a structural error, keep what is
  not decided yet. The section shows that the frames do not depend on how the stream is cut
  into reads, although the bytes kept between two reads do.
\<close>

section \<open>Taking frames from a buffer\<close>

text \<open>After an error: one byte is dropped, then everything up to the next magic byte.\<close>

definition resync :: "byte list \<Rightarrow> byte list option" where
  "resync buf =
     (case position (\<lambda>b. b = ROUTER_MAGIC) (drop 1 buf) of
        Some pos \<Rightarrow> Some (drop pos (drop 1 buf))
      | None \<Rightarrow> None)"

text \<open>Without one, a small window is kept.\<close>

definition keep_window :: "byte list \<Rightarrow> byte list" where
  "keep_window buf = (if length buf > 64 then drop (length buf - min 8 (length buf)) buf else buf)"

lemma resync_shorter: "decode_router buf = Inl e \<Longrightarrow> resync buf = Some rest \<Longrightarrow> length rest < length buf"
  using decode_router_Inl_length [of buf e] by (auto simp: resync_def split: option.splits)

lemma frame_shorter: "decode_router buf = Inr (Some f) \<Longrightarrow> length (drop (rf_frame_len f) buf) < length buf"
  using decode_router_bounds(1,2) [of buf f] by simp

function frames_of :: "byte list \<Rightarrow> (router_frame \<times> byte list) list \<times> byte list" where
  "frames_of buf =
     (case decode_router buf of
        Inr None \<Rightarrow> ([], buf)
      | Inr (Some f) \<Rightarrow>
          (let (fs, left) = frames_of (drop (rf_frame_len f) buf)
           in ((f, take (rf_frame_len f) buf) # fs, left))
      | Inl e \<Rightarrow>
          (case resync buf of
             Some rest \<Rightarrow> frames_of rest
           | None \<Rightarrow> ([], keep_window (drop 1 buf))))"
  by pat_completeness auto

termination
  by (relation "measure length") (auto simp del: length_drop intro: resync_shorter frame_shorter)

declare frames_of.simps [simp del]

section \<open>Garbage\<close>

definition garbage :: "byte list \<Rightarrow> bool" where
  "garbage g \<longleftrightarrow> ROUTER_MAGIC \<notin> set g"

definition skip :: "byte list \<Rightarrow> byte list" where
  "skip buf = dropWhile (\<lambda>b. b \<noteq> ROUTER_MAGIC) buf"

lemma skip_simps [simp]:
  "skip [] = []" "skip (b # r) = (if b = ROUTER_MAGIC then b # r else skip r)"
  by (simp_all add: skip_def)

lemma garbage_simps [simp]: "garbage []" "garbage (b # g) \<longleftrightarrow> b \<noteq> ROUTER_MAGIC \<and> garbage g"
  by (auto simp: garbage_def)

lemma skip_garbage: "garbage g \<Longrightarrow> skip (g @ r) = skip r"
  by (induction g) auto

lemma skip_magic: "r \<noteq> [] \<Longrightarrow> r ! 0 = ROUTER_MAGIC \<Longrightarrow> skip r = r"
  by (cases r) simp_all

lemma skip_Nil_iff: "skip r = [] \<longleftrightarrow> garbage r"
  by (induction r) auto

lemma skip_length: "length (skip r) \<le> length r"
  by (induction r) auto

lemma skip_first: "skip r \<noteq> [] \<Longrightarrow> skip r ! 0 = ROUTER_MAGIC"
  by (induction r) auto

lemma skip_skip [simp]: "skip (skip r) = skip r"
  by (induction r) auto

lemma skip_append: "skip (xs @ ys) = (if garbage xs then skip ys else skip xs @ ys)"
  by (induction xs) auto

lemma resync_skip: "resync buf = (if skip (drop 1 buf) = [] then None else Some (skip (drop 1 buf)))"
proof (cases "position (\<lambda>b. b = ROUTER_MAGIC) (drop 1 buf)")
  case None
  then have "garbage (drop 1 buf)" by (auto simp: position_None_iff garbage_def)
  with None show ?thesis by (simp add: resync_def skip_Nil_iff)
next
  case (Some p)
  from position_SomeD [OF this] have p: "p < length (drop 1 buf)" "drop 1 buf ! p = ROUTER_MAGIC"
    "\<forall>i<p. drop 1 buf ! i \<noteq> ROUTER_MAGIC" by auto
  have g: "garbage (take p (drop 1 buf))"
    using p by (auto simp: garbage_def in_set_conv_nth)
  have "drop p (drop 1 buf) ! 0 = ROUTER_MAGIC" "drop p (drop 1 buf) \<noteq> []" using p by auto
  then have "skip (drop p (drop 1 buf)) = drop p (drop 1 buf)" by (intro skip_magic)
  then have "skip (drop 1 buf) = drop p (drop 1 buf)"
    using skip_garbage [OF g, of "drop p (drop 1 buf)"] by (simp only: append_take_drop_id)
  with Some p show ?thesis by (simp add: resync_def)
qed

lemma garbage_keep_window: "garbage g \<Longrightarrow> garbage (keep_window g)"
  by (auto simp: keep_window_def garbage_def dest: in_set_dropD)

lemma frames_of_short: "length buf < 5 \<Longrightarrow> frames_of buf = ([], buf)"
  by (simp add: frames_of.simps [of buf] decode_router_def)

text \<open>Bytes without a magic byte in front of the buffer make no difference to the frames.\<close>

lemma frames_of_garbage:
  assumes g: "garbage g" and r: "r = [] \<or> r ! 0 = ROUTER_MAGIC"
  shows "fst (frames_of (g @ r)) = fst (frames_of r) \<and>
    skip (snd (frames_of (g @ r))) = skip (snd (frames_of r))"
proof (cases "g = []")
  case False
  then obtain b g' where g': "g = b # g'" "b \<noteq> ROUTER_MAGIC" "garbage g'"
    using g by (cases g) auto
  have sr: "skip r = r" using r skip_magic by (cases "r = []") auto
  show ?thesis
  proof (cases "length (g @ r) < 5")
    case True
    then show ?thesis using frames_of_short [of "g @ r"] frames_of_short [of r] skip_garbage [OF g] by simp
  next
    case long: False
    then have dec: "decode_router (g @ r) = Inl (RZ_ParseError ''bad router magic'')"
      using g' by (intro decode_router_bad_magic) auto
    have rs: "resync (g @ r) = (if r = [] then None else Some r)"
      using skip_garbage [OF g'(3), of r] sr g'(1) by (simp add: resync_skip)
    show ?thesis
    proof (cases "r = []")
      case True
      have "garbage (keep_window g')" using g'(3) by (rule garbage_keep_window)
      then have "skip (keep_window g') = []" by (simp add: skip_Nil_iff)
      then show ?thesis
        using True rs dec g'(1) frames_of.simps [of "g @ r"] frames_of_short [of "[]"] by simp
    next
      case False
      then show ?thesis using rs dec frames_of.simps [of "g @ r"] by simp
    qed
  qed
qed simp

lemma take_skip: "\<exists>g. buf = g @ skip buf \<and> garbage g"
proof (induction buf)
  case (Cons b buf)
  then obtain g where "buf = g @ skip buf" "garbage g" by blast
  then show ?case
    by (cases "b = ROUTER_MAGIC") (auto intro: exI [of _ "[]"] exI [of _ "b # g"])
qed simp

lemma frames_of_skip:
  "fst (frames_of buf) = fst (frames_of (skip buf))"
  "skip (snd (frames_of buf)) = skip (snd (frames_of (skip buf)))"
proof -
  obtain g where g: "buf = g @ skip buf" "garbage g" using take_skip by blast
  have "skip buf = [] \<or> skip buf ! 0 = ROUTER_MAGIC" using skip_first by blast
  from frames_of_garbage [OF g(2) this] g(1)
  show "fst (frames_of buf) = fst (frames_of (skip buf))"
    "skip (snd (frames_of buf)) = skip (snd (frames_of (skip buf)))" by simp_all
qed

section \<open>Independence of the cuts\<close>

text \<open>A structural error is not undone by more bytes.\<close>

lemma decode_router_Inl_append:
  assumes "decode_router buf = Inl e"
  shows "decode_router (buf @ ys) = Inl e"
proof -
  have l: "5 \<le> length buf" using decode_router_Inl_length [OF assms] .
  have m: "(buf @ ys) ! 0 = buf ! 0" using l by (cases buf) auto
  have t: "total_len (buf @ ys) = total_len buf" using l by (simp add: total_len_def)
  show ?thesis
  proof (cases "buf ! 0 = ROUTER_MAGIC \<and> total_len buf \<le> MAX_TOTAL_LEN \<and> 2 \<le> total_len buf")
    case False
    with assms l m t show ?thesis by (auto simp: decode_router_def split: if_splits)
  next
    case True
    with assms l have full: "5 + total_len buf \<le> length buf"
      by (auto simp: decode_router_def split: if_splits)
    with True have s: "seg_len (buf @ ys) = seg_len buf" by (simp add: seg_len_def nth_append)
    define n where "n = seg_len buf"
    have inside: "6 + n < 5 + total_len buf \<Longrightarrow> take n (drop 6 (buf @ ys)) = take n (drop 6 buf)"
      using full by simp
    have shard: "7 + n + 9 \<le> 5 + total_len buf \<Longrightarrow> (buf @ ys) ! (7 + n) = buf ! (7 + n)"
      using full by (simp add: nth_append)
    show ?thesis
      using assms l m t s True full inside shard unfolding decode_router_def n_def [symmetric] s t
      by (auto simp: n_def [symmetric] split: if_splits option.splits)
  qed
qed

text \<open>The frames of a longer buffer: those of the front, then those of what was left with the rest.\<close>

lemma frames_of_append:
  "fst (frames_of (xs @ ys)) = fst (frames_of xs) @ fst (frames_of (snd (frames_of xs) @ ys)) \<and>
   skip (snd (frames_of (xs @ ys))) = skip (snd (frames_of (snd (frames_of xs) @ ys)))"
proof (induction xs rule: frames_of.induct)
  case (1 buf)
  show ?case
  proof (cases "decode_router buf")
    case (Inl e)
    note app = decode_router_Inl_append [OF Inl, of ys]
    have d: "drop 1 (buf @ ys) = drop 1 buf @ ys" using decode_router_Inl_length [OF Inl] by simp
    show ?thesis
    proof (cases "resync buf")
      case (Some rest)
      then have rest: "rest = skip (drop 1 buf)" "\<not> garbage (drop 1 buf)"
        by (auto simp: resync_skip skip_Nil_iff split: if_splits)
      then have "resync (buf @ ys) = Some (rest @ ys)"
        unfolding resync_skip d skip_append by (simp add: skip_Nil_iff)
      with 1(1) [OF Inl Some] Inl Some app show ?thesis
        by (simp add: frames_of.simps [of buf] frames_of.simps [of "buf @ ys"])
    next
      case None
      then have g: "garbage (drop 1 buf)" by (auto simp: resync_skip skip_Nil_iff split: if_splits)
      let ?l = "keep_window (drop 1 buf)"
      have gl: "garbage ?l" by (rule garbage_keep_window [OF g])
      have rs: "resync (buf @ ys) = (if skip ys = [] then None else Some (skip ys))"
        unfolding resync_skip d skip_append using g by simp
      have left: "frames_of buf = ([], ?l)" using Inl None by (simp add: frames_of.simps [of buf])
      have right: "fst (frames_of (?l @ ys)) = fst (frames_of (skip ys))"
        "skip (snd (frames_of (?l @ ys))) = skip (snd (frames_of (skip ys)))"
        using frames_of_skip [of "?l @ ys"] skip_garbage [OF gl, of ys] by simp_all
      show ?thesis
      proof (cases "skip ys = []")
        case True
        then have "garbage (drop 1 (buf @ ys))"
          using g unfolding d by (simp add: garbage_def skip_Nil_iff)
        then have "skip (keep_window (drop 1 (buf @ ys))) = []"
          using garbage_keep_window skip_Nil_iff by blast
        with True left right rs app show ?thesis
          by (simp add: frames_of.simps [of "buf @ ys"] frames_of_short)
      next
        case False
        with left right rs app show ?thesis by (simp add: frames_of.simps [of "buf @ ys"])
      qed
    qed
  next
    case (Inr r)
    show ?thesis
    proof (cases r)
      case None
      with Inr show ?thesis by (simp add: frames_of.simps [of buf])
    next
      case (Some f)
      note app = decode_router_append [OF Inr [unfolded Some], of ys]
      have le: "rf_frame_len f \<le> length buf" using decode_router_bounds(2) [OF Inr [unfolded Some]] .
      with 1(2) [OF Inr Some] Inr Some app show ?thesis
        by (simp add: frames_of.simps [of buf] frames_of.simps [of "buf @ ys"] Let_def case_prod_unfold)
    qed
  qed
qed

lemma frames_of_left: "fst (frames_of (snd (frames_of buf))) = []"
proof (induction buf rule: frames_of.induct)
  case (1 buf)
  have none: "fst (frames_of (keep_window (drop 1 buf))) = []" if "resync buf = None"
  proof -
    have "garbage (drop 1 buf)" using that by (auto simp: resync_skip skip_Nil_iff split: if_splits)
    then have "skip (keep_window (drop 1 buf)) = []" using garbage_keep_window skip_Nil_iff by blast
    with frames_of_skip(1) [of "keep_window (drop 1 buf)"] frames_of_short [of "[]"] show ?thesis
      by simp
  qed
  from 1 none show ?case
    by (cases "decode_router buf")
       (auto simp: frames_of.simps [of buf] Let_def split: option.splits prod.splits)
qed

lemma frames_of_shorter: "length (snd (frames_of x)) \<le> length x"
proof (induction x rule: frames_of.induct)
  case (1 x)
  have "length (keep_window (drop 1 x)) \<le> length x" by (auto simp: keep_window_def)
  with 1 resync_shorter [of x] show ?case
    by (cases "decode_router x") (fastforce simp: frames_of.simps [of x] case_prod_unfold Let_def
        split: option.splits)+
qed

text \<open>The frames of a stream that arrives in pieces, with what is kept from each read.\<close>

fun frames_of_chunks :: "byte list \<Rightarrow> byte list list \<Rightarrow> (router_frame \<times> byte list) list" where
  "frames_of_chunks buf [] = []"
| "frames_of_chunks buf (c # cs) =
     (let (fs, left) = frames_of (buf @ c) in fs @ frames_of_chunks left cs)"

lemma frames_of_chunks_eq:
  "fst (frames_of buf) = [] \<Longrightarrow> frames_of_chunks buf cs = fst (frames_of (buf @ concat cs))"
proof (induction cs arbitrary: buf)
  case (Cons c cs)
  let ?left = "snd (frames_of (buf @ c))"
  have "frames_of_chunks ?left cs = fst (frames_of (?left @ concat cs))"
    by (rule Cons.IH [OF frames_of_left])
  with frames_of_append [of "buf @ c" "concat cs"] show ?case by (simp add: case_prod_unfold Let_def)
qed simp

text \<open>
  Every read fits into a buffer of the given size, together with what is kept from the reads
  before; this is the case when the whole stream does.
\<close>

fun fits :: "nat \<Rightarrow> byte list \<Rightarrow> byte list list \<Rightarrow> bool" where
  "fits limit buf [] \<longleftrightarrow> True"
| "fits limit buf (c # cs) \<longleftrightarrow> length (buf @ c) \<le> limit \<and> fits limit (snd (frames_of (buf @ c))) cs"

lemma fits_whole: "length (buf @ concat cs) \<le> limit \<Longrightarrow> fits limit buf cs"
proof (induction cs arbitrary: buf)
  case (Cons c cs)
  have "length (snd (frames_of (buf @ c)) @ concat cs) \<le> limit"
    using frames_of_shorter [of "buf @ c"] Cons.prems by simp
  from Cons.IH [OF this] Cons.prems show ?case by simp
qed simp

section \<open>Well-formed streams\<close>

type_synonym frame_parts = "string \<times> byte \<times> u32 \<times> byte list"

definition parts_ok :: "frame_parts \<Rightarrow> bool" where
  "parts_ok p \<longleftrightarrow> (case p of (seg, w, clrid, rest) \<Rightarrow> frame_parts_ok seg rest)"

definition parts_bytes :: "frame_parts \<Rightarrow> byte list" where
  "parts_bytes p = (case p of (seg, w, clrid, rest) \<Rightarrow> frame_bytes seg w clrid rest)"

definition parts_frame :: "frame_parts \<Rightarrow> router_frame" where
  "parts_frame p = (case p of (seg, w, clrid, rest) \<Rightarrow> frame_of seg w clrid rest)"

lemma frames_of_frame:
  assumes "parts_ok p"
  shows "frames_of (parts_bytes p @ ys) =
    ((parts_frame p, parts_bytes p) # fst (frames_of ys), snd (frames_of ys))"
proof -
  obtain seg w clrid rest where p: "p = (seg, w, clrid, rest)" by (metis prod_cases4)
  with assms have ok: "frame_parts_ok seg rest" by (simp add: parts_ok_def)
  have len: "rf_frame_len (frame_of seg w clrid rest) = length (frame_bytes seg w clrid rest)"
    by (simp add: frame_of_def length_frame_bytes)
  show ?thesis
    using decode_frame_bytes [OF ok, of w clrid ys]
    by (simp add: frames_of.simps [of "frame_bytes seg w clrid rest @ ys"] p parts_bytes_def
        parts_frame_def len case_prod_unfold Let_def)
qed

text \<open>
  A stream of frames with garbage before each: all frames are found, whatever the garbage, as
  long as it has no magic byte.
\<close>

fun noisy_stream :: "(byte list \<times> frame_parts) list \<Rightarrow> byte list" where
  "noisy_stream [] = []"
| "noisy_stream ((g, p) # ps) = g @ parts_bytes p @ noisy_stream ps"

lemma frames_of_noisy:
  "\<forall>(g, p)\<in>set ps. garbage g \<and> parts_ok p \<Longrightarrow>
   fst (frames_of (noisy_stream ps)) = map (\<lambda>(g, p). (parts_frame p, parts_bytes p)) ps"
proof (induction ps)
  case (Cons q ps)
  obtain g p where q: "q = (g, p)" by (cases q)
  with Cons.prems have g: "garbage g" and p: "parts_ok p" by auto
  have "parts_bytes p @ noisy_stream ps = [] \<or> (parts_bytes p @ noisy_stream ps) ! 0 = ROUTER_MAGIC"
    by (simp add: parts_bytes_def frame_bytes_def split: prod.splits)
  from frames_of_garbage [OF g this] frames_of_frame [OF p] Cons q show ?case by simp
qed (simp add: frames_of_short)

end
