(* ===== verification/Metrics.thy ===== *)
theory Metrics
  imports Prelude
begin

text \<open>
  The counters of \<open>src/metrics.rs\<close> as one record. The counters themselves and their export are
  those of the \<open>metrics\<close> crate; here they are numbers, and \<open>increment\<close> adds.
\<close>

record router_metrics =
  mt_connections_opened :: nat
  mt_connections_closed :: nat
  mt_frames_received :: nat
  mt_frames_forwarded :: nat
  mt_bytes_received :: nat
  mt_bytes_sent :: nat
  mt_client_errors :: nat
  mt_unknown_segment :: nat
  mt_network_errors :: nat
  mt_timeouts :: nat
  mt_internal_errors :: nat
  mt_keepalives_sent :: nat
  mt_keepalives_received :: nat
  mt_resyncs :: nat

definition metrics_new :: router_metrics where
  "metrics_new = \<lparr>mt_connections_opened = 0, mt_connections_closed = 0, mt_frames_received = 0,
     mt_frames_forwarded = 0, mt_bytes_received = 0, mt_bytes_sent = 0, mt_client_errors = 0,
     mt_unknown_segment = 0, mt_network_errors = 0, mt_timeouts = 0, mt_internal_errors = 0,
     mt_keepalives_sent = 0, mt_keepalives_received = 0, mt_resyncs = 0\<rparr>"

text \<open>Errors answered to clients: one counter each for the four kinds of \<open>ForwardError\<close>.\<close>

definition errors_answered :: "router_metrics \<Rightarrow> nat" where
  "errors_answered m =
     mt_unknown_segment m + mt_network_errors m + mt_timeouts m + mt_internal_errors m"

end
