(* ===== verification/Tcp_Server.thy ===== *)
theory Tcp_Server
  imports Forwarder Stream_Frames Metrics
begin

text \<open>
  The server of \<open>src/tcp_server.rs\<close>: the accept loop with its limit on connections, and
  \<open>handle_connection\<close>, which reads from a client, takes frames from the buffer, has them
  forwarded and writes the answers. A session is the local state of \<open>handle_connection\<close>. Two
  ghost fields record the frames taken and the answers due. The clock, the socket of the client
  and what other tasks do meanwhile are given by a peer.
\<close>

section \<open>Sessions\<close>

record session =
  ss_buf :: "byte list"
  ss_last :: int
  ss_out :: "byte list list"
  ss_metrics :: router_metrics
  ss_world :: world
  ss_clock :: nat
  ss_calls :: nat
  ss_writes :: nat
  ss_frames :: "(router_frame \<times> byte list) list"
  ss_answers :: "(router_frame \<times> byte list) list"

text \<open>
  \<open>pe_now n\<close> is the \<open>n\<close>-th reading of the clock, \<open>pe_sched n\<close> the schedule of the \<open>n\<close>-th call of
  the forwarder, \<open>pe_write n\<close> and \<open>pe_flush n\<close> whether the \<open>n\<close>-th write and its flush succeed.
\<close>

record peer =
  pe_now :: "nat \<Rightarrow> int"
  pe_sched :: "nat \<Rightarrow> schedule"
  pe_write :: "nat \<Rightarrow> bool"
  pe_flush :: "nat \<Rightarrow> bool"

datatype turn = Go_On | Wait_More | Hang_Up

definition error_code :: "forward_error \<Rightarrow> byte" where
  "error_code fe = (case fe of FE_UnknownSegment _ \<Rightarrow> 1 | FE_NetworkError \<Rightarrow> 2 | FE_Timeout \<Rightarrow> 3
     | FE_Internal _ \<Rightarrow> 4)"

definition error_metric :: "forward_error \<Rightarrow> router_metrics \<Rightarrow> router_metrics" where
  "error_metric fe m = (case fe of
       FE_UnknownSegment _ \<Rightarrow> m\<lparr>mt_unknown_segment := mt_unknown_segment m + 1\<rparr>
     | FE_NetworkError \<Rightarrow> m\<lparr>mt_network_errors := mt_network_errors m + 1\<rparr>
     | FE_Timeout \<Rightarrow> m\<lparr>mt_timeouts := mt_timeouts m + 1\<rparr>
     | FE_Internal _ \<Rightarrow> m\<lparr>mt_internal_errors := mt_internal_errors m + 1\<rparr>)"

abbreviation count :: "(router_metrics \<Rightarrow> router_metrics) \<Rightarrow> session \<Rightarrow> session" where
  "count f s \<equiv> s\<lparr>ss_metrics := f (ss_metrics s)\<rparr>"

text \<open>
  A write to the client, and the flush; the error path ignores the result of its flush.
\<close>

definition write_client :: "peer \<Rightarrow> bool \<Rightarrow> byte list \<Rightarrow> session \<Rightarrow> turn \<times> session" where
  "write_client peer flush_matters bytes s =
     (let n = ss_writes s;
          s = count (\<lambda>m. m\<lparr>mt_bytes_sent := mt_bytes_sent m + length bytes\<rparr>) s;
          s = s\<lparr>ss_writes := Suc n\<rparr>
      in if \<not> pe_write peer n then (Hang_Up, s)
         else (let s = s\<lparr>ss_out := ss_out s @ [bytes]\<rparr> in
           if flush_matters \<and> \<not> pe_flush peer n then (Hang_Up, s) else (Go_On, s)))"

section \<open>One turn of the frame loop\<close>

definition serve_frame ::
  "site \<Rightarrow> peer \<Rightarrow> forwarder \<Rightarrow> router_frame \<Rightarrow> byte list \<Rightarrow> session \<Rightarrow> (turn \<times> session) run" where
  "serve_frame site peer fw frame fbytes s =
     (if rf_segment frame = KEEPALIVE_SEGMENT
      then Some (Go_On, count (\<lambda>m. m\<lparr>mt_keepalives_received := mt_keepalives_received m + 1\<rparr>) s)
      else do {
        (result, call) \<leftarrow> forward site (pe_sched peer (ss_calls s)) fw fbytes (rf_segment frame)
          (rf_clrid_offset frame) (rf_original_clrid frame) (rf_is_write frame) (ss_world s);
        let s = s\<lparr>ss_world := cl_world call, ss_calls := Suc (ss_calls s)\<rparr>;
        Some (case result of
          Inr response \<Rightarrow>
            (let s = count (\<lambda>m. m\<lparr>mt_frames_forwarded := mt_frames_forwarded m + 1\<rparr>) s;
                 s = s\<lparr>ss_answers := ss_answers s @ [(frame, response)]\<rparr>
             in write_client peer True response s)
        | Inl fe \<Rightarrow>
            (let s = count (error_metric fe) s;
                 error_frame = build_error_response (rf_original_clrid frame) (error_code fe);
                 s = s\<lparr>ss_answers := ss_answers s @ [(frame, error_frame)]\<rparr>
             in write_client peer False error_frame s))
      })"

definition frame_turn ::
  "site \<Rightarrow> config \<Rightarrow> peer \<Rightarrow> forwarder \<Rightarrow> session \<Rightarrow> (turn \<times> session) run" where
  "frame_turn site config peer fw s =
     (if length (ss_buf s) > cfg_max_buffer_size config
      then Some (Hang_Up, count (\<lambda>m. m\<lparr>mt_client_errors := mt_client_errors m + 1\<rparr>) s)
      else do {
        decoded \<leftarrow> try_decode_router (ss_buf s);
        case decoded of
          Inr None \<Rightarrow>
            (let elapsed = pe_now peer (ss_clock s) - ss_last s; s = s\<lparr>ss_clock := Suc (ss_clock s)\<rparr> in
             if elapsed > int (frame_timeout config)
             then Some (Hang_Up, count (\<lambda>m. m\<lparr>mt_timeouts := mt_timeouts m + 1\<rparr>) s)
             else Some (Wait_More, s))
        | Inr (Some frame) \<Rightarrow>
            if rf_frame_len frame > cfg_max_frame_size config
            then Some (Hang_Up, count (\<lambda>m. m\<lparr>mt_client_errors := mt_client_errors m + 1\<rparr>) s)
            else do {
              let s = s\<lparr>ss_last := pe_now peer (ss_clock s), ss_clock := Suc (ss_clock s)\<rparr>;
              let s = count (\<lambda>m. m\<lparr>mt_frames_received := mt_frames_received m + 1\<rparr>) s;
              (fbytes, rest) \<leftarrow> split_to (rf_frame_len frame) (ss_buf s);
              let s = s\<lparr>ss_buf := rest, ss_frames := ss_frames s @ [(frame, fbytes)]\<rparr>;
              serve_frame site peer fw frame fbytes s
            }
        | Inl e \<Rightarrow>
            (let s = count (\<lambda>m. m\<lparr>mt_client_errors := mt_client_errors m + 1, mt_resyncs := mt_resyncs m + 1\<rparr>) s
             in if ss_buf s = [] then Some (Wait_More, s)
                else do {
                  buf \<leftarrow> advance 1 (ss_buf s);
                  next_magic \<leftarrow> find_next_router_magic buf 0;
                  case next_magic of
                    Some pos \<Rightarrow>
                      if pos > 0 then do { buf \<leftarrow> advance pos buf; Some (Go_On, s\<lparr>ss_buf := buf\<rparr>) }
                      else Some (Go_On, s\<lparr>ss_buf := buf\<rparr>)
                  | None \<Rightarrow>
                      if length buf > 64 then do {
                        let keep = min 8 (length buf);
                        buf \<leftarrow> advance (length buf - keep) buf;
                        Some (Wait_More, s\<lparr>ss_buf := buf\<rparr>)
                      }
                      else Some (Wait_More, s\<lparr>ss_buf := buf\<rparr>)
                })
      })"

text \<open>A turn that goes on has taken at least one byte from the buffer, so the loop ends.\<close>

lemma write_client_buf [simp]:
  "ss_buf (snd (write_client peer b bytes s)) = ss_buf s"
  "ss_frames (snd (write_client peer b bytes s)) = ss_frames s"
  "ss_answers (snd (write_client peer b bytes s)) = ss_answers s"
  "ss_world (snd (write_client peer b bytes s)) = ss_world s"
  by (simp_all add: write_client_def Let_def)

lemma write_client_turn: "fst (write_client peer b bytes s) \<noteq> Wait_More"
  by (simp add: write_client_def Let_def)

lemma serve_frame_buf:
  assumes "serve_frame site peer fw frame fb s = Some (t, s')"
  shows "ss_buf s' = ss_buf s" "ss_frames s' = ss_frames s" "t \<noteq> Wait_More"
proof -
  have "ss_buf s' = ss_buf s \<and> ss_frames s' = ss_frames s \<and> t \<noteq> Wait_More"
  proof (cases "rf_segment frame = KEEPALIVE_SEGMENT")
    case False
    then obtain b bytes s1 where "write_client peer b bytes s1 = (t, s')"
      "ss_buf s1 = ss_buf s" "ss_frames s1 = ss_frames s"
      using assms by (fastforce simp: serve_frame_def Let_def split: bind_splits sum.splits)
    with write_client_buf(1,2) [of peer b bytes s1] write_client_turn [of peer b bytes s1]
    show ?thesis by simp
  qed (use assms in \<open>auto simp: serve_frame_def\<close>)
  then show "ss_buf s' = ss_buf s" "ss_frames s' = ss_frames s" "t \<noteq> Wait_More" by simp_all
qed

lemma frame_turn_shorter:
  assumes "frame_turn site config peer fw s = Some (Go_On, s')"
  shows "length (ss_buf s') < length (ss_buf s)"
proof (cases "decode_router (ss_buf s)")
  case (Inl e)
  note l = decode_router_Inl_length [OF Inl]
  show ?thesis
    using assms Inl l
    by (auto simp: frame_turn_def run_simps advance_def Let_def split: if_splits option.splits bind_splits)
next
  case (Inr r)
  show ?thesis
  proof (cases r)
    case None
    with assms Inr show ?thesis by (auto simp: frame_turn_def run_simps Let_def split: if_splits)
  next
    case (Some f)
    note b = decode_router_bounds(1,2) [OF Inr [unfolded Some]]
    with assms Inr Some show ?thesis
      by (auto simp: frame_turn_def run_simps split_to_def Let_def split: if_splits
          dest!: serve_frame_buf(1))
  qed
qed

section \<open>The loops\<close>

function serve ::
  "site \<Rightarrow> config \<Rightarrow> peer \<Rightarrow> forwarder \<Rightarrow> session \<Rightarrow> (turn \<times> session) run" where
  "serve site config peer fw s =
     (case frame_turn site config peer fw s of
        None \<Rightarrow> None
      | Some (Go_On, s') \<Rightarrow> serve site config peer fw s'
      | Some (Wait_More, s') \<Rightarrow> Some (Wait_More, s')
      | Some (Hang_Up, s') \<Rightarrow> Some (Hang_Up, s'))"
  by pat_completeness auto
termination
  by (relation "measure (\<lambda>(site, config, peer, fw, s). length (ss_buf s))")
     (auto intro: frame_turn_shorter)

declare serve.simps [simp del]

text \<open>What the \<open>select!\<close> of the outer loop yields: cancellation, or the read with its timeout.\<close>

datatype read_result = Read_Bytes "byte list" | Read_Error | Read_Idle | Read_Cancelled

fun on_read ::
  "site \<Rightarrow> config \<Rightarrow> peer \<Rightarrow> forwarder \<Rightarrow> read_result \<Rightarrow> session \<Rightarrow> (turn \<times> session) run" where
  "on_read site config peer fw Read_Cancelled s = Some (Hang_Up, s)"
| "on_read site config peer fw Read_Error s = Some (Hang_Up, s)"
| "on_read site config peer fw Read_Idle s =
     Some (Hang_Up, count (\<lambda>m. m\<lparr>mt_timeouts := mt_timeouts m + 1\<rparr>) s)"
| "on_read site config peer fw (Read_Bytes bytes) s =
     (if bytes = [] then Some (Hang_Up, s)
      else serve site config peer fw
        ((count (\<lambda>m. m\<lparr>mt_bytes_received := mt_bytes_received m + length bytes\<rparr>) s)
          \<lparr>ss_buf := ss_buf s @ bytes\<rparr>))"

text \<open>The outer loop over the reads of the session, with what other tasks do before each.\<close>

fun handle_connection ::
  "site \<Rightarrow> config \<Rightarrow> peer \<Rightarrow> forwarder \<Rightarrow> (world_event list \<times> read_result) list \<Rightarrow> session \<Rightarrow> session run"
where
  "handle_connection site config peer fw [] s = Some s"
| "handle_connection site config peer fw ((events, r) # reads) s = do {
     w \<leftarrow> world_run site events (ss_world s);
     (t, s) \<leftarrow> on_read site config peer fw r (s\<lparr>ss_world := w\<rparr>);
     if t = Hang_Up then Some s else handle_connection site config peer fw reads s
   }"

definition session_start :: "int \<Rightarrow> router_metrics \<Rightarrow> world \<Rightarrow> session" where
  "session_start now m w = \<lparr>ss_buf = [], ss_last = now, ss_out = [], ss_metrics = m, ss_world = w,
     ss_clock = 0, ss_calls = 0, ss_writes = 0, ss_frames = [], ss_answers = []\<rparr>"

section \<open>The accept loop\<close>

text \<open>
  \<open>sv_running\<close> counts the tasks of accepted connections, \<open>sv_closing\<close> the messages in the close
  channel: both are ghost state, which the code has in its tasks.
\<close>

record server =
  sv_active :: u64
  sv_metrics :: router_metrics
  sv_cancelled :: bool
  sv_running :: nat
  sv_closing :: nat

definition server_new :: "router_metrics \<Rightarrow> server" where
  "server_new m = \<lparr>sv_active = 0, sv_metrics = m, sv_cancelled = False, sv_running = 0, sv_closing = 0\<rparr>"

datatype server_event = Sv_Accept | Sv_Accept_Error | Sv_End | Sv_Close_Message | Sv_Cancel

fun server_step :: "config \<Rightarrow> server_event \<Rightarrow> server \<Rightarrow> server" where
  "server_step config Sv_Accept sv =
     (if sv_cancelled sv then sv
      else if unat (sv_active sv) \<ge> cfg_max_connections config then sv
      else sv\<lparr>sv_active := sv_active sv + 1, sv_running := Suc (sv_running sv),
        sv_metrics := (sv_metrics sv)\<lparr>mt_connections_opened := mt_connections_opened (sv_metrics sv) + 1\<rparr>\<rparr>)"
| "server_step config Sv_Accept_Error sv = sv"
| "server_step config Sv_End sv =
     (if sv_running sv = 0 then sv
      else sv\<lparr>sv_running := sv_running sv - 1, sv_closing := Suc (sv_closing sv)\<rparr>)"
| "server_step config Sv_Close_Message sv =
     (if sv_cancelled sv \<or> sv_closing sv = 0 then sv
      else sv\<lparr>sv_closing := sv_closing sv - 1, sv_active := sv_active sv - 1,
        sv_metrics := (sv_metrics sv)\<lparr>mt_connections_closed := mt_connections_closed (sv_metrics sv) + 1\<rparr>\<rparr>)"
| "server_step config Sv_Cancel sv = sv\<lparr>sv_cancelled := True\<rparr>"

definition server_ok :: "config \<Rightarrow> server \<Rightarrow> bool" where
  "server_ok config sv \<longleftrightarrow> unat (sv_active sv) = sv_running sv + sv_closing sv \<and>
     sv_running sv + sv_closing sv \<le> cfg_max_connections config \<and>
     mt_connections_opened (sv_metrics sv) =
       mt_connections_closed (sv_metrics sv) + sv_running sv + sv_closing sv"

lemma server_step_ok:
  assumes ok: "server_ok config sv" and "cfg_max_connections config < 2 ^ 64"
  shows "server_ok config (server_step config e sv)"
proof (cases e)
  case Sv_Accept
  show ?thesis
  proof (cases "sv_cancelled sv \<or> unat (sv_active sv) \<ge> cfg_max_connections config")
    case False
    then have "unat (sv_active sv + 1) = Suc (unat (sv_active sv))"
      using assms(2) by (simp add: unat_word_ariths)
    with Sv_Accept ok False show ?thesis by (simp add: server_ok_def)
  qed (use Sv_Accept ok in auto)
next
  case Sv_Close_Message
  show ?thesis
  proof (cases "sv_cancelled sv \<or> sv_closing sv = 0")
    case False
    then have "0 < unat (sv_active sv)" using ok by (simp add: server_ok_def)
    then have "sv_active sv \<noteq> 0" by auto
    then have "unat (sv_active sv - 1) = unat (sv_active sv) - 1" by (rule unat_minus_one)
    with Sv_Close_Message ok False show ?thesis by (auto simp: server_ok_def)
  qed (use Sv_Close_Message ok in auto)
qed (use ok in \<open>auto simp: server_ok_def\<close>)

lemma server_run_ok:
  assumes "cfg_max_connections config < 2 ^ 64"
  shows "server_ok config (fold (server_step config) es (server_new metrics_new))"
proof -
  have "server_ok config sv \<Longrightarrow> server_ok config (fold (server_step config) es sv)" for sv
    by (induction es arbitrary: sv) (auto simp: server_step_ok [OF _ assms])
  then show ?thesis by (simp add: server_ok_def server_new_def metrics_new_def)
qed

section \<open>Answers\<close>

text \<open>A message to a client under a correlation id.\<close>

definition reply_for :: "u32 \<Rightarrow> byte list \<Rightarrow> bool" where
  "reply_for cid f \<longleftrightarrow> 9 \<le> length f \<and> f ! 0 = SHARD_MAGIC \<and> reply_clrid f = cid"

lemma reply_for_reply_ok: "reply_ok cid f \<Longrightarrow> reply_for cid f"
  by (simp add: reply_for_def reply_ok_def SHARD_MAGIC_def)

lemma reply_for_reply_bytes: "reply_for cid (reply_bytes cid payload)"
  by (simp add: reply_for_def reply_bytes_def reply_clrid_def)

lemma reply_for_error: "reply_for cid (build_error_response cid code)"
  by (simp add: reply_for_def build_error_response_def reply_clrid_def SHARD_MAGIC_def Let_def)

text \<open>
  A call for a decoded frame: it returns, an answer carries the id of the client, and the
  internal error is impossible because the id lies in the frame.
\<close>

lemma forward_answer:
  assumes ok: "world_ok w" and dec: "decode_router buf = Inr (Some f)"
    and fb: "fb = take (rf_frame_len f) buf"
  shows "\<exists>r call. forward site sched fw fb (rf_segment f) (rf_clrid_offset f) (rf_original_clrid f)
      (rf_is_write f) w = Some (r, call) \<and> world_le w (cl_world call) \<and>
    (\<forall>response. r = Inr response \<longrightarrow> reply_for (rf_original_clrid f) response) \<and>
    (\<forall>m. r \<noteq> Inl (FE_Internal m))"
proof -
  let ?fwd = "forward site sched fw fb (rf_segment f) (rf_clrid_offset f) (rf_original_clrid f) (rf_is_write f) w"
  consider "rf_segment f = GETSEGMENTS" | "rf_segment f = GETCODECS"
    | "rf_segment f \<noteq> GETSEGMENTS" "rf_segment f \<noteq> GETCODECS" by blast
  then show ?thesis
  proof cases
    case 1
    with ok show ?thesis by (simp add: forward_get_segments world_le_refl reply_for_reply_bytes)
  next
    case 2
    with ok show ?thesis by (simp add: forward_get_codecs world_le_refl reply_for_reply_bytes)
  next
    case 3
    let ?job = "\<lparr>jb_segment = rf_segment f, jb_offset = rf_clrid_offset f,
      jb_clrid = rf_original_clrid f, jb_write = rf_is_write f\<rparr>"
    from forward_outcome [OF ok 3] obtain r call n where r: "?fwd = Some (r, call)"
      "outcome ?job fb (start_call w fb) (Some r) call n" by blast
    then obtain es where es: "explains ?job fb es (Some r)" "\<forall>e\<in>set es. send_ok ?job fb e"
      "world_le w (cl_world call)" by (auto simp: outcome_def)
    have "reply_for (rf_original_clrid f) response" if "r = Inr response" for response
    proof -
      from es(1) that obtain e reply where e: "e \<in> set es" "sd_result e = Inr reply"
        "response = with_clrid (rf_original_clrid f) reply" by fastforce
      then have "reply_ok (sd_id e) reply" using es(2) by (simp add: send_ok_def)
      from with_clrid_reply_ok [OF this] e(3) show ?thesis by (simp add: reply_for_reply_ok)
    qed
    moreover have "r \<noteq> Inl (FE_Internal m)" for m
      using es(1) decode_router_bounds(2,4) [OF dec] fb by auto
    ultimately show ?thesis using r(1) es(3) by blast
  qed
qed

section \<open>Sessions answer their requests\<close>

definition is_request :: "router_frame \<times> byte list \<Rightarrow> bool" where
  "is_request p \<longleftrightarrow> rf_segment (fst p) \<noteq> KEEPALIVE_SEGMENT"

text \<open>
  The accounting of a session: the frames taken decode to what they were taken for, every
  request among them has one answer, in order and under its own id, and what was written to
  the client are these answers; when the last write failed, all but the last.
\<close>

definition session_inv :: "session \<Rightarrow> bool" where
  "session_inv s \<longleftrightarrow> world_ok (ss_world s) \<and>
     (\<forall>(f, fb)\<in>set (ss_frames s). decode_router fb = Inr (Some f) \<and> length fb = rf_frame_len f) \<and>
     map fst (ss_answers s) = map fst (filter is_request (ss_frames s)) \<and>
     (\<forall>(f, answer)\<in>set (ss_answers s). reply_for (rf_original_clrid f) answer) \<and>
     mt_internal_errors (ss_metrics s) = 0"

definition all_written :: "session \<Rightarrow> bool" where
  "all_written s \<longleftrightarrow> ss_out s = map snd (ss_answers s)"

definition last_lost :: "session \<Rightarrow> bool" where
  "last_lost s \<longleftrightarrow> ss_answers s \<noteq> [] \<and> ss_out s = map snd (butlast (ss_answers s))"

lemma write_client_out:
  assumes "write_client peer b bytes s = (t, s')" and "ss_answers s = as @ [(f, bytes)]"
    and "ss_out s = map snd as"
  shows "(all_written s' \<or> t = Hang_Up \<and> last_lost s') \<and> t \<noteq> Wait_More \<and>
    mt_internal_errors (ss_metrics s') = mt_internal_errors (ss_metrics s)"
  using assms by (auto simp: write_client_def all_written_def last_lost_def Let_def split: if_splits)

text \<open>Serving one decoded frame, after it has been taken from the buffer.\<close>

lemma serve_frame_ok:
  assumes dec: "decode_router buf = Inr (Some f)" and fb: "fb = take (rf_frame_len f) buf"
    and s: "ss_frames s = fs @ [(f, fb)]" and inv: "session_inv (s\<lparr>ss_frames := fs\<rparr>)"
    and out: "all_written s"
  shows "\<exists>t s'. serve_frame site peer fw f fb s = Some (t, s') \<and> session_inv s' \<and>
    (all_written s' \<or> t = Hang_Up \<and> last_lost s') \<and> world_le (ss_world s) (ss_world s')"
proof -
  have frame: "decode_router fb = Inr (Some f) \<and> length fb = rf_frame_len f"
    using decode_router_take [OF dec] decode_router_bounds(2) [OF dec] fb by simp
  note I = inv [unfolded session_inv_def, simplified]
  have ok: "world_ok (ss_world s)" using I by simp
  show ?thesis
  proof (cases "rf_segment f = KEEPALIVE_SEGMENT")
    case True
    then show ?thesis
      using I s frame out ok
      by (simp add: serve_frame_def session_inv_def is_request_def all_written_def world_le_refl)
  next
    case False
    from forward_answer [OF ok dec fb, of site "pe_sched peer (ss_calls s)" fw] obtain r call where
      r: "forward site (pe_sched peer (ss_calls s)) fw fb (rf_segment f) (rf_clrid_offset f)
        (rf_original_clrid f) (rf_is_write f) (ss_world s) = Some (r, call)"
      "world_le (ss_world s) (cl_world call)"
      "\<forall>response. r = Inr response \<longrightarrow> reply_for (rf_original_clrid f) response"
      "\<forall>m. r \<noteq> Inl (FE_Internal m)" by blast
    define answer where "answer = (case r of Inr response \<Rightarrow> response
      | Inl fe \<Rightarrow> build_error_response (rf_original_clrid f) (error_code fe))"
    define m where "m = (case r of
        Inr response \<Rightarrow> (ss_metrics s)\<lparr>mt_frames_forwarded := mt_frames_forwarded (ss_metrics s) + 1\<rparr>
      | Inl fe \<Rightarrow> error_metric fe (ss_metrics s))"
    define s1 where "s1 = s\<lparr>ss_world := cl_world call, ss_calls := Suc (ss_calls s), ss_metrics := m,
      ss_answers := ss_answers s @ [(f, answer)]\<rparr>"
    have run: "serve_frame site peer fw f fb s =
        Some (write_client peer (case r of Inr _ \<Rightarrow> True | Inl _ \<Rightarrow> False) answer s1)"
      using False r(1) by (cases r) (simp_all add: serve_frame_def Let_def answer_def m_def s1_def)
    obtain t s' where w: "write_client peer (case r of Inr _ \<Rightarrow> True | Inl _ \<Rightarrow> False) answer s1 = (t, s')"
      by fastforce
    have m0: "mt_internal_errors m = 0"
      using I r(4) by (cases r) (auto simp: m_def error_metric_def split: forward_error.splits)
    have o: "(all_written s' \<or> t = Hang_Up \<and> last_lost s') \<and> t \<noteq> Wait_More \<and>
        mt_internal_errors (ss_metrics s') = mt_internal_errors (ss_metrics s1)"
      using write_client_out [OF w, of "ss_answers s" f] out by (simp add: s1_def all_written_def)
    have same: "ss_frames s' = ss_frames s1" "ss_answers s' = ss_answers s1" "ss_world s' = ss_world s1"
      using write_client_buf(2-4) [where peer = peer and s = s1 and bytes = answer] w
      by (metis snd_conv)+
    have a: "reply_for (rf_original_clrid f) answer"
      using r(3) by (cases r) (simp_all add: answer_def reply_for_error)
    have "session_inv s'"
      using I s frame a o same m0 world_le_ok [OF r(2)] False
      by (simp add: session_inv_def s1_def is_request_def)
    moreover have "world_le (ss_world s) (ss_world s')" using r(2) same by (simp add: s1_def)
    ultimately show ?thesis using run w o by auto
  qed
qed

text \<open>One turn of the loop.\<close>

definition turn_ok :: "session \<Rightarrow> turn \<Rightarrow> session \<Rightarrow> bool" where
  "turn_ok s t s' \<longleftrightarrow> session_inv s' \<and> (all_written s' \<or> t = Hang_Up \<and> last_lost s')"

lemma turn_ok_simple:
  assumes "session_inv s" and "all_written s" and "ss_world s' = ss_world s"
    and "ss_frames s' = ss_frames s" "ss_answers s' = ss_answers s" "ss_out s' = ss_out s"
    and "mt_internal_errors (ss_metrics s') = mt_internal_errors (ss_metrics s)"
  shows "turn_ok s t s'"
  using assms by (simp add: turn_ok_def session_inv_def all_written_def)

lemma frame_turn_ok:
  assumes inv: "session_inv s" and out: "all_written s"
  shows "\<exists>t s'. frame_turn site config peer fw s = Some (t, s') \<and> turn_ok s t s'"
proof (cases "length (ss_buf s) > cfg_max_buffer_size config")
  case True
  then show ?thesis by (auto simp: frame_turn_def intro!: turn_ok_simple inv out)
next
  case small: False
  show ?thesis
  proof (cases "decode_router (ss_buf s)")
    case (Inl e)
    have ne: "ss_buf s \<noteq> []" using decode_router_Inl_length [OF Inl] by auto
    then have adv: "advance 1 (ss_buf s) = Some (drop 1 (ss_buf s))" by (simp add: advance_def Suc_le_eq)
    show ?thesis
    proof (cases "position (\<lambda>b. b = ROUTER_MAGIC) (drop 1 (ss_buf s))")
      case None
      with small Inl ne adv show ?thesis
        by (auto simp: frame_turn_def run_simps advance_def Let_def intro!: turn_ok_simple inv out)
    next
      case (Some pos)
      with position_SomeD [OF Some] have "pos \<le> length (drop 1 (ss_buf s))" by simp
      with small Inl ne adv Some show ?thesis
        by (auto simp: frame_turn_def run_simps advance_def Let_def intro!: turn_ok_simple inv out)
    qed
  next
    case (Inr r)
    show ?thesis
    proof (cases r)
      case None
      with small Inr show ?thesis
        by (auto simp: frame_turn_def run_simps Let_def intro!: turn_ok_simple inv out)
    next
      case (Some f)
      show ?thesis
      proof (cases "rf_frame_len f > cfg_max_frame_size config")
        case True
        with small Inr Some show ?thesis
          by (auto simp: frame_turn_def run_simps intro!: turn_ok_simple inv out)
      next
        case fits: False
        note dec = Inr [unfolded Some]
        note b = decode_router_bounds(2) [OF dec]
        let ?fb = "take (rf_frame_len f) (ss_buf s)"
        define s1 where "s1 = s\<lparr>ss_last := pe_now peer (ss_clock s), ss_clock := Suc (ss_clock s),
          ss_metrics := (ss_metrics s)\<lparr>mt_frames_received := mt_frames_received (ss_metrics s) + 1\<rparr>,
          ss_buf := drop (rf_frame_len f) (ss_buf s), ss_frames := ss_frames s @ [(f, ?fb)]\<rparr>"
        have run: "frame_turn site config peer fw s = serve_frame site peer fw f ?fb s1"
          using small dec fits b by (simp add: frame_turn_def run_simps split_to_def s1_def)
        have "session_inv (s1\<lparr>ss_frames := ss_frames s\<rparr>)" "all_written s1"
          using inv out by (simp_all add: s1_def session_inv_def all_written_def)
        from serve_frame_ok [OF dec refl _ this, of site peer fw] run show ?thesis
          by (auto simp: s1_def turn_ok_def)
      qed
    qed
  qed
qed

lemma serve_ok:
  "session_inv s \<Longrightarrow> all_written s \<Longrightarrow>
   \<exists>t s'. serve site config peer fw s = Some (t, s') \<and> t \<noteq> Go_On \<and> turn_ok s t s'"
proof (induction site config peer fw s rule: serve.induct)
  case (1 site config peer fw s)
  from frame_turn_ok [OF 1(2,3), of site config peer fw] obtain t s1 where
    t: "frame_turn site config peer fw s = Some (t, s1)" "turn_ok s t s1" by blast
  show ?case
  proof (cases t)
    case Go_On
    with t(2) have "session_inv s1" "all_written s1" by (auto simp: turn_ok_def)
    from 1(1) [OF t(1) refl Go_On this] t(1) Go_On show ?thesis
      by (auto simp: serve.simps [of site config peer fw s] turn_ok_def)
  qed (use t in \<open>auto simp: serve.simps [of site config peer fw s]\<close>)
qed

lemma on_read_ok:
  assumes "session_inv s" and "all_written s"
  shows "\<exists>t s'. on_read site config peer fw r s = Some (t, s') \<and> turn_ok s t s'"
proof (cases r)
  case (Read_Bytes bytes)
  show ?thesis
  proof (cases "bytes = []")
    case False
    let ?s = "(count (\<lambda>m. m\<lparr>mt_bytes_received := mt_bytes_received m + length bytes\<rparr>) s)
      \<lparr>ss_buf := ss_buf s @ bytes\<rparr>"
    have "session_inv ?s" "all_written ?s"
      using assms by (simp_all add: session_inv_def all_written_def)
    from serve_ok [OF this, of site config peer fw] Read_Bytes False show ?thesis
      by (auto simp: turn_ok_def)
  qed (use assms Read_Bytes in \<open>auto intro!: turn_ok_simple\<close>)
qed (use assms in \<open>auto intro!: turn_ok_simple\<close>)

lemma handle_connection_ok:
  "session_inv s \<Longrightarrow> all_written s \<Longrightarrow>
   \<exists>s'. handle_connection site config peer fw reads s = Some s' \<and> session_inv s' \<and>
     (all_written s' \<or> last_lost s')"
proof (induction reads arbitrary: s)
  case (Cons q reads)
  obtain es r where q: "q = (es, r)" by (cases q)
  have "world_ok (ss_world s)" using Cons.prems(1) by (simp add: session_inv_def)
  from world_run_ok [OF this, of site es] obtain w where
    w: "world_run site es (ss_world s) = Some w" "world_ok w" using world_le_ok by blast
  have "session_inv (s\<lparr>ss_world := w\<rparr>)" "all_written (s\<lparr>ss_world := w\<rparr>)"
    using Cons.prems w(2) by (simp_all add: session_inv_def all_written_def)
  from on_read_ok [OF this, of site config peer fw r] obtain t s1 where
    t: "on_read site config peer fw r (s\<lparr>ss_world := w\<rparr>) = Some (t, s1)"
    "session_inv s1" "all_written s1 \<or> t = Hang_Up \<and> last_lost s1" by (auto simp: turn_ok_def)
  have run: "handle_connection site config peer fw (q # reads) s =
      (if t = Hang_Up then Some s1 else handle_connection site config peer fw reads s1)"
    using q w(1) t(1) by simp
  show ?case
  proof (cases "t = Hang_Up")
    case True
    with run t(2,3) show ?thesis by auto
  next
    case False
    with t(3) have "all_written s1" by simp
    from Cons.IH [OF t(2) this] run False show ?thesis by simp
  qed
qed auto

lemma session_start_inv:
  "world_ok w \<Longrightarrow> mt_internal_errors m = 0 \<Longrightarrow>
   session_inv (session_start now m w) \<and> all_written (session_start now m w)"
  by (simp add: session_inv_def session_start_def all_written_def)

section \<open>The frames a session takes\<close>

text \<open>One turn, in terms of the pure frame extraction.\<close>

lemma frame_turn_frames:
  assumes "frame_turn site config peer fw s = Some (t, s')"
  shows "t = Go_On \<Longrightarrow> \<exists>fs. ss_frames s' = ss_frames s @ fs \<and>
      frames_of (ss_buf s) = (fs @ fst (frames_of (ss_buf s')), snd (frames_of (ss_buf s')))"
    and "t = Wait_More \<Longrightarrow> ss_frames s' = ss_frames s \<and> frames_of (ss_buf s) = ([], ss_buf s') \<and>
      length (ss_buf s') \<le> cfg_max_buffer_size config"
    and "t = Hang_Up \<Longrightarrow> \<exists>n. ss_frames s' = ss_frames s @ take n (fst (frames_of (ss_buf s)))"
proof -
  have A: "(t = Go_On \<longrightarrow> (\<exists>fs. ss_frames s' = ss_frames s @ fs \<and>
      frames_of (ss_buf s) = (fs @ fst (frames_of (ss_buf s')), snd (frames_of (ss_buf s'))))) \<and>
    (t = Wait_More \<longrightarrow> ss_frames s' = ss_frames s \<and> frames_of (ss_buf s) = ([], ss_buf s') \<and>
      length (ss_buf s') \<le> cfg_max_buffer_size config) \<and>
    (t = Hang_Up \<longrightarrow> (\<exists>n. ss_frames s' = ss_frames s @ take n (fst (frames_of (ss_buf s)))))"
  proof (cases "length (ss_buf s) > cfg_max_buffer_size config")
    case True
    with assms show ?thesis by (auto simp: frame_turn_def intro: exI [of _ 0])
  next
    case small: False
    show ?thesis
    proof (cases "decode_router (ss_buf s)")
      case (Inl e)
      note l = decode_router_Inl_length [OF Inl]
      have ne: "ss_buf s \<noteq> []" using l by auto
      have adv: "advance 1 (ss_buf s) = Some (drop 1 (ss_buf s))" using l by (simp add: advance_def)
      have "(t = Go_On \<and> resync (ss_buf s) = Some (ss_buf s') \<or>
          t = Wait_More \<and> resync (ss_buf s) = None \<and> ss_buf s' = keep_window (drop 1 (ss_buf s))) \<and>
          ss_frames s' = ss_frames s"
        using assms small Inl ne adv
        by (cases "position (\<lambda>b. b = ROUTER_MAGIC) (drop 1 (ss_buf s))")
           (auto simp: frame_turn_def run_simps resync_def keep_window_def advance_def Let_def
             split: if_splits)
      moreover have "length (keep_window (drop 1 (ss_buf s))) \<le> length (ss_buf s)"
        by (auto simp: keep_window_def)
      ultimately show ?thesis
        using Inl small by (auto simp: frames_of.simps [of "ss_buf s"])
    next
      case (Inr r)
      show ?thesis
      proof (cases r)
        case None
        with assms small Inr show ?thesis
          by (auto simp: frame_turn_def run_simps frames_of.simps [of "ss_buf s"] Let_def
              split: if_splits intro: exI [of _ 0])
      next
        case (Some f)
        note dec = Inr [unfolded Some]
        note b = decode_router_bounds(2) [OF dec]
        have fo: "frames_of (ss_buf s) = ((f, take (rf_frame_len f) (ss_buf s)) #
            fst (frames_of (drop (rf_frame_len f) (ss_buf s))),
            snd (frames_of (drop (rf_frame_len f) (ss_buf s))))"
          using dec by (simp add: frames_of.simps [of "ss_buf s"] case_prod_unfold Let_def)
        show ?thesis
        proof (cases "rf_frame_len f > cfg_max_frame_size config")
          case True
          with assms small dec show ?thesis
            by (auto simp: frame_turn_def run_simps intro: exI [of _ 0])
        next
          case False
          with assms small dec b obtain s1 where
            "serve_frame site peer fw f (take (rf_frame_len f) (ss_buf s)) s1 = Some (t, s')"
            "ss_buf s1 = drop (rf_frame_len f) (ss_buf s)"
            "ss_frames s1 = ss_frames s @ [(f, take (rf_frame_len f) (ss_buf s))]"
            by (auto simp: frame_turn_def run_simps split_to_def Let_def)
          with serve_frame_buf [OF this(1)] fo show ?thesis by (auto intro: exI [of _ 1])
        qed
      qed
    qed
  qed
  show "t = Go_On \<Longrightarrow> \<exists>fs. ss_frames s' = ss_frames s @ fs \<and>
      frames_of (ss_buf s) = (fs @ fst (frames_of (ss_buf s')), snd (frames_of (ss_buf s')))"
    using A by simp
  show "t = Wait_More \<Longrightarrow> ss_frames s' = ss_frames s \<and> frames_of (ss_buf s) = ([], ss_buf s') \<and>
      length (ss_buf s') \<le> cfg_max_buffer_size config" using A by simp
  show "t = Hang_Up \<Longrightarrow> \<exists>n. ss_frames s' = ss_frames s @ take n (fst (frames_of (ss_buf s)))"
    using A by simp
qed

lemma serve_frames:
  "serve site config peer fw s = Some (t, s') \<Longrightarrow>
   (t = Wait_More \<longrightarrow> ss_frames s' = ss_frames s @ fst (frames_of (ss_buf s)) \<and>
      ss_buf s' = snd (frames_of (ss_buf s)) \<and> length (ss_buf s') \<le> cfg_max_buffer_size config) \<and>
   (\<exists>n. ss_frames s' = ss_frames s @ take n (fst (frames_of (ss_buf s))))"
proof (induction site config peer fw s rule: serve.induct)
  case (1 site config peer fw s)
  from 1(2) obtain t1 s1 where t1: "frame_turn site config peer fw s = Some (t1, s1)"
    by (auto simp: serve.simps [of site config peer fw s] split: option.splits)
  note F = frame_turn_frames [OF t1]
  show ?case
  proof (cases t1)
    case Go_On
    with 1(2) t1 have "serve site config peer fw s1 = Some (t, s')"
      by (simp add: serve.simps [of site config peer fw s])
    note I = 1(1) [OF t1 refl Go_On this]
    from F(1) [OF Go_On] obtain fs where fs: "ss_frames s1 = ss_frames s @ fs"
      "frames_of (ss_buf s) = (fs @ fst (frames_of (ss_buf s1)), snd (frames_of (ss_buf s1)))" by blast
    from I obtain n where n: "ss_frames s' = ss_frames s1 @ take n (fst (frames_of (ss_buf s1)))" by blast
    have "ss_frames s' = ss_frames s @ take (length fs + n) (fst (frames_of (ss_buf s)))"
      using fs n by simp
    then have "\<exists>n. ss_frames s' = ss_frames s @ take n (fst (frames_of (ss_buf s)))" ..
    moreover have "t = Wait_More \<longrightarrow> ss_frames s' = ss_frames s @ fst (frames_of (ss_buf s)) \<and>
      ss_buf s' = snd (frames_of (ss_buf s)) \<and> length (ss_buf s') \<le> cfg_max_buffer_size config"
      using I fs by auto
    ultimately show ?thesis by (rule conjI [rotated])
  next
    case Wait_More
    with 1(2) t1 have "t = Wait_More" "s' = s1" by (simp_all add: serve.simps [of site config peer fw s])
    with F(2) [OF Wait_More] show ?thesis by simp
  next
    case Hang_Up
    with 1(2) t1 have "t = Hang_Up" "s' = s1" by (simp_all add: serve.simps [of site config peer fw s])
    with F(3) [OF Hang_Up] show ?thesis by simp
  qed
qed

text \<open>The bytes the reads of a session bring.\<close>

fun read_bytes :: "read_result \<Rightarrow> byte list" where
  "read_bytes (Read_Bytes bytes) = bytes"
| "read_bytes _ = []"

definition stream_of :: "(world_event list \<times> read_result) list \<Rightarrow> byte list" where
  "stream_of reads = concat (map (read_bytes \<circ> snd) reads)"

lemma handle_connection_frames:
  "handle_connection site config peer fw reads s = Some s' \<Longrightarrow> fst (frames_of (ss_buf s)) = [] \<Longrightarrow>
   \<exists>n. ss_frames s' = ss_frames s @ take n (fst (frames_of (ss_buf s @ stream_of reads)))"
proof (induction reads arbitrary: s)
  case Nil
  then show ?case by (simp add: stream_of_def)
next
  case (Cons q reads)
  obtain es r where q: "q = (es, r)" by (cases q)
  from Cons.prems(1) obtain w t s1 where
    r: "on_read site config peer fw r (s\<lparr>ss_world := w\<rparr>) = Some (t, s1)"
    and rest: "(if t = Hang_Up then Some s1 else handle_connection site config peer fw reads s1) = Some s'"
    by (auto simp: q split: bind_splits)
  have stream: "stream_of (q # reads) = read_bytes r @ stream_of reads" by (simp add: q stream_of_def)
  show ?case
  proof (cases "\<exists>bytes. r = Read_Bytes bytes \<and> bytes \<noteq> []")
    case False
    then have "t = Hang_Up" "ss_frames s1 = ss_frames s"
      using r by (cases r; force)+
    with rest show ?thesis by (auto intro: exI [of _ 0])
  next
    case True
    then obtain bytes where b: "r = Read_Bytes bytes" "bytes \<noteq> []" by blast
    let ?front = "ss_buf s @ bytes"
    obtain s0 where s0: "serve site config peer fw s0 = Some (t, s1)" "ss_buf s0 = ?front"
      "ss_frames s0 = ss_frames s" using r b by auto
    note F = serve_frames [OF s0(1), unfolded s0(2,3)]
    note A = frames_of_append [of ?front "stream_of reads"]
    show ?thesis
    proof (cases "t = Hang_Up")
      case True
      with rest have "s' = s1" by simp
      with F obtain n where n: "ss_frames s' = ss_frames s @ take n (fst (frames_of ?front))" by blast
      let ?m = "min n (length (fst (frames_of ?front)))"
      have "take ?m (fst (frames_of (?front @ stream_of reads))) = take n (fst (frames_of ?front))"
        using A by (simp add: min_def)
      with n b stream show ?thesis by (intro exI [of _ ?m]) simp
    next
      case False
      then have t: "t = Wait_More" using s0(1) F
      proof (cases t)
        case Go_On
        have "t \<noteq> Go_On" using s0(1)
          by (induction site config peer fw s0 rule: serve.induct)
             (subst (asm) (2) serve.simps, auto split: option.splits turn.splits prod.splits)
        with Go_On show ?thesis by simp
      qed auto
      with F have s1: "ss_frames s1 = ss_frames s @ fst (frames_of ?front)"
        "ss_buf s1 = snd (frames_of ?front)" by auto
      have left: "fst (frames_of (ss_buf s1)) = []" using frames_of_left s1(2) by simp
      have "handle_connection site config peer fw reads s1 = Some s'" using rest False by simp
      from Cons.IH [OF this left] s1 A obtain n where
        "ss_frames s' = ss_frames s @ fst (frames_of ?front) @
          take n (fst (frames_of (snd (frames_of ?front) @ stream_of reads)))" by auto
      then have "ss_frames s' = ss_frames s @
          take (length (fst (frames_of ?front)) + n) (fst (frames_of (?front @ stream_of reads)))"
        using A by simp
      with b stream show ?thesis by auto
    qed
  qed
qed

section \<open>A session without trouble serves everything\<close>

text \<open>The socket of the client works, and the whole session takes less than the frame timeout.\<close>

definition kind_peer :: "config \<Rightarrow> peer \<Rightarrow> int \<Rightarrow> bool" where
  "kind_peer config peer a \<longleftrightarrow> (\<forall>n. pe_write peer n \<and> pe_flush peer n \<and>
     a \<le> pe_now peer n \<and> pe_now peer n \<le> a + int (frame_timeout config))"

lemma serve_frame_kind:
  assumes "kind_peer config peer a" and "serve_frame site peer fw f fb s = Some (t, s')"
  shows "t = Go_On" and "ss_last s' = ss_last s"
  using assms by (auto simp: serve_frame_def write_client_def kind_peer_def Let_def
      split: if_splits bind_splits sum.splits)

lemma frame_turn_kind:
  assumes kind: "kind_peer config peer a" and last: "a \<le> ss_last s"
    and size: "length (ss_buf s) \<le> cfg_max_buffer_size config"
    and small: "\<forall>(f, fb)\<in>set (fst (frames_of (ss_buf s))). rf_frame_len f \<le> cfg_max_frame_size config"
    and run: "frame_turn site config peer fw s = Some (t, s')"
  shows "t \<noteq> Hang_Up \<and> a \<le> ss_last s'"
proof (cases "decode_router (ss_buf s)")
  case (Inl e)
  with run size last show ?thesis
    by (auto simp: frame_turn_def run_simps Let_def split: if_splits option.splits bind_splits)
next
  case (Inr r)
  show ?thesis
  proof (cases r)
    case None
    have "pe_now peer (ss_clock s) - ss_last s \<le> int (frame_timeout config)"
      using kind last by (auto simp: kind_peer_def dest: spec [of _ "ss_clock s"])
    with run size last Inr None show ?thesis
      by (auto simp: frame_turn_def run_simps Let_def split: if_splits)
  next
    case (Some f)
    note dec = Inr [unfolded Some]
    have "rf_frame_len f \<le> cfg_max_frame_size config"
      using small dec by (simp add: frames_of.simps [of "ss_buf s"] case_prod_unfold Let_def)
    with run size dec decode_router_bounds(2) [OF dec] obtain s1 where
      s1: "serve_frame site peer fw f (take (rf_frame_len f) (ss_buf s)) s1 = Some (t, s')"
      "ss_last s1 = pe_now peer (ss_clock s)"
      by (auto simp: frame_turn_def run_simps split_to_def Let_def)
    from serve_frame_kind [OF kind s1(1)] s1(2) kind show ?thesis by (auto simp: kind_peer_def)
  qed
qed

lemma serve_kind:
  "serve site config peer fw s = Some (t, s') \<Longrightarrow> kind_peer config peer a \<Longrightarrow> a \<le> ss_last s \<Longrightarrow>
   length (ss_buf s) \<le> cfg_max_buffer_size config \<Longrightarrow>
   \<forall>(f, fb)\<in>set (fst (frames_of (ss_buf s))). rf_frame_len f \<le> cfg_max_frame_size config \<Longrightarrow>
   t = Wait_More \<and> a \<le> ss_last s'"
proof (induction site config peer fw s rule: serve.induct)
  case (1 site config peer fw s)
  from 1(2) obtain t1 s1 where t1: "frame_turn site config peer fw s = Some (t1, s1)"
    by (auto simp: serve.simps [of site config peer fw s] split: option.splits)
  note K = frame_turn_kind [OF 1(3-6) t1]
  show ?case
  proof (cases t1)
    case Go_On
    with 1(2) t1 have r: "serve site config peer fw s1 = Some (t, s')"
      by (simp add: serve.simps [of site config peer fw s])
    have "length (ss_buf s1) \<le> cfg_max_buffer_size config"
      using frame_turn_shorter [OF t1 [unfolded Go_On]] 1(5) by simp
    moreover have "set (fst (frames_of (ss_buf s1))) \<subseteq> set (fst (frames_of (ss_buf s)))"
      using frame_turn_frames(1) [OF t1 Go_On] by auto
    ultimately show ?thesis using 1(1) [OF t1 refl Go_On r 1(3)] K 1(6) by blast
  qed (use K 1(2) t1 in \<open>simp_all add: serve.simps [of site config peer fw s]\<close>)
qed

lemma handle_connection_kind:
  assumes "handle_connection site config peer fw (map (\<lambda>(es, b). (es, Read_Bytes b)) cs) s = Some s'"
    and "kind_peer config peer a" and "a \<le> ss_last s" and "\<forall>(es, b)\<in>set cs. b \<noteq> []"
    and "fits (cfg_max_buffer_size config) (ss_buf s) (map snd cs)"
    and "fst (frames_of (ss_buf s)) = []"
    and "\<forall>(f, fb)\<in>set (fst (frames_of (ss_buf s @ concat (map snd cs)))).
      rf_frame_len f \<le> cfg_max_frame_size config"
  shows "ss_frames s' = ss_frames s @ fst (frames_of (ss_buf s @ concat (map snd cs)))"
  using assms(1,3-7)
proof (induction cs arbitrary: s)
  case (Cons q cs)
  obtain es b where q: "q = (es, b)" by (cases q)
  let ?front = "ss_buf s @ b" and ?rest = "concat (map snd cs)"
  note A = frames_of_append [of ?front ?rest]
  from Cons.prems(1,3) obtain w t s0 s1 where r: "serve site config peer fw s0 = Some (t, s1)"
    "ss_buf s0 = ?front" "ss_frames s0 = ss_frames s" "ss_last s0 = ss_last s"
    and rest: "(if t = Hang_Up then Some s1
      else handle_connection site config peer fw (map (\<lambda>(es, b). (es, Read_Bytes b)) cs) s1) = Some s'"
    by (auto simp: q split: bind_splits)
  have small: "\<forall>(f, fb)\<in>set (fst (frames_of (ss_buf s0))). rf_frame_len f \<le> cfg_max_frame_size config"
    using Cons.prems(6) A r(2) q by (auto simp: ball_Un)
  have K: "t = Wait_More" "a \<le> ss_last s1"
    using serve_kind [OF r(1) assms(2) _ _ small] Cons.prems(2,4) r(2,4) q by simp_all
  note F = serve_frames [OF r(1), unfolded r(2,3)]
  have s1: "ss_frames s1 = ss_frames s @ fst (frames_of ?front)" "ss_buf s1 = snd (frames_of ?front)"
    using F K(1) by auto
  have "fst (frames_of (ss_buf s1)) = []" using frames_of_left s1(2) by simp
  moreover have "fits (cfg_max_buffer_size config) (ss_buf s1) (map snd cs)"
    using s1(2) Cons.prems(4) q by simp
  moreover have "\<forall>(f, fb)\<in>set (fst (frames_of (ss_buf s1 @ ?rest))). rf_frame_len f \<le> cfg_max_frame_size config"
    using Cons.prems(6) A s1(2) q by (auto simp: ball_Un)
  moreover have "handle_connection site config peer fw (map (\<lambda>(es, b). (es, Read_Bytes b)) cs) s1 = Some s'"
    using rest K(1) by simp
  ultimately have "ss_frames s' = ss_frames s1 @ fst (frames_of (ss_buf s1 @ ?rest))"
    using Cons.IH K(2) Cons.prems(3) by simp
  with A s1 q show ?case by simp
qed simp

text \<open>Then every answer is written as well.\<close>

lemma handle_connection_kind_written:
  assumes "handle_connection site config peer fw (map (\<lambda>(es, b). (es, Read_Bytes b)) cs) s = Some s'"
    and "kind_peer config peer a" and "a \<le> ss_last s" and "\<forall>(es, b)\<in>set cs. b \<noteq> []"
    and "fits (cfg_max_buffer_size config) (ss_buf s) (map snd cs)"
    and "fst (frames_of (ss_buf s)) = []"
    and "\<forall>(f, fb)\<in>set (fst (frames_of (ss_buf s @ concat (map snd cs)))).
      rf_frame_len f \<le> cfg_max_frame_size config"
    and "session_inv s" and "all_written s"
  shows "all_written s'"
  using assms(1,3-9)
proof (induction cs arbitrary: s)
  case (Cons q cs)
  obtain es b where q: "q = (es, b)" by (cases q)
  let ?front = "ss_buf s @ b" and ?rest = "concat (map snd cs)"
  from Cons.prems(1) obtain w t s1 where w: "world_run site es (ss_world s) = Some w"
    and on: "on_read site config peer fw (Read_Bytes b) (s\<lparr>ss_world := w\<rparr>) = Some (t, s1)"
    and rest: "(if t = Hang_Up then Some s1
      else handle_connection site config peer fw (map (\<lambda>(es, b). (es, Read_Bytes b)) cs) s1) = Some s'"
    by (auto simp: q split: bind_splits)
  have "session_inv (s\<lparr>ss_world := w\<rparr>)" "all_written (s\<lparr>ss_world := w\<rparr>)"
    using world_run_ok [of "ss_world s" site es] w world_le_ok Cons.prems(7,8)
    by (auto simp: session_inv_def all_written_def)
  from on_read_ok [OF this, of site config peer fw "Read_Bytes b"] on
  have turn: "turn_ok (s\<lparr>ss_world := w\<rparr>) t s1" by simp
  from on Cons.prems(3) obtain s0 where r: "serve site config peer fw s0 = Some (t, s1)"
    "ss_buf s0 = ?front" "ss_last s0 = ss_last s" by (auto simp: q)
  note A = frames_of_append [of ?front ?rest]
  have small: "\<forall>(f, fb)\<in>set (fst (frames_of (ss_buf s0))). rf_frame_len f \<le> cfg_max_frame_size config"
    using Cons.prems(6) A r(2) q by (auto simp: ball_Un)
  have K: "t = Wait_More" "a \<le> ss_last s1"
    using serve_kind [OF r(1) assms(2) _ _ small] Cons.prems(2,4) r(2,3) q by simp_all
  have s1: "ss_buf s1 = snd (frames_of ?front)" using serve_frames [OF r(1)] K(1) r(2) by auto
  show ?case
  proof (rule Cons.IH)
    show "handle_connection site config peer fw (map (\<lambda>(es, b). (es, Read_Bytes b)) cs) s1 = Some s'"
      using rest K(1) by simp
    show "fits (cfg_max_buffer_size config) (ss_buf s1) (map snd cs)"
      using s1 Cons.prems(4) q by simp
    show "\<forall>(f, fb)\<in>set (fst (frames_of (ss_buf s1 @ ?rest))). rf_frame_len f \<le> cfg_max_frame_size config"
      using Cons.prems(6) A s1 q by (auto simp: ball_Un)
    show "session_inv s1" "all_written s1" using turn K(1) by (simp_all add: turn_ok_def)
  qed (use K(2) Cons.prems(3) frames_of_left s1 in simp_all)
qed simp

text \<open>
  The frame timeout runs from the last complete frame, not from the first byte of the frame
  that is incomplete: after a pause, the first bytes of a new frame end the session.
\<close>

lemma late_frame_dropped:
  assumes "ss_buf s = []" and "0 < length bytes" "length bytes < 5"
    and "length bytes \<le> cfg_max_buffer_size config"
    and "pe_now peer (ss_clock s) - ss_last s > int (frame_timeout config)"
  shows "\<exists>s'. on_read site config peer fw (Read_Bytes bytes) s = Some (Hang_Up, s') \<and>
    mt_timeouts (ss_metrics s') = mt_timeouts (ss_metrics s) + 1"
  using assms
  by (auto simp: serve.simps frame_turn_def run_simps decode_router_def Let_def)

end
