(* ===== verification/Hop_Bounds.thy ===== *)
theory Hop_Bounds
  imports World
begin

text \<open>
  The invariant of a hop over the steps of all tasks: at every await of its maintenance task, no
  more open connections than configured, and a recovering hop knows an address. It holds for
  every hop of the world, because a step changes one hop within its bounds and can only close
  the connections of the others. The second part accounts for every connection there is: none
  stays open without an owner that will close it.
\<close>

section \<open>Bounds\<close>

lemma hop_target_pos [simp]: "0 < hop_target config"
  by (simp add: hop_target_def)

definition bounded_at :: "config \<Rightarrow> world \<Rightarrow> nat \<Rightarrow> bool" where
  "bounded_at config w h \<longleftrightarrow> hop_bounded (hop_target config) (nt_arena (wd_net w))
     (nt_hops (wd_net w) h) (nt_tasks (wd_net w) h)"

definition hops_bounded :: "config \<Rightarrow> world \<Rightarrow> bool" where
  "hops_bounded config w \<longleftrightarrow> (\<forall>h<nt_next (wd_net w). bounded_at config w h)"

text \<open>A hop that a step leaves alone: its connections can only close.\<close>

lemma bounded_left_alone:
  assumes ok: "world_ok w" and le: "world_le w w'" and h: "h < nt_next (wd_net w)"
    and same: "nt_hops (wd_net w') h = nt_hops (wd_net w) h" "nt_tasks (wd_net w') h = nt_tasks (wd_net w) h"
    and bd: "bounded_at config w h"
  shows "bounded_at config w' h"
proof -
  have "closed_at (nt_arena (wd_net w')) c"
    if "c \<in> held (nt_hops (wd_net w) h) (nt_tasks (wd_net w) h)" "closed_at (nt_arena (wd_net w)) c" for c
  proof -
    have "conn_exists w c"
      using that(1) ok h net_okD(11) [of "wd_net w" h c] by (simp add: world_ok_def conn_exists_def owned_def)
    with le that(2) show ?thesis
      by (auto simp: world_le_def conn_le_def conn_at_def closed_at_def is_closed_def)
  qed
  then show ?thesis
    using hop_bounded_mono [OF bd [unfolded bounded_at_def]] by (simp add: bounded_at_def same)
qed

text \<open>A step that changes one hop.\<close>

lemma hops_bounded_one:
  assumes ok: "world_ok w" and le: "world_le w w'" and bd: "hops_bounded config w"
    and next': "nt_next (wd_net w') = nt_next (wd_net w)"
    and others: "\<And>g. g \<noteq> h \<Longrightarrow> nt_hops (wd_net w') g = nt_hops (wd_net w) g \<and>
      nt_tasks (wd_net w') g = nt_tasks (wd_net w) g"
    and own: "bounded_at config w h \<Longrightarrow> h < nt_next (wd_net w) \<Longrightarrow> bounded_at config w' h"
  shows "hops_bounded config w'"
  unfolding hops_bounded_def next'
proof (intro allI impI)
  fix g assume g: "g < nt_next (wd_net w)"
  then have v: "bounded_at config w g" using bd by (simp add: hops_bounded_def)
  show "bounded_at config w' g"
  proof (cases "g = h")
    case True
    with own v g show ?thesis by simp
  next
    case False
    from bounded_left_alone [OF ok le g _ _ v] others [OF False] show ?thesis by simp
  qed
qed

lemma drop_hop_bounded:
  "hop_bounded target a h pc \<Longrightarrow> drop_hop h = (h', rel) \<Longrightarrow> hop_bounded target a h' M_Stopped"
  by (auto simp: drop_hop_def hop_bounded_def hop_live_def hop_drop_def live_count_def)

lemma world_step_bounded:
  assumes ok: "world_ok w" and bd: "hops_bounded (st_config site) w"
    and step: "world_step site e w = Some w'"
  shows "hops_bounded (st_config site) w'"
proof -
  let ?n = "wd_net w"
  have net: "net_ok ?n" using ok by (simp add: world_ok_def)
  have le: "world_le w w'" using world_step_ok [OF ok, of site e] step by auto
  note one = hops_bounded_one [OF ok le bd]
  have hop: "hop_ok (nt_arena ?n) (nt_hops ?n h)" if "h < nt_next ?n" for h
    using net_okD(6) [OF net] that by blast
  have alone: "hops_bounded (st_config site) w'"
    if "nt_next (wd_net w') = nt_next ?n" "nt_hops (wd_net w') = nt_hops ?n" "nt_tasks (wd_net w') = nt_tasks ?n"
    by (rule one [where h = 0]) (use that bounded_left_alone [OF ok le] in simp_all)
  show ?thesis
  proof (cases e)
    case (WE_Conn c ev)
    with step show ?thesis by (intro alone) (auto simp: net_conn_def set_conn_def split: if_splits bind_splits)
  next
    case (WE_Maint h stop)
    obtain pc h' a' rel where run: "maint_step (st_io site) (st_config site) (st_resolver site) stop
        (nt_tasks ?n h) (nt_hops ?n h) (nt_arena ?n) = (pc, h', a', rel)" by (metis prod_cases4)
    have w': "w' = (if h < nt_next ?n then w\<lparr>wd_net := put_task h pc rel (put_hop h h' a' ?n)\<rparr> else w)"
      using step WE_Maint by (auto simp: on_net_def net_maint_def run)
    show ?thesis
    proof (rule one [where h = h])
      assume b: "bounded_at (st_config site) w h" and h: "h < nt_next ?n"
      have "\<forall>c\<in>set (task_conns (nt_tasks ?n h)). c < ar_next (nt_arena ?n)"
        using net_okD(11) [OF net h] by (simp add: owned_def held_def)
      from maint_step_bounded [OF hop [OF h] this b [unfolded bounded_at_def] run] h
      show "bounded_at (st_config site) w' h" by (simp add: w' bounded_at_def)
    qed (simp_all add: w')
  next
    case (WE_Shutdown k)
    show ?thesis
    proof (cases "k < length (nt_shutdowns ?n)")
      case True
      define h where "h = nt_shutdowns ?n ! k"
      obtain h' a' where run: "shutdown (nt_hops ?n h) (nt_arena ?n) = (h', a')" by fastforce
      have w': "w' = w\<lparr>wd_net := (put_hop h h' a' ?n)\<lparr>nt_shutdowns := drop_at k (nt_shutdowns ?n)\<rparr>\<rparr>"
        using step WE_Shutdown run True by (simp add: on_net_def run_shutdown_def h_def Let_def)
      show ?thesis
        by (rule one [where h = h]) (use shutdown_bounded [OF _ run] in \<open>simp_all add: w' bounded_at_def\<close>)
    next
      case False
      with step WE_Shutdown bd show ?thesis by (simp add: on_net_def run_shutdown_def)
    qed
  next
    case (WE_Resolve k)
    show ?thesis
    proof (cases "k < length (nt_resolves ?n)")
      case True
      obtain h b where hb: "nt_resolves ?n ! k = (h, b)" by fastforce
      obtain d h' a' where run: "resolve_step (st_io site) (st_resolver site) b (nt_hops ?n h) (nt_arena ?n) =
          (d, h', a')" by (metis prod_cases3)
      obtain rv where w': "w' = w\<lparr>wd_net := (put_hop h h' a' ?n)\<lparr>nt_resolves := rv\<rparr>\<rparr>"
        using step WE_Resolve run True hb by (auto simp: on_net_def run_resolve_def)
      show ?thesis
        by (rule one [where h = h]) (use resolve_step_bounded [OF hop _ run] in \<open>simp_all add: w' bounded_at_def\<close>)
    next
      case False
      with step WE_Resolve bd show ?thesis by (simp add: on_net_def run_resolve_def)
    qed
  next
    case (WE_Drop h)
    obtain h' rel where d: "drop_hop (nt_hops ?n h) = (h', rel)" by fastforce
    have w': "w' = w \<or> w' = w\<lparr>wd_net := put_task h M_Stopped rel (put_hop h h' (nt_arena ?n) ?n)\<rparr>"
      using step WE_Drop d by (auto simp: on_net_def net_drop_def)
    show ?thesis
    proof (cases "w' = w")
      case False
      with w' have w': "w' = w\<lparr>wd_net := put_task h M_Stopped rel (put_hop h h' (nt_arena ?n) ?n)\<rparr>" by blast
      show ?thesis
        by (rule one [where h = h]) (use drop_hop_bounded [OF _ d] in \<open>auto simp: w' bounded_at_def\<close>)
    qed (use bd in simp)
  next
    case (WE_Release k)
    with step show ?thesis by (intro alone) (auto simp: on_net_def)
  next
    case (WE_Create i)
    then obtain h n' where c: "get_or_create i ?n = Some (h, n')" and w': "w' = w\<lparr>wd_net := n'\<rparr>"
      using step by (auto split: bind_splits)
    show ?thesis
    proof (cases "hm_get (nt_map ?n) i")
      case None
      with c have n': "nt_next n' = Suc (nt_next ?n)" "nt_arena n' = nt_arena ?n"
        "nt_hops n' = (nt_hops ?n)(nt_next ?n := hop_new i)" "nt_tasks n' = (nt_tasks ?n)(nt_next ?n := M_Idle)"
        by (auto simp: get_or_create_cases)
      have "hop_bounded (hop_target (st_config site)) (nt_arena ?n) (hop_new i) M_Idle"
        using view_new [of "nt_arena ?n" i] by (simp add: hop_bounded_def view_def)
      with bd show ?thesis
        by (auto simp: hops_bounded_def w' bounded_at_def n' less_Suc_eq)
    next
      case (Some g)
      with c bd w' show ?thesis by (auto simp: get_or_create_cases hops_bounded_def bounded_at_def)
    qed
  next
    case (WE_Retire active)
    with step bd show ?thesis
      by (auto simp: on_net_def hops_bounded_def bounded_at_def retire_unused_spec [OF net])
  next
    case (WE_Install snap)
    with step bd show ?thesis by (auto simp: hops_bounded_def bounded_at_def)
  qed
qed

lemma world_run_bounded:
  "world_ok w \<Longrightarrow> hops_bounded (st_config site) w \<Longrightarrow> world_run site es w = Some w' \<Longrightarrow>
   hops_bounded (st_config site) w'"
proof (induction es arbitrary: w)
  case (Cons e es)
  then obtain w1 where w1: "world_step site e w = Some w1" "world_run site es w1 = Some w'"
    by (auto split: bind_splits)
  moreover have "world_ok w1" using world_step_ok [OF Cons.prems(1), of site e] w1(1) world_le_ok by auto
  ultimately show ?case
    using Cons.IH world_step_bounded [OF Cons.prems(1,2)] by blast
qed simp

section \<open>Every connection is accounted for\<close>

definition kept :: "world \<Rightarrow> nat \<Rightarrow> bool" where
  "kept w c \<longleftrightarrow> closed_at (nt_arena (wd_net w)) c \<or> (\<exists>h<nt_next (wd_net w). c \<in> owned (wd_net w) h) \<or>
     c \<in> set (nt_released (wd_net w))"

definition accounted :: "world \<Rightarrow> bool" where
  "accounted w \<longleftrightarrow> (\<forall>c. conn_exists w c \<longrightarrow> kept w c) \<and>
     (\<forall>h<nt_next (wd_net w). task_current (nt_hops (wd_net w) h) (nt_tasks (wd_net w) h))"

text \<open>A step that opens nothing.\<close>

lemma accounted_same:
  assumes acc: "accounted w" and le: "world_le w w'"
    and ex: "\<And>c. conn_exists w' c \<Longrightarrow> conn_exists w c"
    and own: "\<And>h. h < nt_next (wd_net w) \<Longrightarrow> owned (wd_net w') h = owned (wd_net w) h"
    and rel: "\<And>c. c \<in> set (nt_released (wd_net w)) \<Longrightarrow> kept w' c"
    and cur: "\<And>h. h < nt_next (wd_net w') \<Longrightarrow> task_current (nt_hops (wd_net w') h) (nt_tasks (wd_net w') h)"
  shows "accounted w'"
  unfolding accounted_def
proof (intro conjI allI impI)
  fix c assume c': "conn_exists w' c"
  then have c: "conn_exists w c" by (rule ex)
  then have "kept w c" using acc by (simp add: accounted_def)
  moreover have "closed_at (nt_arena (wd_net w)) c \<Longrightarrow> closed_at (nt_arena (wd_net w')) c"
    using le c by (auto simp: world_le_def conn_le_def conn_at_def closed_at_def is_closed_def)
  moreover have "\<exists>h<nt_next (wd_net w'). c \<in> owned (wd_net w') h"
    if "\<exists>h<nt_next (wd_net w). c \<in> owned (wd_net w) h"
    using that own le by (auto simp: world_le_def intro: less_le_trans)
  ultimately show "kept w' c" using rel by (auto simp: kept_def)
qed (rule cur)

text \<open>A step of one hop, with the connections it releases.\<close>

lemma accounted_put:
  assumes acc: "accounted w" and le: "world_le w w'" and h: "h < nt_next (wd_net w)"
    and w': "w' = w\<lparr>wd_net := put_task h pc rel (put_hop h hop a (wd_net w))\<rparr>"
    and keeps: "task_keeps (nt_tasks (wd_net w) h) (nt_hops (wd_net w) h) (nt_arena (wd_net w)) (pc, hop, a, rel)"
  shows "accounted w'"
  unfolding accounted_def
proof (intro conjI allI impI)
  fix c assume c': "conn_exists w' c"
  have own: "owned (wd_net w') g = (if g = h then held hop pc else owned (wd_net w) g)" for g
    by (simp add: w' owned_def)
  have moved: "kept w' c" if "c \<in> owned (wd_net w) h \<union> {ar_next (nt_arena (wd_net w))..<ar_next a}"
    using that keeps h by (auto simp: kept_def own task_keeps_def owned_def w' put_task_def put_hop_def)
  show "kept w' c"
  proof (cases "conn_exists w c")
    case True
    then have "kept w c" using acc by (simp add: accounted_def)
    moreover have "closed_at (nt_arena (wd_net w)) c \<Longrightarrow> closed_at (nt_arena (wd_net w')) c"
      using le True by (auto simp: world_le_def conn_le_def conn_at_def closed_at_def is_closed_def)
    moreover have "kept w' c" if "g < nt_next (wd_net w)" "c \<in> owned (wd_net w) g" for g
    proof (cases "g = h")
      case False
      moreover have "nt_next (wd_net w') = nt_next (wd_net w)" by (simp add: w')
      ultimately show ?thesis using that own [of g] by (auto simp: kept_def)
    qed (use that moved in simp)
    moreover have "c \<in> set (nt_released (wd_net w)) \<Longrightarrow> kept w' c"
      by (simp add: kept_def w' put_task_def put_hop_def)
    ultimately show ?thesis by (auto simp: kept_def)
  next
    case False
    with c' show ?thesis by (intro moved) (auto simp: conn_exists_def w')
  qed
next
  fix g assume "g < nt_next (wd_net w')"
  then show "task_current (nt_hops (wd_net w') g) (nt_tasks (wd_net w') g)"
    using acc keeps by (auto simp: accounted_def w' task_keeps_def)
qed

lemma drop_hop_keeps:
  "task_conns pc = [] \<Longrightarrow> drop_hop h = (h', rel) \<Longrightarrow> task_keeps pc h a (M_Stopped, h', a, rel)"
  by (auto simp: drop_hop_def task_keeps_def held_def)

lemma task_current_cong: "hp_connections h' = hp_connections h \<Longrightarrow> task_current h' pc = task_current h pc"
  by (cases pc) auto

lemma accounted_hop:
  assumes acc: "accounted w" and le: "world_le w w'"
    and w': "wd_net w' = (put_hop h hop a (wd_net w))\<lparr>nt_shutdowns := sh, nt_resolves := rv\<rparr>"
    and conns: "hp_connections hop = hp_connections (nt_hops (wd_net w) h)"
    and next': "ar_next a = ar_next (nt_arena (wd_net w))"
  shows "accounted w'"
proof (rule accounted_same [OF acc le])
  show "owned (wd_net w') g = owned (wd_net w) g" for g
    using conns by (simp add: w' owned_def held_def)
  show "task_current (nt_hops (wd_net w') g) (nt_tasks (wd_net w') g)" if "g < nt_next (wd_net w')" for g
    using that acc task_current_cong [OF conns] by (auto simp: accounted_def w')
qed (use next' in \<open>simp_all add: w' conn_exists_def kept_def\<close>)

lemma set_take_drop: "x \<in> set xs \<Longrightarrow> x \<in> set (drop_at k xs) \<or> (k < length xs \<and> x = xs ! k)"
proof (cases "k < length xs")
  case True
  assume x: "x \<in> set xs"
  from True have "set xs = insert (xs ! k) (set (drop_at k xs))"
    using arg_cong [OF id_take_nth_drop [OF True], of set] by (simp add: drop_at_def)
  with x True show ?thesis by auto
qed (simp add: drop_at_def)

lemma world_step_accounted:
  assumes ok: "world_ok w" and acc: "accounted w" and step: "world_step site e w = Some w'"
  shows "accounted w'"
proof -
  let ?n = "wd_net w"
  have net: "net_ok ?n" using ok by (simp add: world_ok_def)
  have le: "world_le w w'" using world_step_ok [OF ok, of site e] step by auto
  have cur: "task_current (nt_hops ?n h) (nt_tasks ?n h)" if "h < nt_next ?n" for h
    using that acc by (simp add: accounted_def)
  note same = accounted_same [OF acc le]
  show ?thesis
  proof (cases e)
    case (WE_Conn c ev)
    with step cur show ?thesis
      by (intro same) (auto simp: net_conn_def set_conn_def kept_def conn_exists_def split: if_splits bind_splits)
  next
    case (WE_Maint h stop)
    obtain pc h' a' rel where run: "maint_step (st_io site) (st_config site) (st_resolver site) stop
        (nt_tasks ?n h) (nt_hops ?n h) (nt_arena ?n) = (pc, h', a', rel)" by (metis prod_cases4)
    show ?thesis
    proof (cases "h < nt_next ?n")
      case True
      with step WE_Maint run have "w' = w\<lparr>wd_net := put_task h pc rel (put_hop h h' a' ?n)\<rparr>"
        by (auto simp: on_net_def net_maint_def)
      from accounted_put [OF acc le True this] maint_step_keeps [OF cur [OF True]] run show ?thesis by metis
    next
      case False
      with step WE_Maint acc show ?thesis by (simp add: on_net_def net_maint_def)
    qed
  next
    case (WE_Shutdown k)
    show ?thesis
    proof (cases "k < length (nt_shutdowns ?n)")
      case True
      define h where "h = nt_shutdowns ?n ! k"
      obtain h' a' where run: "shutdown (nt_hops ?n h) (nt_arena ?n) = (h', a')" by fastforce
      have w': "wd_net w' = (put_hop h h' a' ?n)\<lparr>nt_shutdowns := drop_at k (nt_shutdowns ?n), nt_resolves := nt_resolves ?n\<rparr>"
        using step WE_Shutdown run True by (auto simp: on_net_def run_shutdown_def h_def Let_def put_hop_def)
      show ?thesis by (rule accounted_hop [OF acc le w']) (use run in \<open>auto simp: shutdown_def\<close>)
    next
      case False
      with step WE_Shutdown acc show ?thesis by (simp add: on_net_def run_shutdown_def)
    qed
  next
    case (WE_Resolve k)
    show ?thesis
    proof (cases "k < length (nt_resolves ?n)")
      case True
      obtain h b where hb: "nt_resolves ?n ! k = (h, b)" by fastforce
      obtain d h' a' where run: "resolve_step (st_io site) (st_resolver site) b (nt_hops ?n h) (nt_arena ?n) =
          (d, h', a')" by (metis prod_cases3)
      obtain rv where w': "wd_net w' = (put_hop h h' a' ?n)\<lparr>nt_shutdowns := nt_shutdowns ?n, nt_resolves := rv\<rparr>"
        using step WE_Resolve run True hb by (auto simp: on_net_def run_resolve_def put_hop_def)
      have "ar_next a' = ar_next (nt_arena ?n)"
        using run by (auto simp: resolve_step_def hop_resolve_spec split: if_splits prod.splits sum.splits)
      with accounted_hop [OF acc le w'] resolve_step_local [OF run] show ?thesis by blast
    next
      case False
      with step WE_Resolve acc show ?thesis by (simp add: on_net_def run_resolve_def)
    qed
  next
    case (WE_Drop h)
    obtain h' rel where d: "drop_hop (nt_hops ?n h) = (h', rel)" by fastforce
    have w': "w' = w \<or> w' = w\<lparr>wd_net := put_task h M_Stopped rel (put_hop h h' (nt_arena ?n) ?n)\<rparr> \<and>
        h < nt_next ?n \<and> nt_tasks ?n h = M_Stopped"
    proof (cases "h < nt_next ?n \<and> nt_tasks ?n h = M_Stopped \<and> h \<notin> snd ` set (nt_map ?n) \<and>
        h \<notin> set (nt_shutdowns ?n) \<and> h \<notin> fst ` set (nt_resolves ?n)")
      case True
      with step WE_Drop d show ?thesis by (simp add: on_net_def net_drop_def)
    next
      case False
      then have "net_drop h ?n = ?n" unfolding net_drop_def by (simp only: if_False)
      with step WE_Drop show ?thesis by (simp add: on_net_def)
    qed
    with acc accounted_put [OF acc le _ _ drop_hop_keeps [OF _ d]] show ?thesis by auto
  next
    case (WE_Release k)
    show ?thesis
    proof (cases "k < length (nt_released ?n)")
      case True
      have w': "w' = w\<lparr>wd_net := ?n\<lparr>nt_arena := close_at (nt_released ?n ! k) (nt_arena ?n),
          nt_released := drop_at k (nt_released ?n)\<rparr>\<rparr>"
        using step WE_Release True by (simp add: on_net_def net_release_def)
      show ?thesis
      proof (rule same)
        fix c assume "c \<in> set (nt_released ?n)"
        from set_take_drop [OF this, of k] show "kept w' c"
          by (auto simp: kept_def w' close_at_def closed_at_def is_closed_def close_def)
      qed (use cur in \<open>simp_all add: w' conn_exists_def close_at_def\<close>)
    next
      case False
      with step WE_Release acc show ?thesis by (simp add: on_net_def net_release_def)
    qed
  next
    case (WE_Create i)
    then obtain h n' where c: "get_or_create i ?n = Some (h, n')" and w': "w' = w\<lparr>wd_net := n'\<rparr>"
      using step by (auto split: bind_splits)
    show ?thesis
    proof (cases "hm_get (nt_map ?n) i")
      case None
      with c cur w' show ?thesis
        by (intro same) (auto simp: get_or_create_cases kept_def conn_exists_def owned_def less_Suc_eq)
    next
      case (Some g)
      with c acc w' show ?thesis by (auto simp: get_or_create_cases)
    qed
  next
    case (WE_Retire active)
    with step cur show ?thesis
      by (intro same) (auto simp: on_net_def kept_def conn_exists_def owned_def retire_unused_spec [OF net])
  next
    case (WE_Install snap)
    with step cur show ?thesis by (intro same) (auto simp: kept_def conn_exists_def)
  qed
qed

end
