(* ===== verification/Async_Main.thy ===== *)
theory Async_Main
  imports Rzid_Versions Tcp_Server Hop_Bounds
begin

text \<open>
  The start of the router and its background tasks, from \<open>src/lib.rs\<close>. One tick of the refresh
  task is a step on the client and the shared world; a ticker with period zero panics, as that
  of tokio does. The last sections are about whole refreshes; the theory \<open>Running\<close> lets the steps
  of the other tasks come between those of a refresh.
\<close>

section \<open>Background tasks\<close>

text \<open>\<open>tokio::time::interval\<close>\<close>

definition new_ticker :: "u64 \<Rightarrow> unit run" where
  "new_ticker secs = (if from_secs secs = 0 then None else Some ())"

definition refresh_tick ::
  "rzid_server \<Rightarrow> (string list \<Rightarrow> string list) \<Rightarrow> rzid_client \<times> world \<Rightarrow> (rzid_client \<times> world) run" where
  "refresh_tick srv hash_order cw = (case cw of (c, w) \<Rightarrow> do {
     (result, c, n) \<leftarrow> sync_routing_state srv hash_order (Some (wd_routing w)) c (wd_net w);
     let w = w\<lparr>wd_net := n\<rparr>;
     Some (case result of
       Inr (Some new_state) \<Rightarrow> (c, w\<lparr>wd_routing := new_state\<rparr>)
     | Inr None \<Rightarrow> (c, w)
     | Inl e \<Rightarrow> (c, w))
   })"

fun refresh_loop ::
  "rzid_server \<Rightarrow> (string list \<Rightarrow> string list) \<Rightarrow> nat \<Rightarrow> rzid_client \<times> world \<Rightarrow> (rzid_client \<times> world) run" where
  "refresh_loop srv hash_order 0 cw = Some cw"
| "refresh_loop srv hash_order (Suc ticks) cw = do {
     cw \<leftarrow> refresh_tick srv hash_order cw;
     refresh_loop srv hash_order ticks cw
   }"

text \<open>The refresh task, cancelled after a number of ticks.\<close>

definition run_refresh_task ::
  "rzid_server \<Rightarrow> (string list \<Rightarrow> string list) \<Rightarrow> u64 \<Rightarrow> nat \<Rightarrow> rzid_client \<times> world \<Rightarrow>
   (rzid_client \<times> world) run" where
  "run_refresh_task srv hash_order interval_secs ticks cw = do {
     _ \<leftarrow> new_ticker interval_secs;
     refresh_loop srv hash_order ticks cw
   }"

fun heartbeat_loop :: "rzid_server \<Rightarrow> nat \<Rightarrow> rzid_client \<Rightarrow> rzid_client" where
  "heartbeat_loop srv 0 c = c"
| "heartbeat_loop srv (Suc ticks) c = heartbeat_loop srv ticks (snd (send_heartbeat srv c))"

definition run_heartbeat_task :: "rzid_server \<Rightarrow> u64 \<Rightarrow> nat \<Rightarrow> rzid_client \<Rightarrow> rzid_client run" where
  "run_heartbeat_task srv interval_secs ticks c = do {
     _ \<leftarrow> new_ticker interval_secs;
     Some (heartbeat_loop srv ticks c)
   }"

section \<open>Start\<close>

record app =
  ap_client :: rzid_client
  ap_world :: world
  ap_site :: site
  ap_forwarder :: forwarder
  ap_server :: server

definition initial_snapshot :: "router_mode \<Rightarrow> routing_snapshot" where
  "initial_snapshot mode = (case mode of ModeEdge \<Rightarrow> Edge edge_new | ModeZone \<Rightarrow> Zone zone_new)"

text \<open>
  \<open>async_main\<close> up to the point where the server runs. Building the two HTTP clients and binding
  the port may fail with the errors given. The background tasks are spawned before the codecs
  are fetched; their steps are events of the running router below.
\<close>

definition async_main_start ::
  "io \<Rightarrow> rzid_server \<Rightarrow> string option \<Rightarrow> string option \<Rightarrow> string option \<Rightarrow> config \<Rightarrow> rz_error + app" where
  "async_main_start io srv point_error id_error bind_error config =
     bind_res (resolver_new point_error (cfg_rzpoint_addr config) (cfg_mode config)) (\<lambda>resolver.
     (let world = \<lparr>wd_routing = initial_snapshot (cfg_mode config), wd_net = net_new\<rparr> in
      bind_res (rzid_new id_error config) (\<lambda>client.
        (case fetch_codecs srv client of (r, client) \<Rightarrow>
          bind_res r (\<lambda>codecs.
            (case bind_error of
               Some e \<Rightarrow> Inl (RZ_System (''bind '' @ listen_addr config @ '': '' @ e))
             | None \<Rightarrow> Inr \<lparr>ap_client = client, ap_world = world,
                 ap_site = \<lparr>st_io = io, st_config = config, st_resolver = resolver\<rparr>,
                 ap_forwarder = forwarder_new (co_rate_features codecs),
                 ap_server = server_new metrics_new\<rparr>))))))"

text \<open>The final \<open>select!\<close>: cancellation, or the result of the server.\<close>

definition async_main_end :: "(string + unit) option \<Rightarrow> rz_error + unit" where
  "async_main_end served =
     (case served of
        None \<Rightarrow> Inr ()
      | Some res \<Rightarrow> map_err (\<lambda>e. RZ_System (''tcp server error: '' @ e)) res)"

section \<open>The routing table and the registry\<close>

text \<open>Every hop the routing table names is registered, so a request finds it.\<close>

definition routed :: "world \<Rightarrow> bool" where
  "routed w \<longleftrightarrow> world_ok w \<and> snapshot_ok (wd_routing w) \<and>
     set (get_all_hop_ids (wd_routing w)) \<subseteq> set (get_all_ids (wd_net w))"

lemma refresh_tick_ok:
  assumes "routed w"
  shows "\<exists>c' w'. refresh_tick srv ho (c, w) = Some (c', w') \<and> routed w' \<and>
    (wd_routing w' \<noteq> wd_routing w \<longrightarrow> snapshot_closed (wd_routing w') \<and>
       set (get_all_ids (wd_net w')) = set (get_all_hop_ids (wd_routing w'))) \<and>
    (\<forall>i h. i \<in> set (get_all_hop_ids (wd_routing w')) \<longrightarrow> registry_get (wd_net w) i = Some h \<longrightarrow>
       registry_get (wd_net w') i = Some h)"
proof -
  have A: "net_ok (wd_net w)" "snapshot_ok (wd_routing w)"
    "set (get_all_hop_ids (wd_routing w)) \<subseteq> set (get_all_ids (wd_net w))"
    using assms by (auto simp: routed_def world_ok_def)
  from sync_routing_state_ok [OF A, of srv ho c] obtain r c' n' where
    r: "sync_routing_state srv ho (Some (wd_routing w)) c (wd_net w) = Some (r, c', n')" "net_ok n'"
    "\<forall>new. r = Inr (Some new) \<longrightarrow> snapshot_ok new \<and> snapshot_closed new \<and>
       (rc_mode c = ModeEdge \<longleftrightarrow> is_edge new) \<and> set (get_all_ids n') = set (get_all_hop_ids new) \<and>
       (\<forall>i h. i \<in> set (get_all_hop_ids new) \<longrightarrow> registry_get (wd_net w) i = Some h \<longrightarrow> registry_get n' i = Some h)"
    "\<forall>e. r = Inl e \<or> r = Inr None \<longrightarrow> (\<forall>i h. registry_get (wd_net w) i = Some h \<longrightarrow> registry_get n' i = Some h)"
    by blast
  show ?thesis
  proof (cases "\<exists>new. r = Inr (Some new)")
    case True
    then obtain new where "r = Inr (Some new)" by blast
    with r show ?thesis by (auto simp: refresh_tick_def routed_def world_ok_def)
  next
    case False
    then have "refresh_tick srv ho (c, w) = Some (c', w\<lparr>wd_net := n'\<rparr>)"
      using r(1) by (auto simp: refresh_tick_def Let_def split: sum.splits option.splits)
    moreover have keep: "\<forall>i h. registry_get (wd_net w) i = Some h \<longrightarrow> registry_get n' i = Some h"
      using r(4) False by (cases r) auto
    then have "set (get_all_ids (wd_net w)) \<subseteq> set (get_all_ids n')"
      using hm.ids_get [OF A(1)] hm.ids_get [OF r(2)] by fastforce
    ultimately show ?thesis using A r(2) keep by (auto simp: routed_def world_ok_def)
  qed
qed

lemma async_main_start_Inr:
  assumes "async_main_start io srv point_error id_error bind_error config = Inr ap"
  shows "ap_world ap = \<lparr>wd_routing = initial_snapshot (cfg_mode config), wd_net = net_new\<rparr>"
    and "rc_mode (ap_client ap) = cfg_mode config" and "rc_local_versions (ap_client ap) = []"
    and "st_config (ap_site ap) = config"
  using assms
  by (auto simp: async_main_start_def bind_res_eq_Inr Let_def rzid_new_def fetch_codecs_def http_get_def
      split: option.splits prod.splits if_splits)

lemma routed_initial: "routed \<lparr>wd_routing = initial_snapshot mode, wd_net = net_new\<rparr>"
  by (cases mode) (simp_all add: routed_def world_ok_def net_ok_new initial_snapshot_def edge_new_def
      zone_new_def edge_ok_def zone_ok_def hm_values_def)

section \<open>Refreshes without changes\<close>

text \<open>Once no key of the manifest counts as changed, refreshes do nothing.\<close>

lemma detect_changes_request [simp]:
  "detect_changes (c\<lparr>rc_requests := n\<rparr>) m = detect_changes c m"
  by (cases "rc_mode c") (simp_all add: detect_changes_def relevant_key_def)

lemma refresh_tick_idle:
  assumes "\<And>n url. rz_versions srv n url = Fetched m" and "detect_changes c m = []"
  shows "refresh_tick srv ho (c, w) = Some (c\<lparr>rc_requests := Suc (rc_requests c)\<rparr>, w)"
  by (simp add: refresh_tick_def sync_routing_state_def fetch_version_manifest_def http_get_def
      assms Let_def)

lemma refresh_loop_idle:
  assumes "\<And>n url. rz_versions srv n url = Fetched m"
  shows "detect_changes c m = [] \<Longrightarrow> \<exists>c'. refresh_loop srv ho k (c, w) = Some (c', w)"
proof (induction k arbitrary: c)
  case (Suc k)
  have "detect_changes (c\<lparr>rc_requests := Suc (rc_requests c)\<rparr>) m = []"
    using Suc.prems by simp
  from Suc.IH [OF this] refresh_tick_idle [OF assms Suc.prems] show ?case by auto
qed simp

lemma refresh_loop_add:
  "refresh_loop srv ho (j + k) cw = (case refresh_loop srv ho j cw of None \<Rightarrow> None
     | Some cw' \<Rightarrow> refresh_loop srv ho k cw')"
proof (induction j arbitrary: cw)
  case (Suc j)
  then show ?case by (cases "refresh_tick srv ho cw") auto
qed simp

lemma zero_interval_panics: "run_refresh_task srv ho 0 ticks cw = None"
  by (simp add: run_refresh_task_def new_ticker_def from_secs_def)

end
