(* ===== verification/Running.thy ===== *)
theory Running
  imports Async_Main
begin

text \<open>
  The running router: the states that refreshes, heartbeats and the steps of all other tasks can
  reach, in any interleaving. A refresh first computes what it will do (only the refresh task
  writes the routing table and the registry, so what it reads of them does not change meanwhile)
  and then creates hops one by one, retires the unused ones and installs the table; the steps of
  the other tasks come between these.
\<close>

section \<open>A refresh as a sequence of events\<close>

definition sync_event :: "world_event \<Rightarrow> bool" where
  "sync_event e \<longleftrightarrow> (case e of WE_Create _ \<Rightarrow> True | WE_Retire _ \<Rightarrow> True | WE_Install _ \<Rightarrow> True | _ \<Rightarrow> False)"

text \<open>
  What a tick of the refresh task does to the shared state, in its order: the hops that do not
  exist yet, then \<open>retire_unused\<close> at the end of \<open>sync_routing_state\<close>, then the new table.
\<close>

definition refresh_events ::
  "rzid_server \<Rightarrow> (string list \<Rightarrow> string list) \<Rightarrow> rzid_client \<times> world \<Rightarrow>
   (rzid_client \<times> world_event list) run" where
  "refresh_events srv hash_order cw = (case cw of (c, w) \<Rightarrow> do {
     (result, c, n) \<leftarrow> sync_routing_state srv hash_order (Some (wd_routing w)) c (wd_net w);
     let created = map (\<lambda>h. hp_id (nt_hops n h)) [nt_next (wd_net w)..<nt_next n];
     Some (c, map WE_Create created @ (case result of
       Inr (Some new_state) \<Rightarrow> [WE_Retire (get_all_hop_ids new_state), WE_Install new_state]
     | _ \<Rightarrow> []))
   })"

lemma created_hops:
  "create_hops js n = Some n1 \<Longrightarrow>
   nt_next n \<le> nt_next n1 \<and> (\<forall>h<nt_next n. nt_hops n1 h = nt_hops n h) \<and>
   create_hops (map (\<lambda>h. hp_id (nt_hops n1 h)) [nt_next n..<nt_next n1]) n = Some n1"
proof (induction js arbitrary: n)
  case (Cons i js)
  then obtain g n0 where n0: "get_or_create i n = Some (g, n0)" "create_hops js n0 = Some n1"
    by (auto split: bind_splits)
  note IH = Cons.IH [OF n0(2)]
  show ?case
  proof (cases "hm_get (nt_map n) i")
    case (Some h)
    with n0(1) IH show ?thesis by (simp add: get_or_create_cases)
  next
    case None
    then have f: "nt_next n0 = Suc (nt_next n)" "nt_hops n0 = (nt_hops n)(nt_next n := hop_new i)"
      using n0(1) by (auto simp: get_or_create_cases)
    have "hp_id (nt_hops n1 (nt_next n)) = i" using IH f by (simp add: hop_new_def)
    moreover have "[nt_next n..<nt_next n1] = nt_next n # [nt_next n0..<nt_next n1]"
      using IH f by (simp add: upt_conv_Cons)
    ultimately show ?thesis using IH f n0(1) by auto
  qed
qed simp

lemma sync_zones_client:
  "sync_zones srv changed zones s c n = Some (s', c', n') \<Longrightarrow> same_client c c'"
proof (induction zones arbitrary: s c n)
  case (Cons z zones)
  then obtain s1 c1 n1 s2 c2 where
    r: "sync_zone_routers srv changed z s c n = Some (s1, c1, n1)"
    "sync_zone_segments srv changed z s1 c1 = (s2, c2)"
    "sync_zones srv changed zones s2 c2 n1 = Some (s', c', n')"
    by (auto split: bind_splits prod.splits)
  have "same_client c c1"
    using r(1) by (auto simp: sync_zone_routers_def split: if_splits prod.splits sum.splits bind_splits
        dest!: fetch_quiet(2) simp: quiet_def)
  moreover have "same_client c1 c2"
    using r(2) by (auto simp: sync_zone_segments_def split: if_splits prod.splits sum.splits
        dest!: fetch_quiet(3) simp: quiet_def)
  ultimately show ?case using Cons.IH [OF r(3)] same_client_trans by blast
qed simp

lemma sync_routing_client:
  assumes "sync_routing_state srv ho current c n = Some (r, c', n')"
  shows "same_client c c'"
proof -
  obtain rm c1 where f: "fetch_version_manifest srv c = (rm, c1)" by fastforce
  have q: "same_client c c1" using fetch_quiet(1) [OF f] by (simp add: quiet_def)
  show ?thesis
  proof (cases "\<exists>m. rm = Inr m \<and> detect_changes c1 m \<noteq> []")
    case False
    with f q assms show ?thesis by (cases rm) (auto simp: sync_routing_state_def)
  next
    case True
    then obtain m where m: "rm = Inr m" "detect_changes c1 m \<noteq> []" by blast
    show ?thesis
    proof (cases "rc_mode c1")
      case ModeEdge
      with f m assms obtain n1 where
        "sync_edge_state srv ho current m (detect_changes c1 m) c1 n = Some (r, c', n1)"
        by (auto simp: sync_routing_state_def Let_def split: bind_splits)
      then show ?thesis
        using q same_client_trans by (auto simp: sync_edge_state_def Let_def dest!: sync_zones_client split: bind_splits)
    next
      case ModeZone
      with f m assms obtain n1 where
        "sync_zone_state srv current m (detect_changes c1 m) c1 n = Some (r, c', n1)"
        by (auto simp: sync_routing_state_def Let_def split: bind_splits)
      from sync_zone_state_versions [OF this routers_key_not_own] q show ?thesis using same_client_trans by blast
    qed
  qed
qed

lemma world_run_creates:
  "create_hops is (wd_net w) = Some n \<Longrightarrow> world_run site (map WE_Create is) w = Some (w\<lparr>wd_net := n\<rparr>)"
proof (induction "is" arbitrary: w)
  case (Cons i js)
  then obtain h n1 where n1: "get_or_create i (wd_net w) = Some (h, n1)" "create_hops js n1 = Some n"
    by (auto split: bind_splits)
  with Cons.IH [of "w\<lparr>wd_net := n1\<rparr>"] show ?case by simp
qed simp

text \<open>A table that fits the mode of the router.\<close>

definition fits_mode :: "router_mode \<Rightarrow> routing_snapshot \<Rightarrow> bool" where
  "fits_mode mode snap \<longleftrightarrow> snapshot_ok snap \<and> snapshot_closed snap \<and> (mode = ModeEdge \<longleftrightarrow> is_edge snap)"

lemma refresh_events_ok:
  assumes "routed w"
  obtains c' js tail w' where "refresh_events srv ho (c, w) = Some (c', map WE_Create js @ tail)"
    and "refresh_tick srv ho (c, w) = Some (c', w')" and "same_client c c'"
    and "world_run site (map WE_Create js @ tail) w = Some w'"
    and "tail = [] \<or> (\<exists>new. tail = [WE_Retire (get_all_hop_ids new), WE_Install new] \<and> fits_mode (rc_mode c) new \<and>
      set (get_all_hop_ids new) \<subseteq> set (get_all_ids (wd_net w)) \<union> set js)"
proof -
  have A: "net_ok (wd_net w)" "snapshot_ok (wd_routing w)"
    "set (get_all_hop_ids (wd_routing w)) \<subseteq> set (get_all_ids (wd_net w))"
    using assms by (auto simp: routed_def world_ok_def)
  from sync_routing_state_ok [OF A, of srv ho c] obtain r c1 n' ks n1 where
    r: "sync_routing_state srv ho (Some (wd_routing w)) c (wd_net w) = Some (r, c1, n')"
    "create_hops ks (wd_net w) = Some n1"
    "n' = (case r of Inr (Some new) \<Rightarrow> retire_unused (get_all_hop_ids new) n1 | _ \<Rightarrow> n1)"
    "\<forall>new. r = Inr (Some new) \<longrightarrow> snapshot_ok new \<and> snapshot_closed new \<and>
       (rc_mode c = ModeEdge \<longleftrightarrow> is_edge new) \<and> set (get_all_ids n') = set (get_all_hop_ids new)" by blast
  let ?js = "map (\<lambda>h. hp_id (nt_hops n1 h)) [nt_next (wd_net w)..<nt_next n1]"
  have js: "create_hops ?js (wd_net w) = Some n1" using created_hops [OF r(2)] by blast
  note C = world_run_creates [OF js, of site] and S = create_hops_spec [OF A(1) js]
  note client = sync_routing_client [OF r(1)]
  show thesis
  proof (cases "\<exists>new. r = Inr (Some new)")
    case True
    then obtain new where new: "r = Inr (Some new)" by blast
    then have n': "n' = retire_unused (get_all_hop_ids new) n1" using r(3) by simp
    note R = retire_unused_spec [OF S(1), of "get_all_hop_ids new"]
    have "set (get_all_ids n') \<subseteq> set (get_all_ids n1)"
      unfolding n' by (auto simp: get_all_ids_def hm_keys_iff R(2) split: if_splits)
    then have sub: "set (get_all_hop_ids new) \<subseteq> set (get_all_ids (wd_net w)) \<union> set ?js"
      using r(4) new S(2) by blast
    let ?tail = "[WE_Retire (get_all_hop_ids new), WE_Install new]"
    let ?w' = "w\<lparr>wd_net := n', wd_routing := new\<rparr>"
    show thesis
    proof (rule that [of c1 ?js ?tail ?w'])
      show "refresh_events srv ho (c, w) = Some (c1, map WE_Create ?js @ ?tail)"
        using r(1) new by (simp add: refresh_events_def n' R)
      show "refresh_tick srv ho (c, w) = Some (c1, ?w')" using r(1) new by (simp add: refresh_tick_def)
      show "world_run site (map WE_Create ?js @ ?tail) w = Some ?w'"
        using C by (simp add: world_run_append on_net_def n')
    qed (use client r(4) new sub in \<open>auto simp: fits_mode_def\<close>)
  next
    case False
    then have n': "n' = n1" using r(3) by (auto split: sum.splits option.splits)
    show thesis
    proof (rule that [of c1 ?js "[]" "w\<lparr>wd_net := n1\<rparr>"])
      show "refresh_events srv ho (c, w) = Some (c1, map WE_Create ?js @ [])"
        using r(1) False by (auto simp: refresh_events_def n' split: sum.splits option.splits)
      show "refresh_tick srv ho (c, w) = Some (c1, w\<lparr>wd_net := n1\<rparr>)"
        using r(1) False by (auto simp: refresh_tick_def n' Let_def split: sum.splits option.splits)
    qed (use C client in simp_all)
  qed
qed

section \<open>Between the steps of a refresh\<close>

text \<open>The steps of the other tasks leave table and registry alone.\<close>

lemma task_event_same:
  assumes "\<not> sync_event e" and "world_step site e w = Some w'"
  shows "wd_routing w' = wd_routing w \<and> nt_map (wd_net w') = nt_map (wd_net w) \<and>
    nt_next (wd_net w') = nt_next (wd_net w)"
  using assms
  by (cases e) (auto simp: sync_event_def on_net_def net_conn_def set_conn_def net_maint_def
      run_shutdown_def run_resolve_def Let_def split: if_splits bind_splits prod.splits)

text \<open>Two worlds with the same table and registry; a step of the refresh takes both to such two.\<close>

definition same_routes :: "world \<Rightarrow> world \<Rightarrow> bool" where
  "same_routes v w \<longleftrightarrow> wd_routing v = wd_routing w \<and> nt_map (wd_net v) = nt_map (wd_net w) \<and>
     nt_next (wd_net v) = nt_next (wd_net w)"

lemma retire_unused_map:
  "nt_map (retire_unused act n) = (let to_retire = filter (\<lambda>i. i \<notin> set act) (hm_keys (nt_map n)) in
     if to_retire = [] then nt_map n else fst (retire_loop to_retire (nt_map n) []))"
  "nt_next (retire_unused act n) = nt_next n"
  by (simp_all add: retire_unused_def Let_def split: prod.splits)

lemma sync_step_same:
  assumes "same_routes v w" and "sync_event e" and "world_step site e v = Some v'" and "world_step site e w = Some w'"
  shows "same_routes v' w'"
  using assms
  by (cases e) (auto simp: sync_event_def same_routes_def on_net_def get_or_create_cases retire_unused_map Let_def
      split: option.splits bind_splits)

text \<open>
  Whatever the other tasks do between the steps of a refresh, the table and the registry end up
  as if it had run alone.
\<close>

lemma interleaved_same:
  assumes "world_ok v" and "same_routes v w" and "world_run site (filter sync_event fs) w = Some w'"
  shows "\<exists>v'. world_run site fs v = Some v' \<and> same_routes v' w'"
  using assms
proof (induction fs arbitrary: v w)
  case (Cons e fs)
  from world_step_ok [OF Cons.prems(1), of site e] obtain v1 where
    v1: "world_step site e v = Some v1" "world_ok v1" using world_le_ok by blast
  show ?case
  proof (cases "sync_event e")
    case True
    with Cons.prems(3) obtain w1 where w1: "world_step site e w = Some w1"
      "world_run site (filter sync_event fs) w1 = Some w'" by (auto split: bind_splits)
    from Cons.IH [OF v1(2) sync_step_same [OF Cons.prems(2) True v1(1) w1(1)] w1(2)] v1(1)
    show ?thesis by auto
  next
    case False
    have "same_routes v1 w"
      using task_event_same [OF False v1(1)] Cons.prems(2) by (simp add: same_routes_def)
    from Cons.IH [OF v1(2) this] Cons.prems(3) False v1(1) show ?thesis by auto
  qed
qed (auto simp: same_routes_def)

section \<open>Reachable states\<close>

text \<open>A state is the client of RzID, the shared state and what the refresh task has yet to do.\<close>

inductive app_reach :: "rzid_server \<Rightarrow> site \<Rightarrow> rzid_client \<times> world \<times> world_event list \<Rightarrow> bool" for srv site where
  init: "async_main_start io srv point_error id_error bind_error config = Inr ap \<Longrightarrow> ap_site ap = site \<Longrightarrow>
    app_reach srv site (ap_client ap, ap_world ap, [])"
| refresh: "app_reach srv site (c, w, []) \<Longrightarrow> refresh_events srv ho (c, w) = Some (c', es) \<Longrightarrow>
    app_reach srv site (c', w, es)"
| sync: "app_reach srv site (c, w, e # es) \<Longrightarrow> world_step site e w = Some w' \<Longrightarrow>
    app_reach srv site (c, w', es)"
| task: "app_reach srv site (c, w, es) \<Longrightarrow> \<not> sync_event e \<Longrightarrow> world_step site e w = Some w' \<Longrightarrow>
    app_reach srv site (c, w', es)"
| heartbeat: "app_reach srv site (c, w, es) \<Longrightarrow> app_reach srv site (snd (send_heartbeat srv c), w, es)"

lemma app_reach_run:
  "app_reach srv site (c, w, es @ fs) \<Longrightarrow> world_run site es w = Some w' \<Longrightarrow> app_reach srv site (c, w', fs)"
  by (induction es arbitrary: w) (auto split: bind_splits dest: app_reach.sync)

lemma app_reach_tasks:
  "app_reach srv site (c, w, ps) \<Longrightarrow> \<forall>e\<in>set es. \<not> sync_event e \<Longrightarrow> world_run site es w = Some w' \<Longrightarrow>
   app_reach srv site (c, w', ps)"
  by (induction es arbitrary: w) (auto split: bind_splits dest: app_reach.task)

lemma app_reach_refresh:
  assumes "app_reach srv site (c, w, [])" and "routed w"
  obtains c' w' where "refresh_tick srv ho (c, w) = Some (c', w')" "app_reach srv site (c', w', [])"
proof -
  from refresh_events_ok [OF assms(2), of srv ho c site] obtain c' js tail w' where
    r: "refresh_events srv ho (c, w) = Some (c', map WE_Create js @ tail)"
    "refresh_tick srv ho (c, w) = Some (c', w')" "world_run site (map WE_Create js @ tail) w = Some w'" by metis
  from app_reach.refresh [OF assms(1) r(1)] have "app_reach srv site (c', w, (map WE_Create js @ tail) @ [])"
    by simp
  from app_reach_run [OF this r(3)] show thesis using that r(2) by blast
qed

text \<open>
  The invariant. Between the retirement of hops and the installation of the table the registry
  is that of the new table already; at any other time it covers the current one.
\<close>

definition covered :: "world \<Rightarrow> bool" where
  "covered w \<longleftrightarrow> set (get_all_hop_ids (wd_routing w)) \<subseteq> set (get_all_ids (wd_net w))"

definition pending_ok :: "router_mode \<Rightarrow> world \<Rightarrow> world_event list \<Rightarrow> bool" where
  "pending_ok mode w es \<longleftrightarrow>
     covered w \<and> (\<exists>js. es = map WE_Create js) \<or>
     covered w \<and> (\<exists>js new. es = map WE_Create js @ [WE_Retire (get_all_hop_ids new), WE_Install new] \<and>
       fits_mode mode new \<and> set (get_all_hop_ids new) \<subseteq> set (get_all_ids (wd_net w)) \<union> set js) \<or>
     (\<exists>new. es = [WE_Install new] \<and> fits_mode mode new \<and>
       set (get_all_ids (wd_net w)) = set (get_all_hop_ids new))"

definition app_ok :: "router_mode \<Rightarrow> rzid_client \<times> world \<times> world_event list \<Rightarrow> bool" where
  "app_ok mode s \<longleftrightarrow> (case s of (c, w, es) \<Rightarrow>
     world_ok w \<and> rc_mode c = mode \<and> fits_mode mode (wd_routing w) \<and> pending_ok mode w es)"

lemma pending_done: "pending_ok mode w [] \<longleftrightarrow> covered w"
  by (auto simp: pending_ok_def)

lemma app_ok_routed: "app_ok mode (c, w, []) \<Longrightarrow> routed w"
  by (auto simp: app_ok_def routed_def pending_done covered_def fits_mode_def)

lemma app_ok_registered:
  assumes "app_ok mode (c, w, pending)" and "i \<in> set (get_all_hop_ids (wd_routing w))"
  shows "i \<in> set (get_all_ids (wd_net w)) \<or> (\<exists>new. pending = [WE_Install new] \<and> i \<notin> set (get_all_hop_ids new))"
  using assms by (auto simp: app_ok_def pending_ok_def covered_def)

lemma pending_ok_same: "same_routes v w \<Longrightarrow> pending_ok mode v es = pending_ok mode w es"
  by (simp add: pending_ok_def covered_def same_routes_def get_all_ids_def)

lemma create_pending:
  assumes "world_ok w" and step: "world_step site (WE_Create j) w = Some w'"
  shows "wd_routing w' = wd_routing w" and "set (get_all_ids (wd_net w')) = insert j (set (get_all_ids (wd_net w)))"
proof -
  obtain n where n: "create_hops [j] (wd_net w) = Some n" "w' = w\<lparr>wd_net := n\<rparr>"
    using step by (auto split: bind_splits)
  show "wd_routing w' = wd_routing w" using n by simp
  show "set (get_all_ids (wd_net w')) = insert j (set (get_all_ids (wd_net w)))"
    using create_hops_spec(2) [OF _ n(1)] assms(1) n(2) by (simp add: world_ok_def)
qed

lemma pending_step:
  assumes ok: "world_ok w" and fit: "fits_mode mode (wd_routing w)" and p: "pending_ok mode w (e # es)"
    and step: "world_step site e w = Some w'"
  shows "fits_mode mode (wd_routing w') \<and> pending_ok mode w' es"
proof -
  have net: "net_ok (wd_net w)" using ok by (simp add: world_ok_def)
  consider (create) j where "e = WE_Create j" | (retire) act where "e = WE_Retire act" | (install) new where "e = WE_Install new"
    using p by (auto simp: pending_ok_def Cons_eq_append_conv Cons_eq_map_conv)
  then show ?thesis
  proof cases
    case create
    note C = create_pending [OF ok step [unfolded create]]
    have "covered w \<Longrightarrow> covered w'" using C by (auto simp: covered_def)
    then have "pending_ok mode w' es"
      using p create C by (fastforce simp: pending_ok_def Cons_eq_append_conv Cons_eq_map_conv)
    then show ?thesis using C fit by simp
  next
    case retire
    from p [unfolded retire] obtain new where new: "act = get_all_hop_ids new" "es = [WE_Install new]" "fits_mode mode new"
      "set (get_all_hop_ids new) \<subseteq> set (get_all_ids (wd_net w))"
      by (auto simp: pending_ok_def Cons_eq_append_conv Cons_eq_map_conv)
    have w': "w' = on_net (retire_unused act) w" using step retire by simp
    have "set (get_all_ids (wd_net w')) = set act"
      using hm.reconcile(1) [OF net, of "[]" "wd_net w" act] new(1,4) by (auto simp: w' on_net_def)
    then show ?thesis using fit new by (auto simp: pending_ok_def w' on_net_def)
  next
    case install
    with p step show ?thesis
      by (auto simp: pending_ok_def Cons_eq_append_conv Cons_eq_map_conv covered_def)
  qed
qed

lemma fits_mode_initial: "fits_mode mode (initial_snapshot mode)"
  by (cases mode) (simp_all add: fits_mode_def initial_snapshot_def edge_new_def zone_new_def edge_ok_def zone_ok_def
      edge_table.closed_table_def zone_table.closed_table_def)

lemma app_reach_ok: "app_reach srv site s \<Longrightarrow> app_ok (cfg_mode (st_config site)) s"
proof (induction rule: app_reach.induct)
  case (init io point_error id_error bind_error config ap)
  note S = async_main_start_Inr [OF init(1)]
  have "st_config site = config" using S(4) init(2) by simp
  moreover have "routed (ap_world ap)" using S(1) routed_initial by simp
  ultimately show ?case
    using S fits_mode_initial by (simp add: app_ok_def pending_done covered_def routed_def)
next
  case (refresh c w ho c' es)
  then have ok: "app_ok (cfg_mode (st_config site)) (c, w, [])" by simp
  from refresh_events_ok [OF app_ok_routed [OF ok], of srv ho c site] obtain js tail where
    r: "refresh_events srv ho (c, w) = Some (c', map WE_Create js @ tail)" "same_client c c'"
    "tail = [] \<or> (\<exists>new. tail = [WE_Retire (get_all_hop_ids new), WE_Install new] \<and> fits_mode (rc_mode c) new \<and>
      set (get_all_hop_ids new) \<subseteq> set (get_all_ids (wd_net w)) \<union> set js)"
    using refresh.hyps(2) by (metis option.inject prod.inject)
  have "es = map WE_Create js @ tail" using r(1) refresh.hyps(2) by simp
  then have "pending_ok (rc_mode c) w es"
    using r(3) ok by (auto simp: app_ok_def pending_done pending_ok_def)
  then show ?case using ok r(2) by (simp add: app_ok_def same_client_def)
next
  case (sync c w e es w')
  have "world_ok w'" using sync world_step_ok [of w site e] world_le_ok by (auto simp: app_ok_def)
  with sync pending_step [of w _ e es site w'] show ?case by (simp add: app_ok_def)
next
  case (task c w es e w')
  note T = task_event_same [OF task.hyps(2,3)]
  have "world_ok w'" using task world_step_ok [of w site e] world_le_ok by (auto simp: app_ok_def)
  moreover have "pending_ok (cfg_mode (st_config site)) w' es"
    using pending_ok_same [of w' w] T task.IH by (simp add: same_routes_def app_ok_def)
  ultimately show ?case using task.IH T by (simp add: app_ok_def)
next
  case (heartbeat c w es)
  then show ?case by (simp add: app_ok_def send_heartbeat_def Let_def split: post.splits)
qed

text \<open>The bounds of the hops hold as well, and every connection is accounted for.\<close>

lemma app_reach_invariants:
  "app_reach srv site s \<Longrightarrow> hops_bounded (st_config site) (fst (snd s)) \<and> accounted (fst (snd s))"
proof (induction rule: app_reach.induct)
  case (init io point_error id_error bind_error config ap)
  then show ?case
    using async_main_start_Inr(1) [OF init(1)]
    by (simp add: hops_bounded_def net_new_def accounted_def conn_exists_def)
next
  case (sync c w e es w')
  have "world_ok w" using app_reach_ok [OF sync.hyps(1)] by (simp add: app_ok_def)
  with sync world_step_bounded [of w site e w'] world_step_accounted [of w site e w'] show ?case by simp
next
  case (task c w es e w')
  have "world_ok w" using app_reach_ok [OF task.hyps(1)] by (simp add: app_ok_def)
  with task world_step_bounded [of w site e w'] world_step_accounted [of w site e w'] show ?case by simp
qed simp_all

end
