(* ===== verification/Delivery.thy ===== *)
theory Delivery
  imports Forwarder
begin

text \<open>
  Replies arrive: when the connection of a request is in order and its peer answers, the request
  of \<open>src/connection.rs\<close> returns that answer, whatever the other tasks do before and after, and
  the forwarder of \<open>src/forwarder.rs\<close> returns it to the client under the client's id.
\<close>

section \<open>A waiter that can be reached\<close>

text \<open>
  The waiter \<open>t\<close> is registered under \<open>cid\<close>, the connection is open, and the reader is between
  two replies.
\<close>

definition reachable_waiter :: "u32 \<Rightarrow> tx \<Rightarrow> conn \<Rightarrow> bool" where
  "reachable_waiter cid t c \<longleftrightarrow> conn_ok c \<and> \<not> cn_closed c \<and> cn_rbuf c = [] \<and>
     dx.waiting (cn_demux c) cid = Some t"

text \<open>A read that brings complete replies to other requests.\<close>

definition other_replies :: "u32 \<Rightarrow> byte list \<Rightarrow> bool" where
  "other_replies cid bytes \<longleftrightarrow> (\<exists>replies. bytes = concat (map snd replies) \<and>
     (\<forall>(i, f)\<in>set replies. reply_ok i f \<and> i \<noteq> cid))"

text \<open>
  The steps of a connection that do not end it: no loss of the socket, no close, and no bytes
  that the waiter's own reply would have to share a read with.
\<close>

fun benign :: "u32 \<Rightarrow> conn_event \<Rightarrow> bool" where
  "benign cid (Ev_Writer write_ok flush_ok) = (write_ok \<and> flush_ok)"
| "benign cid (Ev_Read bytes) = other_replies cid bytes"
| "benign cid Ev_Close = False"
| "benign cid Ev_Eof = False"
| "benign cid Ev_ReadError = False"
| "benign cid _ = True"

text \<open>
  A dispatch of replies to others leaves the waiter where it is.
\<close>

lemma dispatch_others:
  assumes "conn_ok c" and "\<forall>(i, f)\<in>set replies. reply_ok i f \<and> i \<noteq> cid"
    and "dispatch replies c = Some c'"
  shows "conn_ok c' \<and> cn_rbuf c' = cn_rbuf c \<and> cn_closed c' = cn_closed c \<and>
    dx.waiting (cn_demux c') cid = dx.waiting (cn_demux c) cid"
  using assms
proof (induction replies arbitrary: c)
  case (Cons p replies)
  obtain i f where p: "p = (i, f)" by (cases p)
  obtain w d where rem: "demux_remove (cn_demux c) i = Some (w, d)"
    using dx.rem_run [OF conn_okD(1) [OF Cons.prems(1)]] by blast
  define c1 where "c1 = (case w of Some t \<Rightarrow> deliver [(t, Inr f)] (c\<lparr>cn_demux := d\<rparr>)
      | None \<Rightarrow> c\<lparr>cn_demux := d\<rparr>)"
  have "conn_ok c1"
    using dispatch_one_keeps [OF Cons.prems(1) _ rem, of f] Cons.prems(2) p
    by (auto simp: c1_def dest: keeps_ok)
  moreover have "cn_rbuf c1 = cn_rbuf c" "cn_closed c1 = cn_closed c" "cn_demux c1 = d"
    by (simp_all add: c1_def deliver_def split: option.split)
  moreover have "dx.waiting d cid = dx.waiting (cn_demux c) cid"
    using conn_ok_remove(3) [OF Cons.prems(1) rem] Cons.prems(2) p by auto
  moreover have "dispatch replies c1 = Some c'"
    using Cons.prems(3) by (simp add: p rem c1_def Let_def)
  ultimately show ?case using Cons.IH [of c1] Cons.prems(2) by auto
qed simp

lemma reachable_read:
  assumes "reachable_waiter cid t c" and "other_replies cid bytes" and "reader_read bytes c = Some c'"
  shows "reachable_waiter cid t c'"
proof -
  obtain replies where r: "bytes = concat (map snd replies)"
    "\<forall>(i, f)\<in>set replies. reply_ok i f \<and> i \<noteq> cid" using assms(2) by (auto simp: other_replies_def)
  have ok: "conn_ok c" "cn_rbuf c = []" "cn_reader c"
    using assms(1) conn_okD(9) [of c] by (auto simp: reachable_waiter_def)
  have "reader_frames bytes = Some (replies, [])"
    using r by (auto intro!: reader_frames_replies)
  then have "dispatch replies (c\<lparr>cn_rbuf := []\<rparr>) = Some c'"
    using assms(3) ok(2,3) by (simp add: reader_read_def)
  with dispatch_others [OF _ r(2), of "c\<lparr>cn_rbuf := []\<rparr>"] ok(1) assms(1) show ?thesis
    by (simp add: reachable_waiter_def)
qed

lemma benign_frame:
  assumes "benign cid e" and "\<not> cn_closed c" and "conn_step e c = Some c'"
  shows "(\<exists>bytes. e = Ev_Read bytes) \<or> (\<exists>f i now. e = Ev_Send f i now) \<or> (\<exists>u. e = Ev_Expire u) \<or>
    cn_closed c' = cn_closed c \<and> cn_rbuf c' = cn_rbuf c \<and> cn_demux c' = cn_demux c"
proof (cases e)
  case (Ev_Writer write_ok flush_ok)
  with assms show ?thesis
    by (cases "cn_queue c"; cases "cn_writer c") (auto simp: writer_step_def Let_def)
qed (use assms in \<open>auto simp: send_raw_def next_corr_id_cases keepalive_tick_def
      split: if_splits\<close>)

lemma benign_step:
  assumes reach: "reachable_waiter cid t c" and "benign cid e" and "e \<noteq> Ev_Expire t"
    and step: "conn_step e c = Some c'"
  shows "reachable_waiter cid t c'"
proof -
  have ok: "conn_ok c" and op: "\<not> cn_closed c" and buf: "cn_rbuf c = []"
    and w: "dx.waiting (cn_demux c) cid = Some t" using reach by (simp_all add: reachable_waiter_def)
  have ok': "conn_ok c'" using conn_step_ok [OF ok, of e] step by auto
  have keep: ?thesis if "cn_closed c' = cn_closed c" "cn_rbuf c' = cn_rbuf c"
    "dx.waiting (cn_demux c') cid = Some t"
    using that ok' op buf by (simp add: reachable_waiter_def)
  show ?thesis
  proof (cases e)
    case (Ev_Read bytes)
    with reachable_read [OF reach] assms(2) step show ?thesis by simp
  next
    case (Ev_Send frame i now)
    from step Ev_Send obtain r where s: "send_begin c frame i now = Some (r, c')" by auto
    consider u where "dx.waiting (cn_demux c) i = Some u"
      | "dx.waiting (cn_demux c) i = None" "length (cn_queue c) < cn_capacity c"
      | "dx.waiting (cn_demux c) i = None" "cn_capacity c \<le> length (cn_queue c)"
      by (cases "dx.waiting (cn_demux c) i") (auto simp: not_less [symmetric])
    then show ?thesis
    proof cases
      case 1
      with send_begin_in_use [OF ok] op s w show ?thesis by (intro keep) (auto simp: is_closed_def)
    next
      case 2
      with send_begin_accepted [OF ok _ 2, of frame now] op s w show ?thesis
        by (intro keep) (auto simp: is_closed_def)
    next
      case 3
      with send_begin_full [OF ok _ 3, of frame now] op s w show ?thesis
        by (intro keep) (auto simp: is_closed_def)
    qed
  next
    case (Ev_Expire u)
    show ?thesis
    proof (cases "u < length (cn_owner c) \<and> demux_holds (cn_demux c) u")
      case True
      then obtain i where i: "dx.waiting (cn_demux c) i = Some u"
        using demux_holds_iff [OF conn_okD(1) [OF ok]] by auto
      have "hm_get (cn_mail c) u = None" "cn_owner c ! u = i" using conn_okD(4,5) [OF ok i] by simp_all
      moreover obtain v d where rem: "demux_remove (cn_demux c) i = Some (v, d)"
        using dx.rem_run [OF conn_okD(1) [OF ok]] by blast
      ultimately have "c' = c\<lparr>cn_demux := d\<rparr>"
        using step True by (simp add: Ev_Expire wait_outcome_def send_end_def)
      moreover have "i \<noteq> cid" using i w assms(3) Ev_Expire by auto
      ultimately show ?thesis using conn_ok_remove(3) [OF ok rem] w by (intro keep) auto
    next
      case False
      with step Ev_Expire reach show ?thesis by auto
    qed
  qed (use benign_frame [OF assms(2) op step] w in \<open>auto intro: keep\<close>)
qed

section \<open>Steps of the world\<close>

text \<open>
  The steps of the other tasks before the reply: anything on other connections, benign steps on
  this one, the maintenance of hops, resolutions and the synchronisation; not the shutdown of a
  hop nor the release of a replaced connection, which may close it.
\<close>

fun undisturbed :: "nat \<Rightarrow> u32 \<Rightarrow> world_event \<Rightarrow> bool" where
  "undisturbed c cid (WE_Conn c' e) = (c' = c \<longrightarrow> benign cid e)"
| "undisturbed c cid (WE_Shutdown k) = False"
| "undisturbed c cid (WE_Release k) = False"
| "undisturbed c cid _ = True"

lemma undisturbed_step:
  assumes "world_ok w" and ex: "conn_exists w c" and reach: "reachable_waiter cid t (conn_at w c)"
    and "undisturbed c cid e" and "e \<noteq> WE_Conn c (Ev_Expire t)" and step: "world_step site e w = Some w'"
  shows "reachable_waiter cid t (conn_at w' c)"
proof -
  have same: ?thesis if "ar_conns (nt_arena (wd_net w')) = ar_conns (nt_arena (wd_net w))"
    using that reach by (simp add: conn_at_def)
  have opens: ?thesis if "local_step {} (nt_arena (wd_net w)) (nt_arena (wd_net w'))"
    using that reach ex by (simp add: local_step_def conn_at_def conn_exists_def)
  show ?thesis
  proof (cases e)
    case (WE_Conn c' ev)
    show ?thesis
    proof (cases "c' = c")
      case True
      with step WE_Conn ex obtain conn where
        "conn_step ev (conn_at w c) = Some conn" "w' = put_conn c conn w"
        by (auto simp: net_conn_def conn_exists_def conn_at_def put_conn_def on_net_def
            split: bind_splits)
      with benign_step [OF reach] assms(4,5) WE_Conn True show ?thesis by simp
    next
      case False
      with step WE_Conn reach show ?thesis
        by (auto simp: net_conn_def conn_at_def set_conn_def split: bind_splits if_splits)
    qed
  next
    case (WE_Create i)
    with step show ?thesis
      by (intro same) (auto simp: get_or_create_cases split: option.splits bind_splits)
  next
    case (WE_Retire active)
    with step assms(1) show ?thesis
      by (intro same) (auto simp: on_net_def world_ok_def retire_unused_spec)
  next
    case (WE_Resolve k)
    with step run_resolve_local show ?thesis by (intro opens) (auto simp: on_net_def)
  next
    case (WE_Maint h stop)
    with step net_maint_local show ?thesis by (intro opens) (auto simp: on_net_def)
  next
    case (WE_Drop h)
    with step show ?thesis by (intro same) (auto simp: on_net_def)
  qed (use step assms(4) reach in \<open>auto simp: conn_at_def\<close>)
qed

lemma undisturbed_run:
  assumes "world_ok w" and "conn_exists w c" and "reachable_waiter cid t (conn_at w c)"
    and "\<forall>e\<in>set es. undisturbed c cid e \<and> e \<noteq> WE_Conn c (Ev_Expire t)"
  shows "\<exists>w'. world_run site es w = Some w' \<and> world_ok w' \<and> conn_exists w' c \<and>
    reachable_waiter cid t (conn_at w' c)"
  using assms
proof (induction es arbitrary: w)
  case (Cons e es)
  from world_step_ok [OF Cons.prems(1), of site e] obtain w1 where
    w1: "world_step site e w = Some w1" "world_le w w1" by blast
  have "reachable_waiter cid t (conn_at w1 c)"
    using undisturbed_step [OF Cons.prems(1-3) _ _ w1(1)] Cons.prems(4) by auto
  moreover have "world_ok w1" "conn_exists w1 c" using w1(2) Cons.prems(2) by (auto simp: world_le_def)
  ultimately show ?case using Cons.IH [of w1] Cons.prems(4) w1(1) by auto
qed simp

section \<open>The reply\<close>

text \<open>The first bytes of a read are the awaited reply: the waiter has it, whatever follows.\<close>

lemma reader_read_delivers:
  assumes reach: "reachable_waiter cid t c" and f: "reply_ok cid f" and run: "reader_read (f @ trail) c = Some c'"
  shows "conn_ok c' \<and> hm_get (cn_mail c') t = Some (Inr f)"
proof -
  have ok: "conn_ok c" "cn_rbuf c = []" "cn_reader c" and w: "dx.waiting (cn_demux c) cid = Some t"
    using reach conn_okD(9) [of c] by (auto simp: reachable_waiter_def)
  obtain frames left where m: "reader_frames trail = Some (frames, left)" using reader_frames_run by blast
  then have fr: "reader_frames (f @ trail) = Some ((cid, f) # frames, left)"
    using reader_turn_reply [OF f, of trail] by (simp add: reader_frames.simps [of "f @ trail"])
  obtain d where rem: "demux_remove (cn_demux c) cid = Some (Some t, d)"
    using dx.rem_run [OF conn_okD(1) [OF ok(1)], of cid] w by auto
  let ?c = "deliver [(t, Inr f)] (c\<lparr>cn_demux := d\<rparr>)"
  have dok: "conn_ok ?c" by (rule conn_ok_deliver(1) [OF ok(1) w rem f])
  have mail: "hm_get (cn_mail ?c) t = Some (Inr f)"
    using conn_okD(5) [OF ok(1) w] by (simp add: deliver_def hm_get_append)
  have upd: "deliver [(t, Inr f)] (c\<lparr>cn_rbuf := left, cn_demux := d\<rparr>) = ?c\<lparr>cn_rbuf := left\<rparr>"
    by (simp add: deliver_def)
  have "dispatch frames (?c\<lparr>cn_rbuf := left\<rparr>) = Some c'"
    using run ok(2,3) by (simp add: reader_read_def fr rem Let_def upd)
  moreover have "\<exists>c''. dispatch frames (?c\<lparr>cn_rbuf := left\<rparr>) = Some c'' \<and> keeps (?c\<lparr>cn_rbuf := left\<rparr>) c''"
    using reader_frames_reply_ok [OF m] dok by (intro dispatch_ok) auto
  ultimately have "keeps (?c\<lparr>cn_rbuf := left\<rparr>) c'" by simp
  with mail show ?thesis by (auto simp: keeps_def conn_le_def)
qed

text \<open>
  Replies to several requests, read together: each waiter gets its own, in whatever order they
  come; replies to nobody are dropped, and the other waiters keep waiting.
\<close>

lemma dispatch_replies:
  assumes "conn_ok c" and "distinct (map fst rs)" and "\<forall>(i, f)\<in>set rs. reply_ok i f"
  shows "\<exists>c'. dispatch rs c = Some c' \<and> conn_ok c' \<and>
    (\<forall>i f t. (i, f) \<in> set rs \<longrightarrow> dx.waiting (cn_demux c) i = Some t \<longrightarrow> hm_get (cn_mail c') t = Some (Inr f)) \<and>
    (\<forall>t. (\<forall>i\<in>fst ` set rs. dx.waiting (cn_demux c) i \<noteq> Some t) \<longrightarrow> hm_get (cn_mail c') t = hm_get (cn_mail c) t) \<and>
    dx.waiting (cn_demux c') = (\<lambda>i. if i \<in> fst ` set rs then None else dx.waiting (cn_demux c) i)"
  using assms
proof (induction rs arbitrary: c)
  case (Cons p rs)
  obtain i f where p: "p = (i, f)" by (cases p)
  have f: "reply_ok i f" and rs: "i \<notin> fst ` set rs" "distinct (map fst rs)" "\<forall>(i, f)\<in>set rs. reply_ok i f"
    using Cons.prems(2,3) p by auto
  obtain d where rem: "demux_remove (cn_demux c) i = Some (dx.waiting (cn_demux c) i, d)"
    using dx.rem_run [OF conn_okD(1) [OF Cons.prems(1)], of i] by blast
  note R = conn_ok_remove [OF Cons.prems(1) rem]
  define c1 where "c1 = (case dx.waiting (cn_demux c) i of
      Some t \<Rightarrow> deliver [(t, Inr f)] (c\<lparr>cn_demux := d\<rparr>) | None \<Rightarrow> c\<lparr>cn_demux := d\<rparr>)"
  have w1: "dx.waiting (cn_demux c1) = (dx.waiting (cn_demux c))(i := None)"
    using R(3) by (simp add: c1_def deliver_def split: option.split)
  have ok1: "conn_ok c1"
    using R(1) conn_ok_deliver(1) [OF Cons.prems(1) _ _ f] rem by (auto simp: c1_def split: option.split)
  have m1: "hm_get (cn_mail c1) t = (if dx.waiting (cn_demux c) i = Some t then Some (Inr f) else hm_get (cn_mail c) t)" for t
    using conn_okD(5) [OF Cons.prems(1), of i t]
    by (cases "dx.waiting (cn_demux c) i") (auto simp: c1_def deliver_def hm_get_append split: option.split)
  from Cons.IH [OF ok1 rs(2,3)] obtain c' where
    c': "dispatch rs c1 = Some c'" "conn_ok c'"
    "\<And>j g t. (j, g) \<in> set rs \<Longrightarrow> dx.waiting (cn_demux c1) j = Some t \<Longrightarrow> hm_get (cn_mail c') t = Some (Inr g)"
    "\<And>t. \<forall>j\<in>fst ` set rs. dx.waiting (cn_demux c1) j \<noteq> Some t \<Longrightarrow> hm_get (cn_mail c') t = hm_get (cn_mail c1) t"
    "dx.waiting (cn_demux c') = (\<lambda>j. if j \<in> fst ` set rs then None else dx.waiting (cn_demux c1) j)" by blast
  have run: "dispatch (p # rs) c = Some c'" using c'(1) rem by (simp add: p c1_def)
  have uniq: "j = i" if "dx.waiting (cn_demux c) i = Some t" "dx.waiting (cn_demux c) j = Some t" for j t
    using conn_okD(4) [OF Cons.prems(1) that(1)] conn_okD(4) [OF Cons.prems(1) that(2)] by simp
  have "hm_get (cn_mail c') t = Some (Inr g)"
    if "(j, g) \<in> set (p # rs)" "dx.waiting (cn_demux c) j = Some t" for j g t
  proof (cases "(j, g) \<in> set rs")
    case True
    then have "j \<noteq> i" using rs(1) by force
    with True c'(3) w1 that(2) show ?thesis by simp
  next
    case False
    with that p have j: "j = i" "g = f" by auto
    have "\<forall>k\<in>fst ` set rs. dx.waiting (cn_demux c1) k \<noteq> Some t"
    proof
      fix k assume k: "k \<in> fst ` set rs"
      show "dx.waiting (cn_demux c1) k \<noteq> Some t"
        using uniq [of t k] that(2) j(1) k rs(1) w1 by (cases "k = i") auto
    qed
    then have "hm_get (cn_mail c') t = hm_get (cn_mail c1) t" by (rule c'(4))
    with m1 [of t] that(2) j show ?thesis by simp
  qed
  moreover have "hm_get (cn_mail c') t = hm_get (cn_mail c) t"
    if "\<forall>j\<in>fst ` set (p # rs). dx.waiting (cn_demux c) j \<noteq> Some t" for t
  proof -
    have "\<forall>j\<in>fst ` set rs. dx.waiting (cn_demux c1) j \<noteq> Some t" using that w1 by simp
    then have "hm_get (cn_mail c') t = hm_get (cn_mail c1) t" by (rule c'(4))
    then show ?thesis using that m1 [of t] p by simp
  qed
  moreover have "dx.waiting (cn_demux c') = (\<lambda>j. if j \<in> fst ` set (p # rs) then None else dx.waiting (cn_demux c) j)"
    using c'(5) w1 p by (auto simp: fun_eq_iff)
  ultimately show ?case using run c'(2) by blast
qed auto

text \<open>
  A connection that can take a request with the id \<open>cid\<close>: open, between two replies, with room
  in its queue, and the id not in use.
\<close>

definition accepts :: "u32 \<Rightarrow> conn \<Rightarrow> bool" where
  "accepts cid c \<longleftrightarrow> \<not> cn_closed c \<and> cn_rbuf c = [] \<and> length (cn_queue c) < cn_capacity c \<and>
     dx.waiting (cn_demux c) cid = None"

lemma request_delivers:
  assumes ok: "world_ok w" and ex: "conn_exists w c" and acc: "accepts cid (conn_at w c)"
    and before: "\<forall>e\<in>set before. undisturbed c cid e" and f: "reply_ok cid response"
  shows "\<exists>w'. request site (before @ WE_Conn c (Ev_Read (response @ trail)) # after) now c frame cid w =
    Some (Inr response, w')"
proof -
  let ?t = "length (cn_owner (conn_at w c))" and ?es = "\<lambda>t. filter (\<lambda>e. e \<noteq> WE_Conn c (Ev_Expire t))"
  obtain conn where s: "send_begin (conn_at w c) frame cid now = Some (Inr ?t, conn)" "conn_ok conn"
    "reachable_waiter cid ?t conn" and le: "conn_le (conn_at w c) conn"
    using send_begin_accepted [OF world_conn_ok [OF ok ex], of cid frame now] acc
    by (auto simp: accepts_def is_closed_def reachable_waiter_def conn_le_def)
  let ?w1 = "put_conn c conn w"
  have w1: "world_ok ?w1" using put_conn_le [OF ok s(2) le] by (rule world_le_ok)
  from undisturbed_run [OF w1, of c cid ?t "?es ?t before" site] ex s(3) before obtain w2 where
    w2: "world_run site (?es ?t before) ?w1 = Some w2" "world_ok w2" "conn_exists w2 c"
    "reachable_waiter cid ?t (conn_at w2 c)" by auto
  obtain conn2 where r: "reader_read (response @ trail) (conn_at w2 c) = Some conn2"
    using reader_read_ok [OF world_conn_ok [OF w2(2,3)]] by blast
  note D = reader_read_delivers [OF w2(4) f r]
  have step: "world_step site (WE_Conn c (Ev_Read (response @ trail))) w2 = Some (put_conn c conn2 w2)"
    using r w2(3) by (simp add: net_conn_def conn_exists_def conn_at_def put_conn_def on_net_def)
  have w3: "world_le w2 (put_conn c conn2 w2)"
    using world_step_ok [OF w2(2), of site "WE_Conn c (Ev_Read (response @ trail))"] step by auto
  from world_run_ok [OF world_le_ok [OF w3], of site "?es ?t after"] obtain w4 where
    w4: "world_run site (?es ?t after) (put_conn c conn2 w2) = Some w4" "world_le (put_conn c conn2 w2) w4"
    by blast
  have "hm_get (cn_mail (conn_at w4 c)) ?t = Some (Inr response)"
    using w4(2) D w2(3) by (auto simp: world_le_def conn_le_def)
  then have e: "send_end (conn_at w4 c) cid (wait_outcome (conn_at w4 c) ?t) = Some (Inr response, conn_at w4 c)"
    by (simp add: send_end_def wait_outcome_def)
  have "world_run site (?es ?t (before @ WE_Conn c (Ev_Read (response @ trail)) # after)) ?w1 = Some w4"
    using w2(1) w4(1) step by (simp add: world_run_append del: world_step.simps)
  with s(1) e show ?thesis by (simp add: request_def)
qed

section \<open>The forwarder\<close>

text \<open>
  The hop a call tries first, and the connection it takes there, can take the request.
\<close>

definition first_choice :: "world \<Rightarrow> string \<Rightarrow> u32 \<Rightarrow> nat option" where
  "first_choice w segment clrid =
     (let hop_ids = snapshot_lookup (wd_routing w) segment in
      if hop_ids = [] then None
      else case registry_get (wd_net w) (hop_ids ! (unat clrid mod length hop_ids)) of
        None \<Rightarrow> None
      | Some h \<Rightarrow> fst (net_next_connection h (wd_net w)))"

lemma try_hop_delivers:
  assumes ok: "world_ok (cl_world s)" and h: "registry_get (wd_net (cl_world s)) hop_id = Some h"
    and p: "net_next_connection h (wd_net (cl_world s)) = (Some c, n)"
    and i: "fst (next_corr_id (conn_at (cl_world s) c)) = cid" and acc: "accepts cid (conn_at (cl_world s) c)"
    and len: "jb_offset job + 4 \<le> length (cl_frame s)"
    and ev: "sc_events sched (cl_waits s) = before @ WE_Conn c (Ev_Read (response @ trail)) # after"
    and before: "\<forall>e\<in>set before. undisturbed c cid e" and f: "reply_ok cid response"
  shows "\<exists>s' e. try_hop site sched job hop_id s = Some (Some (Inr (with_clrid (jb_clrid job) response)), s') \<and>
    cl_log s' = cl_log s @ [e] \<and> sd_conn e = c \<and> sd_id e = cid"
proof -
  define w1 where "w1 = cl_world s\<lparr>wd_net := n\<rparr>"
  have net: "net_ok (wd_net (cl_world s))" using ok by (simp add: world_ok_def)
  have "h < nt_next (wd_net (cl_world s))" using net_okD(2) [OF net] h by (simp add: registry_get_def)
  from net_next_connection_ok [OF net p this] have "nt_arena n = nt_arena (wd_net (cl_world s))" by auto
  then have at: "conn_at w1 c = conn_at (cl_world s) c" by (simp add: w1_def conn_at_def)
  note P = picked_le [OF ok h p]
  have ex: "conn_exists w1 c" and w1: "world_ok w1" using P(1,3) by (auto simp: w1_def world_le_def)
  obtain conn where conn: "next_corr_id (conn_at w1 c) = (cid, conn)"
    using i at by (cases "next_corr_id (conn_at w1 c)") auto
  define w2 where "w2 = put_conn c conn w1"
  have w2: "world_ok w2" "conn_exists w2 c"
    using next_id_le(1) [OF w1 ex conn] ex by (auto simp: w2_def world_le_def)
  have "accepts cid (conn_at w2 c)"
    using acc at conn by (auto simp: w2_def accepts_def next_corr_id_cases split: if_splits)
  from request_delivers [OF w2 this before f, of site trail after "sc_now sched (cl_waits s)"
      "take (jb_offset job) (cl_frame s) @ u32_le cid @ drop (jb_offset job + 4) (cl_frame s)"]
  obtain w3 where r: "request site (sc_events sched (cl_waits s)) (sc_now sched (cl_waits s)) c
      (take (jb_offset job) (cl_frame s) @ u32_le cid @ drop (jb_offset job + 4) (cl_frame s)) cid w2 =
      Some (Inr response, w3)" unfolding ev by blast
  have "\<not> is_closed (conn_at w1 c)" using acc at by (simp add: accepts_def is_closed_def)
  then show ?thesis
    using len r conn restore_clrid_ok [OF f, of "jb_clrid job"]
    by (simp add: try_hop_def h p Let_def slice_in patch_in flip: w1_def w2_def)
qed

lemma forward_delivers:
  assumes ok: "world_ok w" and seg: "segment \<noteq> GETSEGMENTS" "segment \<noteq> GETCODECS"
    and c: "first_choice w segment clrid = Some c"
    and i: "fst (next_corr_id (conn_at w c)) = cid" and acc: "accepts cid (conn_at w c)"
    and len: "off + 4 \<le> length frame" and "0 < fw_max_retries fw"
    and ev: "sc_events sched 0 = before @ WE_Conn c (Ev_Read (response @ trail)) # after"
    and before: "\<forall>e\<in>set before. undisturbed c cid e" and f: "reply_ok cid response"
  shows "\<exists>s e. forward site sched fw frame segment off clrid is_write w = Some (Inr (with_clrid clrid response), s) \<and>
    cl_log s = [e] \<and> sd_conn e = c \<and> sd_id e = cid"
proof -
  define hop_ids where "hop_ids = snapshot_lookup (wd_routing w) segment"
  let ?k = "unat clrid mod length hop_ids"
  let ?job = "\<lparr>jb_segment = segment, jb_offset = off, jb_clrid = clrid, jb_write = is_write\<rparr>"
  have ne: "hop_ids \<noteq> []" using c by (auto simp: first_choice_def hop_ids_def)
  obtain h n where h: "registry_get (wd_net w) (hop_ids ! ?k) = Some h"
    "net_next_connection h (wd_net w) = (Some c, n)"
    using c ne by (auto simp: first_choice_def Let_def prod_eq_iff simp flip: hop_ids_def split: option.splits)
  from try_hop_delivers [of "start_call w frame" "hop_ids ! ?k" h c n cid ?job sched before response trail after site]
    ok h i acc len ev before f
  obtain s e where s: "try_hop site sched ?job (hop_ids ! ?k) (start_call w frame) =
      Some (Some (Inr (with_clrid clrid response)), s)" "cl_log s = [e]" "sd_conn e = c" "sd_id e = cid"
    by (auto simp: start_call_def)
  have upt: "[0..<length hop_ids] = 0 # [1..<length hop_ids]" "[0..<fw_max_retries fw] = 0 # [1..<fw_max_retries fw]"
    using ne \<open>0 < _\<close> by (simp_all add: upt_conv_Cons)
  have "rd hop_ids ?k = Some (hop_ids ! ?k)" using ne by (simp add: rd_def)
  with s(1) have "try_hops site sched ?job hop_ids ?k [0..<length hop_ids] (start_call w frame) =
      Some (Some (Inr (with_clrid clrid response)), s)"
    unfolding upt by simp
  then have "attempts site sched ?job (fw_max_retries fw) [0..<fw_max_retries fw] (start_call w frame) =
      Some (Inr (with_clrid clrid response), s)"
    using ne unfolding upt(2) by (simp add: Let_def flip: hop_ids_def)
  with s(2-4) seg show ?thesis by (simp add: forward_def)
qed

end
