(* ===== verification/Client.thy ===== *)
theory Client
  imports Connection
begin

text \<open>
  The client of the integration tests, from \<open>tests/common/command.rs\<close>: what it sends and how it
  reads an answer. It is the other end of the wire format, so the theory states what the
  frames and answers of the router mean to it. The clock (\<open>chrono\<close>) and the printing of UUIDs
  are parameters.
\<close>

section \<open>Text from bytes that may be invalid\<close>

text \<open>\<open>String::from_utf8_lossy\<close>: an ill-formed sequence becomes the replacement character.\<close>

definition byte_at :: "byte list \<Rightarrow> nat \<Rightarrow> byte" where
  "byte_at bs i = (if i < length bs then bs ! i else 0)"

definition ill_formed :: "byte list \<Rightarrow> nat" where
  "ill_formed bs =
     (if utf8_width (byte_at bs 0) < 2 \<or> \<not> utf8_second (byte_at bs 0) (byte_at bs 1) then 1
      else if \<not> cont_byte (byte_at bs 2) then 2 else 3)"

function from_utf8_lossy :: "byte list \<Rightarrow> byte list" where
  "from_utf8_lossy bs =
     (if bs = [] then []
      else case utf8_first bs of
        Some n \<Rightarrow> take n bs @ from_utf8_lossy (drop n bs)
      | None \<Rightarrow> [0xEF, 0xBF, 0xBD] @ from_utf8_lossy (drop (ill_formed bs) bs))"
  by pat_completeness auto
termination
  by (relation "measure length") (auto dest: utf8_first_bounds simp: ill_formed_def)

declare from_utf8_lossy.simps [simp del]

lemma from_utf8_lossy_valid: "utf8_valid bs \<Longrightarrow> from_utf8_lossy bs = bs"
proof (induction bs rule: from_utf8_lossy.induct)
  case (1 bs)
  then show ?case
    by (auto simp: from_utf8_lossy.simps [of bs] utf8_valid.simps [of bs] split: if_splits option.splits)
qed

section \<open>Requests\<close>

definition command_field :: "u16 \<Rightarrow> string \<Rightarrow> byte list" where
  "command_field i s = u16_le i @ [0x01] @ u32_le (word_of_nat (length s)) @ as_bytes s"

definition build_get_prop_room_day :: "string \<Rightarrow> string \<Rightarrow> string \<Rightarrow> byte list" where
  "build_get_prop_room_day property_id room_type date =
     (let cmd_name = ''GETPROPROOMDAY''
      in [word_of_nat (length cmd_name)] @ as_bytes cmd_name @ u16_le 3 @
         command_field 1 property_id @ command_field 2 room_type @ command_field 3 date)"

definition prepend_router_header :: "string \<Rightarrow> bool \<Rightarrow> u32 \<Rightarrow> byte list \<Rightarrow> byte list" where
  "prepend_router_header segment is_write clrid payload =
     (let shard_total_len = (word_of_nat (length payload) :: u32);
          shard_frame_len = 9 + shard_total_len;
          segment_len = (word_of_nat (length segment) :: u32);
          router_header_len = 1 + segment_len + 1
      in [ROUTER_MAGIC] @ u32_le (router_header_len + shard_frame_len) @
         [ucast segment_len] @ as_bytes segment @ [if is_write then 0x01 else 0x00] @
         [SHARD_MAGIC] @ u32_le clrid @ u32_le shard_total_len @ payload)"

definition get_serialized_command :: "string \<Rightarrow> string \<Rightarrow> byte list" where
  "get_serialized_command tomorrow cmd =
     (if cmd = ''GETPROPROOMDAY'' then
        prepend_router_header ''segment_1'' False 0
          (build_get_prop_room_day ''s1_seg1_p1'' ''room1'' tomorrow)
      else as_bytes (''CMD:'' @ cmd))"

section \<open>Frames\<close>

text \<open>
  The results of the reads to come: an error, or the bytes of one read (none at the end of the
  stream). \<open>fill_buf\<close> is the loop that reads until the buffer is long enough.
\<close>

type_synonym reads = "(string + byte list) list"

fun fill_buf :: "nat \<Rightarrow> reads \<Rightarrow> byte list \<Rightarrow> (rz_error + unit) \<times> reads \<times> byte list" where
  "fill_buf n [] buf = (if length buf < n then (Inl (RZ_System ''Short frame''), [], buf) else (Inr (), [], buf))"
| "fill_buf n (r # reads) buf =
     (if length buf < n then
        (case r of
           Inl e \<Rightarrow> (Inl (RZ_System ''Short frame''), reads, buf)
         | Inr bytes \<Rightarrow>
             if bytes = [] then (Inl (RZ_System ''Short frame''), reads, buf)
             else fill_buf n reads (buf @ bytes))
      else (Inr (), r # reads, buf))"

definition drain_frame ::
  "reads \<Rightarrow> byte list \<Rightarrow> ((rz_error + u32 \<times> byte list) \<times> reads \<times> byte list) run" where
  "drain_frame reads buf =
     (case fill_buf 9 reads buf of
        (Inl e, reads, buf) \<Rightarrow> Some (Inl e, reads, buf)
      | (Inr _, reads, buf) \<Rightarrow> do {
          header_bytes \<leftarrow> slice buf 0 9;
          magic \<leftarrow> rd header_bytes 0;
          if magic \<noteq> SHARD_MAGIC
          then Some (Inl (RZ_System (''Missing magic: '' @ dec (unat magic))), reads, buf)
          else do {
            clr_bytes \<leftarrow> slice header_bytes 1 5;
            len_bytes \<leftarrow> slice header_bytes 5 9;
            let clr_id = (from_le clr_bytes :: u32);
            let payload_len = unat (from_le len_bytes :: u32);
            (case fill_buf (9 + payload_len) reads buf of
               (Inl e, reads, buf) \<Rightarrow> Some (Inl e, reads, buf)
             | (Inr _, reads, buf) \<Rightarrow> do {
                 (_, buf) \<leftarrow> split_to 9 buf;
                 (payload, buf) \<leftarrow> split_to payload_len buf;
                 Some (if payload = [] then Inl (RZ_System ''Empty payload'') else Inr (clr_id, payload),
                   reads, buf)
               })
          }
        })"

section \<open>Answers\<close>

text \<open>\<open>read_field!\<close>: a field at an offset, and the offset behind it.\<close>

definition read_field :: "byte list \<Rightarrow> nat \<Rightarrow> (rz_error + (u16 \<times> byte \<times> byte list) \<times> nat) run" where
  "read_field data offset =
     (if offset + 7 > length data then Some (Inl (RZ_System ''Field header too short''))
      else do {
        id_bytes \<leftarrow> slice data offset (offset + 2);
        typ \<leftarrow> rd data (offset + 2);
        len_bytes \<leftarrow> slice data (offset + 3) (offset + 7);
        let len = unat (from_le len_bytes :: u32);
        let offset = offset + 7;
        if offset + len > length data then Some (Inl (RZ_System ''Field data too short''))
        else do {
          bytes \<leftarrow> slice data offset (offset + len);
          Some (Inr ((from_le id_bytes, typ, bytes), offset + len))
        }
      })"

definition extract_error_message :: "byte list \<Rightarrow> u16 \<Rightarrow> nat \<Rightarrow> (rz_error + byte list) run" where
  "extract_error_message data field_count offset =
     (let failed = Some (Inl (RZ_System ''Failed to extract error message'')) in
      if field_count \<ge> 1 \<and> offset + 7 \<le> length data then do {
        id_bytes \<leftarrow> slice data offset (offset + 2);
        field_type \<leftarrow> rd data (offset + 2);
        if (from_le id_bytes :: u16) = 1 \<and> field_type = 0x01 then do {
          len_bytes \<leftarrow> slice data (offset + 3) (offset + 7);
          let field_len = unat (from_le len_bytes :: u32);
          let msg_offset = offset + 7;
          if msg_offset + field_len \<le> length data then do {
            message \<leftarrow> slice data msg_offset (msg_offset + field_len);
            Some (Inr (from_utf8_lossy message))
          } else failed
        } else failed
      } else failed)"

text \<open>The head of an answer: status, number of fields, and where the fields start.\<close>

definition read_status :: "byte list \<Rightarrow> (rz_error + byte list \<times> u16 \<times> nat) run" where
  "read_status data =
     (if data = [] then Some (Inl (RZ_System ''Empty response''))
      else do {
        status_len_byte \<leftarrow> rd data 0;
        let status_len = unat status_len_byte;
        let min_len = 1 + status_len + 2;
        if length data < min_len then Some (Inl (RZ_System ''Response too short''))
        else do {
          status \<leftarrow> slice data 1 (1 + status_len);
          count_bytes \<leftarrow> slice data (1 + status_len) (1 + status_len + 2);
          Some (Inr (status, from_le count_bytes, 1 + status_len + 2))
        }
      })"

text \<open>What an answer that is not a success is turned into.\<close>

definition failure_of :: "byte list \<Rightarrow> u16 \<Rightarrow> nat \<Rightarrow> rz_error run" where
  "failure_of data field_count offset = do {
     m \<leftarrow> extract_error_message data field_count offset;
     Some (case m of
       Inr error_msg \<Rightarrow> RZ_System (''ERROR: '' @ of_bytes error_msg)
     | Inl _ \<Rightarrow> RZ_System ''Non-success status: ERROR'')
   }"

text \<open>The question mark operator in a task that may panic.\<close>

definition try_run :: "('e + 'a) run \<Rightarrow> ('a \<Rightarrow> ('e + 'b) run) \<Rightarrow> ('e + 'b) run" where
  "try_run m k = do { r \<leftarrow> m; case r of Inl e \<Rightarrow> Some (Inl e) | Inr a \<Rightarrow> k a }"

lemma try_run_simps [simp]:
  "try_run None k = None" "try_run (Some (Inl e)) k = Some (Inl e)" "try_run (Some (Inr a)) k = k a"
  by (simp_all add: try_run_def)

text \<open>
  A property id: a short one (two texts that end at a zero byte, around the marker), or a UUID,
  whose text form \<open>uuid_text\<close> is a parameter.
\<close>

definition bytes_to_property_id :: "(byte list \<Rightarrow> string) \<Rightarrow> byte list \<Rightarrow> string run" where
  "bytes_to_property_id uuid_text data =
     (if length data < 7 then Some []
      else do {
        marker \<leftarrow> rd data 6;
        if marker = 0xF0 then do {
          left \<leftarrow> slice data 0 6;
          let left_len = length (takeWhile (\<lambda>b. b \<noteq> 0) left);
          right \<leftarrow> slice data 7 (length data);
          let right_len = length (takeWhile (\<lambda>b. b \<noteq> 0) right);
          l \<leftarrow> slice data 0 left_len;
          r \<leftarrow> slice data 7 (7 + right_len);
          Some (of_bytes (from_utf8_lossy (l @ r)))
        }
        else if drop_bit 4 (marker AND 0xF0) \<in> {1, 2, 3, 4, 5, 7} then do {
          let copy_len = min (length data) 16;
          copied \<leftarrow> slice data 0 copy_len;
          uuid_bytes \<leftarrow> patch (replicate 16 0) 0 copy_len copied;
          Some (uuid_text uuid_bytes)
        }
        else Some []
      })"

record get_prop_room_day_response =
  gr_property_id :: string
  gr_date :: string
  gr_availability :: byte
  gr_final_price :: u32
  gr_rate_feature_mask :: u32

definition decode_get_prop_room_day_response ::
  "(byte list \<Rightarrow> string) \<Rightarrow> byte list \<Rightarrow> (rz_error + get_prop_room_day_response) run" where
  "decode_get_prop_room_day_response uuid_text data =
     try_run (read_status data) (\<lambda>(status, field_count, offset).
     if status \<noteq> as_bytes ''SUCCESS''
     then map_option Inl (failure_of data field_count offset)
     else if field_count \<noteq> 5
     then Some (Inl (RZ_System (''Expected 5 fields, got '' @ dec (unat field_count))))
     else try_run (read_field data offset) (\<lambda>((id1, typ1, property_id_bytes), offset).
     if id1 \<noteq> 1 \<or> typ1 \<noteq> 0x01 then Some (Inl (RZ_System ''Invalid property_id field''))
     else bytes_to_property_id uuid_text property_id_bytes \<bind> (\<lambda>property_id.
     try_run (read_field data offset) (\<lambda>((id2, typ2, date_bytes), offset).
     if id2 \<noteq> 2 \<or> typ2 \<noteq> 0x01 then Some (Inl (RZ_System ''Invalid date field''))
     else case from_utf8 date_bytes of
       None \<Rightarrow> Some (Inl (RZ_System ''Invalid UTF-8 in date''))
     | Some date \<Rightarrow>
     try_run (read_field data offset) (\<lambda>((id3, typ3, avail_bytes), offset).
     if id3 \<noteq> 3 \<or> typ3 \<noteq> 0x02 \<or> length avail_bytes \<noteq> 1
     then Some (Inl (RZ_System ''Invalid availability field''))
     else rd avail_bytes 0 \<bind> (\<lambda>availability.
     try_run (read_field data offset) (\<lambda>((id4, typ4, price_bytes), offset).
     if id4 \<noteq> 4 \<or> typ4 \<noteq> 0x03 \<or> length price_bytes \<noteq> 4
     then Some (Inl (RZ_System ''Invalid final_price field''))
     else try_run (read_field data offset) (\<lambda>((id5, typ5, rate_bytes), offset).
     if id5 \<noteq> 5 \<or> typ5 \<noteq> 0x03 \<or> length rate_bytes \<noteq> 4
     then Some (Inl (RZ_System ''Invalid rate_feature_mask field''))
     else if offset \<noteq> length data then Some (Inl (RZ_System ''Trailing data after fields''))
     else Some (Inr \<lparr>gr_property_id = property_id, gr_date = date, gr_availability = availability,
       gr_final_price = from_le price_bytes, gr_rate_feature_mask = from_le rate_bytes\<rparr>)))))))))"

datatype command_response = GetPropRoomDay get_prop_room_day_response

definition process_response ::
  "(byte list \<Rightarrow> string) \<Rightarrow> string \<Rightarrow> byte list \<Rightarrow> (rz_error + command_response) run" where
  "process_response uuid_text cmd payload =
     (if cmd = ''GETPROPROOMDAY''
      then try_run (decode_get_prop_room_day_response uuid_text payload) (\<lambda>res.
        Some (Inr (GetPropRoomDay res)))
      else Some (Inl (RZ_System (''Unknown command: '' @ cmd))))"

section \<open>Round trips\<close>

text \<open>What the client sends is a frame of the grammar, so the router decodes it to its parts.\<close>

lemma prepend_router_header_grammar:
  assumes "length segment < 256" and "11 + length segment + length payload < 2 ^ 32"
  shows "prepend_router_header segment is_write clrid payload =
    frame_bytes segment (if is_write then 1 else 0) clrid (u32_le (word_of_nat (length payload)) @ payload)"
proof -
  have seg: "(ucast (word_of_nat (length segment) :: u32) :: byte) = word_of_nat (length segment)"
    by (simp add: unsigned_of_nat word_of_nat_eq_iff take_bit_take_bit)
  show ?thesis
    unfolding prepend_router_header_def Let_def seg
    by (simp add: frame_bytes_def frame_body_def ac_simps)
qed

text \<open>A reply that is in the buffer is drained to its id and its payload.\<close>

lemma fill_buf_enough [simp]: "n \<le> length buf \<Longrightarrow> fill_buf n reads buf = (Inr (), reads, buf)"
  by (cases reads) auto

lemma drain_reply:
  assumes "payload \<noteq> []" and "length payload < 2 ^ 32"
  shows "drain_frame reads (reply_bytes clrid payload @ rest) = Some (Inr (clrid, payload), reads, rest)"
proof -
  define h where "h = [SHARD_MAGIC] @ u32_le clrid @ u32_le (word_of_nat (length payload))"
  have h: "length h = 9" "h ! 0 = SHARD_MAGIC" "take 4 (drop (Suc 0) h) = u32_le clrid"
    "drop 5 h = u32_le (word_of_nat (length payload))"
    by (simp_all add: h_def)
  have buf: "reply_bytes clrid payload @ rest = h @ payload @ rest"
    by (simp add: reply_bytes_def h_def)
  have len: "unat (word_of_nat (length payload) :: u32) = length payload"
    using assms by (intro unat_word_of_nat) simp
  show ?thesis
    unfolding drain_frame_def buf using assms
    by (simp add: run_simps h len Let_def)
qed

text \<open>The head and the fields of a reply are read back.\<close>

lemma read_status_reply:
  assumes "length status < 256"
  shows "read_status (reply_payload status flds) =
    Some (Inr (as_bytes status, word_of_nat (length flds), length status + 3))"
proof -
  have len: "unat (word_of_nat (length status) :: byte) = length status"
    using assms by (intro unat_word_of_nat) simp
  show ?thesis
    unfolding read_status_def reply_payload_def by (simp add: run_simps len Let_def)
qed

lemma read_field_bytes:
  assumes "length d < 2 ^ 32" and "offset = length pre"
  shows "read_field (pre @ field_bytes (i, t, d) @ post) offset =
    Some (Inr ((i, t, d), offset + length (field_bytes (i, t, d))))"
proof -
  have len: "unat (word_of_nat (length d) :: u32) = length d"
    using assms by (intro unat_word_of_nat) simp
  show ?thesis
    unfolding read_field_def using assms(2) by (simp add: run_simps len Let_def nth_append)
qed

text \<open>All fields of an answer, one after the other, as the decoder takes them.\<close>

fun read_fields :: "nat \<Rightarrow> byte list \<Rightarrow> nat \<Rightarrow> (rz_error + reply_field list \<times> nat) run" where
  "read_fields 0 data offset = Some (Inr ([], offset))"
| "read_fields (Suc n) data offset =
     try_run (read_field data offset) (\<lambda>(f, offset).
     try_run (read_fields n data offset) (\<lambda>(fs, offset). Some (Inr (f # fs, offset))))"

definition read_answer :: "byte list \<Rightarrow> (rz_error + byte list \<times> reply_field list \<times> nat) run" where
  "read_answer data =
     try_run (read_status data) (\<lambda>(status, field_count, offset).
     try_run (read_fields (unat field_count) data offset) (\<lambda>(fs, offset).
     Some (Inr (status, fs, offset))))"

lemma read_fields_bytes:
  "\<forall>(i, t, d) \<in> set flds. length d < 2 ^ 32 \<Longrightarrow> offset = length pre \<Longrightarrow>
   read_fields (length flds) (pre @ concat (map field_bytes flds)) offset =
     Some (Inr (flds, offset + length (concat (map field_bytes flds))))"
proof (induction flds arbitrary: pre offset)
  case (Cons f flds)
  obtain i t d where f: "f = (i, t, d)" by (metis prod_cases3)
  have "read_fields (length flds) ((pre @ field_bytes f) @ concat (map field_bytes flds))
      (offset + length (field_bytes f)) =
    Some (Inr (flds, offset + length (field_bytes f) + length (concat (map field_bytes flds))))"
    using Cons.prems by (intro Cons.IH) auto
  moreover have "read_field (pre @ field_bytes f @ concat (map field_bytes flds)) offset =
      Some (Inr (f, offset + length (field_bytes f)))"
    using read_field_bytes [of d offset pre i t "concat (map field_bytes flds)"] Cons.prems f by auto
  ultimately show ?case by (simp del: field_bytes.simps)
qed simp

lemma read_answer_reply:
  assumes "length status < 256" and "length flds < 2 ^ 16"
    and "\<forall>(i, t, d) \<in> set flds. length d < 2 ^ 32"
  shows "read_answer (reply_payload status flds) =
    Some (Inr (as_bytes status, flds, length (reply_payload status flds)))"
proof -
  define pre where "pre = [word_of_nat (length status)] @ as_bytes status @ u16_le (word_of_nat (length flds))"
  have data: "reply_payload status flds = pre @ concat (map field_bytes flds)"
    by (simp add: reply_payload_def pre_def)
  have pre: "length pre = length status + 3" by (simp add: pre_def)
  have n: "unat (word_of_nat (length flds) :: u16) = length flds"
    using assms by (intro unat_word_of_nat) simp
  have "read_fields (length flds) (reply_payload status flds) (length status + 3) =
      Some (Inr (flds, length (reply_payload status flds)))"
    using read_fields_bytes [OF assms(3) pre [symmetric]] by (simp add: data pre)
  then show ?thesis
    by (simp add: read_answer_def read_status_reply [OF assms(1)] n)
qed

text \<open>So a client gets back every segment the router was configured with, in order.\<close>

lemma segment_fields_small:
  "\<forall>s\<in>set segs. length s < 2 ^ 32 \<Longrightarrow> \<forall>(i, t, d) \<in> set (segment_fields n segs). length d < 2 ^ 32"
  by (induction n segs rule: segment_fields.induct) auto

lemma get_segments_read:
  assumes "2 * length segs < 2 ^ 16" and "\<forall>s\<in>set segs. length s < 2 ^ 32"
    and "length (reply_payload ''SUCCESS'' (segment_fields 0 segs)) < 2 ^ 32"
  obtains bytes payload where "serialize_get_segments segs clrid = Some bytes"
    and "drain_frame reads (bytes @ rest) = Some (Inr (clrid, payload), reads, rest)"
    and "read_answer payload = Some (Inr (as_bytes ''SUCCESS'', segment_fields 0 segs, length payload))"
proof
  show "serialize_get_segments segs clrid = Some
      (reply_bytes clrid (reply_payload ''SUCCESS'' (segment_fields 0 segs)))"
    by (rule serialize_get_segments_eq)
  show "drain_frame reads (reply_bytes clrid (reply_payload ''SUCCESS'' (segment_fields 0 segs)) @ rest) =
      Some (Inr (clrid, reply_payload ''SUCCESS'' (segment_fields 0 segs)), reads, rest)"
    using assms(3) by (intro drain_reply) (simp_all add: reply_payload_def)
  show "read_answer (reply_payload ''SUCCESS'' (segment_fields 0 segs)) =
      Some (Inr (as_bytes ''SUCCESS'', segment_fields 0 segs,
        length (reply_payload ''SUCCESS'' (segment_fields 0 segs))))"
    using assms(1) segment_fields_small [OF assms(2), of 0] by (intro read_answer_reply) simp_all
qed

text \<open>
  The payload of an error answer carries one text field of length 4, and the four bytes of
  that field are the length of the text that follows, not the text: the client reads the same
  error for every error code.
\<close>

lemma u32_le_3: "u32_le 3 = [3, 0, 0, 0]"
  by code_simp

lemma error_answer_reading:
  "drain_frame reads (build_error_response clrid code @ rest) =
     Some (Inr (clrid, ERROR_PAYLOAD @ [3, 0, 0, 0] @ error_code_msg code), reads, rest)"
proof -
  have "build_error_response clrid code = reply_bytes clrid (ERROR_PAYLOAD @ [3, 0, 0, 0] @ error_code_msg code)"
    by (simp add: build_error_response_def reply_bytes_def SHARD_MAGIC_def Let_def u32_le_3 add.commute)
  then show ?thesis by (simp add: drain_reply ERROR_PAYLOAD_def)
qed

lemma error_answer_decoded:
  "process_response uuid_text ''GETPROPROOMDAY'' (ERROR_PAYLOAD @ [3, 0, 0, 0] @ error_code_msg code) =
     Some (Inl (RZ_System (''ERROR: '' @ of_bytes (from_utf8_lossy [3, 0, 0, 0]))))"
proof -
  consider "error_code_msg code = as_bytes ''404''" | "error_code_msg code = as_bytes ''503''"
    | "error_code_msg code = as_bytes ''408''" | "error_code_msg code = as_bytes ''500''"
    unfolding error_code_msg_def by metis
  then show ?thesis
  proof cases
    case 1
    show ?thesis unfolding 1 by code_simp
  next
    case 2
    show ?thesis unfolding 2 by code_simp
  next
    case 3
    show ?thesis unfolding 3 by code_simp
  next
    case 4
    show ?thesis unfolding 4 by code_simp
  qed
qed

end
