(* ===== verification/End_To_End.thy ===== *)
theory End_To_End
  imports Delivery Tcp_Server Client
begin

text \<open>
  A request from the client through the router and back: the bytes of the client of
  \<open>tests/common/command.rs\<close>, the session of \<open>src/tcp_server.rs\<close>, the forwarder, the connection
  to the hop, and the client's reading of the answer.
\<close>

text \<open>A buffer that holds exactly one request which the forwarder answers.\<close>

lemma serve_one_request:
  assumes dec: "decode_router (ss_buf s) = Inr (Some f)" and len: "rf_frame_len f = length (ss_buf s)"
    and size: "length (ss_buf s) \<le> cfg_max_frame_size config" "length (ss_buf s) \<le> cfg_max_buffer_size config"
    and seg: "rf_segment f \<noteq> KEEPALIVE_SEGMENT" and kind: "kind_peer config peer a"
    and fw: "forward site (pe_sched peer (ss_calls s)) fw (ss_buf s) (rf_segment f) (rf_clrid_offset f)
      (rf_original_clrid f) (rf_is_write f) (ss_world s) = Some (Inr response, call)"
  shows "\<exists>s'. serve site config peer fw s = Some (Wait_More, s') \<and> ss_out s' = ss_out s @ [response] \<and>
    ss_world s' = cl_world call"
proof -
  have w: "pe_write peer n" "pe_flush peer n" for n using kind by (simp_all add: kind_peer_def)
  have t: "pe_now peer n - pe_now peer m \<le> int (frame_timeout config)" for m n
    using kind [unfolded kind_peer_def, THEN spec, of n] kind [unfolded kind_peer_def, THEN spec, of m] by linarith
  obtain s1 where s1: "frame_turn site config peer fw s = Some (Go_On, s1)" "ss_buf s1 = []"
    "ss_last s1 = pe_now peer (ss_clock s)" "ss_out s1 = ss_out s @ [response]" "ss_world s1 = cl_world call"
    using dec len size seg fw w
    by (simp add: frame_turn_def run_simps split_to_def serve_frame_def write_client_def Let_def)
  have "decode_router [] = Inr None" by (simp add: decode_router_def)
  then have "frame_turn site config peer fw s1 = Some (Wait_More, s1\<lparr>ss_clock := Suc (ss_clock s1)\<rparr>)"
    using s1(2,3) t [of "ss_clock s1" "ss_clock s"]
    by (simp add: frame_turn_def run_simps Let_def not_less)
  with s1 show ?thesis
    by (simp add: serve.simps [of site config peer fw s] serve.simps [of site config peer fw s1])
qed

lemma end_to_end:
  assumes ok: "world_ok w"
    and seg: "segment \<noteq> GETSEGMENTS" "segment \<noteq> GETCODECS" "segment \<noteq> KEEPALIVE_SEGMENT"
      "length segment < 256" "utf8_valid (as_bytes segment)"
    and cfg: "config_check config = Inr config" and size: "16 + length segment + length payload \<le> cfg_max_frame_size config"
      "16 + length segment + length payload \<le> MAX_TOTAL_LEN"
    and kind: "kind_peer config peer now" and "0 < fw_max_retries fw"
    and c: "first_choice w segment clrid = Some c" and cid: "fst (next_corr_id (conn_at w c)) = cid"
    and acc: "accepts cid (conn_at w c)"
    and ev: "sc_events (pe_sched peer 0) 0 =
      before @ WE_Conn c (Ev_Read (reply_bytes cid answer @ trail)) # after"
    and before: "\<forall>e\<in>set before. undisturbed c cid e" and answer: "answer \<noteq> []" "length answer < 2 ^ 32"
  shows "\<exists>s. handle_connection site config peer fw
      [([], Read_Bytes (prepend_router_header segment is_write clrid payload))] (session_start now metrics_new w) = Some s \<and>
    ss_out s = [reply_bytes clrid answer] \<and>
    drain_frame reads (concat (ss_out s)) = Some (Inr (clrid, answer), reads, [])"
proof -
  let ?req = "prepend_router_header segment is_write clrid payload"
  let ?rest = "u32_le (word_of_nat (length payload)) @ payload"
  let ?f = "frame_of segment (if is_write then 1 else 0) clrid ?rest"
  have parts: "frame_parts_ok segment ?rest" using seg size(2) by (simp add: frame_parts_ok_def)
  have "11 + length segment + length payload < 2 ^ 32" using size(2) by (simp add: MAX_TOTAL_LEN_def)
  note g = prepend_router_header_grammar [OF seg(4) this, of is_write clrid]
  have dec: "decode_router ?req = Inr (Some ?f)"
    unfolding g using decode_frame_bytes [OF parts, of _ clrid "[]"] by simp
  have len: "length ?req = 16 + length segment + length payload"
    unfolding g by (simp add: length_frame_bytes)
  have ne: "?req \<noteq> []" using len by auto
  have "cfg_max_frame_size config \<le> cfg_max_buffer_size config"
    using cfg by (simp add: config_check_iff config_valid_def)
  note small = size(1) this
  have reply: "reply_ok cid (reply_bytes cid answer)" by (rule reply_ok_reply_bytes [OF answer(2)])
  from forward_delivers [OF ok seg(1,2) c cid acc _ \<open>0 < _\<close> ev before reply,
      of "8 + length segment" ?req site is_write] len
  obtain call where fwd: "forward site (pe_sched peer 0) fw ?req segment (8 + length segment) clrid is_write w =
      Some (Inr (with_clrid clrid (reply_bytes cid answer)), call)" by auto
  have swap: "with_clrid clrid (reply_bytes cid answer) = reply_bytes clrid answer"
    by (simp add: with_clrid_def reply_bytes_def)
  let ?m = "metrics_new\<lparr>mt_bytes_received := mt_bytes_received metrics_new + length ?req\<rparr>"
  let ?s = "(session_start now metrics_new w)\<lparr>ss_metrics := ?m, ss_buf := ?req\<rparr>"
  have "\<exists>s'. serve site config peer fw ?s = Some (Wait_More, s') \<and>
      ss_out s' = ss_out ?s @ [reply_bytes clrid answer] \<and> ss_world s' = cl_world call"
    by (rule serve_one_request [where f = ?f, OF _ _ _ _ _ kind])
       (use dec len small seg fwd swap in
         \<open>cases is_write; simp add: session_start_def frame_of_def\<close>)+
  then obtain s where s: "serve site config peer fw ?s = Some (Wait_More, s)"
    "ss_out s = [reply_bytes clrid answer]" by (auto simp: session_start_def)
  have "handle_connection site config peer fw [([], Read_Bytes ?req)] (session_start now metrics_new w) = Some s"
    using s(1) ne by (simp add: session_start_def)
  with s(2) drain_reply [OF answer, of reads clrid "[]"] show ?thesis by simp
qed

end
