(* ===== verification/Demo.thy ===== *)
theory Demo
  imports Running End_To_End
begin

text \<open>
  Small concrete instances of the model: a site, two hops with a connection each, a world with
  a routing table over them, a peer and requests. The root theory applies its properties to
  them. The numbers of the configuration are small so that terms evaluate in the kernel.
\<close>

section \<open>Configuration and site\<close>

definition demo_config :: config where
  "demo_config =
     \<lparr>cfg_mode = ModeEdge, cfg_listen_host = ''h'', cfg_tcp_port = 1, cfg_api_listening_addr = ''h'',
      cfg_api_port = 2, cfg_rzid_addr = ''r'', cfg_rzpoint_addr = ''p'', cfg_zone_id = None,
      cfg_router_id = None, cfg_max_connections = 2, cfg_conn_per_hop = 1, cfg_hop_tcp_port = 1,
      cfg_refresh_interval_secs = 0, cfg_heartbeat_interval_secs = 0, cfg_request_timeout_secs = 1,
      cfg_worker_threads = 1, cfg_app_keepalive_secs = 0, cfg_frame_timeout_secs = 1,
      cfg_idle_timeout_secs = 1, cfg_max_buffer_size = 60, cfg_max_frame_size = 40\<rparr>"

text \<open>Every address can be dialled, and RzPoint resolves every hop to the host \<open>h\<close>.\<close>

definition demo_io :: io where
  "demo_io = \<lparr>io_dial = (\<lambda>_ _. None), io_http = (\<lambda>_ _. Http_Response 200 ''200 OK'' (Inr ''h''))\<rparr>"

definition demo_site :: site where
  "demo_site = \<lparr>st_io = demo_io, st_config = demo_config,
     st_resolver = \<lparr>rs_base_url = ''http://p'', rs_mode = ModeEdge\<rparr>\<rparr>"

section \<open>Connections, hops and a world\<close>

definition demo_conn :: conn where
  "demo_conn = \<lparr>cn_id = 0, cn_addr = ''h:1'', cn_demux = demux_new 1, cn_corr_id = 1, cn_closed = False,
     cn_timeout = 1, cn_queue = [], cn_capacity = 4, cn_writer = True, cn_reader = True,
     cn_keepalive = False, cn_rbuf = [], cn_wire = [], cn_owner = [], cn_mail = []\<rparr>"

definition demo_hop :: "string \<Rightarrow> nat \<Rightarrow> hop" where
  "demo_hop i c = (hop_new i)\<lparr>hp_address := Some ''h'', hp_connections := [c]\<rparr>"

definition demo_arena :: arena where
  "demo_arena = \<lparr>ar_conns = (\<lambda>_. demo_conn), ar_next = 2, ar_dials = 2, ar_https = 2\<rparr>"

definition demo_net :: net where
  "demo_net = \<lparr>nt_map = [(''a'', 0), (''b'', 1)],
     nt_hops = (\<lambda>h. if h = 0 then demo_hop ''a'' 0 else demo_hop ''b'' 1), nt_next = 2,
     nt_arena = demo_arena, nt_shutdowns = [], nt_resolves = [], nt_tasks = (\<lambda>_. M_Idle), nt_released = []\<rparr>"

definition demo_edge :: edge_state where
  "demo_edge = \<lparr>segment_to_zone = [(''s'', ''z'')], zone_to_routers = [(''z'', [''a'', ''b''])]\<rparr>"

definition demo_world :: world where
  "demo_world = \<lparr>wd_routing = Edge demo_edge, wd_net = demo_net\<rparr>"

lemma demo_conn_ok: "conn_ok demo_conn"
  by (simp add: conn_ok_def demo_conn_def demux_ok_def dx.waiting_def demux_entry_of_def demux_new_def)

lemma demo_conn_open: "\<not> is_closed demo_conn"
  by (simp add: is_closed_def demo_conn_def)

lemma demo_arena_ok: "arena_ok demo_arena"
  by (simp add: arena_ok_def demo_arena_def demo_conn_ok)

lemma demo_hop_ok: "c < ar_next a \<Longrightarrow> hop_ok a (demo_hop i c)"
  by (simp add: hop_ok_def demo_hop_def hop_new_def)

lemma demo_net_ok: "net_ok demo_net"
  by (rule net_okI)
     (auto simp: demo_net_def demo_arena_ok [unfolded demo_arena_def] hm_ok_def demo_hop_def hop_new_def demo_arena_def owned_def held_def
       split: if_splits)

lemma demo_world_ok: "world_ok demo_world"
  by (simp add: world_ok_def demo_world_def demo_net_ok)

lemma demo_routed: "routed demo_world"
  by (simp add: routed_def demo_world_ok)
     (simp add: demo_world_def demo_edge_def edge_ok_def hm_ok_def hm_values_def demo_net_def
       get_all_ids_def hm_keys_def)

section \<open>Requests\<close>

text \<open>A request for segment \<open>s\<close> as it stands in the buffer, and the reply of a hop.\<close>

definition demo_frame :: "byte list" where
  "demo_frame = frame_bytes ''s'' 1 9 [0, 0, 0, 0]"

definition demo_reply :: "u32 \<Rightarrow> byte list" where
  "demo_reply i = reply_bytes i [42]"

text \<open>
  The connection a first send takes (that of the second hop) is lost after the frame is written;
  the other one answers.
\<close>

definition demo_sched :: schedule where
  "demo_sched = \<lparr>sc_events = (\<lambda>i. if i = 0 then [WE_Conn 1 (Ev_Writer True True), WE_Conn 1 Ev_Eof]
      else [WE_Conn 0 (Ev_Writer True True), WE_Conn 0 (Ev_Read (demo_reply 1))]), sc_now = (\<lambda>_. 0)\<rparr>"

lemma demo_segment: "''s'' \<noteq> GETSEGMENTS" "''s'' \<noteq> GETCODECS"
  by (simp_all add: GETSEGMENTS_def GETCODECS_def)

text \<open>A schedule in which nothing happens.\<close>

definition quiet_sched :: schedule where
  "quiet_sched = \<lparr>sc_events = (\<lambda>_. []), sc_now = (\<lambda>_. 0)\<rparr>"

text \<open>A peer whose socket works and whose clock stands still.\<close>

definition demo_peer :: peer where
  "demo_peer = \<lparr>pe_now = (\<lambda>_. 0), pe_sched = (\<lambda>_. quiet_sched), pe_write = (\<lambda>_. True), pe_flush = (\<lambda>_. True)\<rparr>"

lemma demo_kind_peer: "kind_peer demo_config demo_peer 0"
  by (simp add: kind_peer_def demo_peer_def frame_timeout_def demo_config_def)

text \<open>The same peer, while the connection of the second hop writes a frame and reads its reply.\<close>

definition answer_sched :: schedule where
  "answer_sched = \<lparr>sc_events = (\<lambda>_. [WE_Conn 1 (Ev_Writer True True), WE_Conn 1 (Ev_Read (demo_reply 1))]),
     sc_now = (\<lambda>_. 0)\<rparr>"

definition answering_peer :: peer where
  "answering_peer = demo_peer\<lparr>pe_sched := (\<lambda>_. answer_sched)\<rparr>"

lemma answering_kind_peer: "kind_peer demo_config answering_peer 0"
  using demo_kind_peer by (simp add: kind_peer_def answering_peer_def)

lemma demo_conn_at [simp]: "conn_at demo_world c = demo_conn"
  by (simp add: conn_at_def demo_world_def demo_net_def demo_arena_def)

lemma demo_accepts: "accepts 1 demo_conn" and demo_next_id: "fst (next_corr_id demo_conn) = 1"
  by (simp_all add: accepts_def demo_conn_def next_corr_id_cases dx.waiting_def demux_entry_of_def demux_new_def)

lemma demo_first_choice: "first_choice demo_world ''s'' 9 = Some 1"
  by code_simp

text \<open>The parts of the request, and a stream that has it after some garbage.\<close>

definition demo_parts :: frame_parts where
  "demo_parts = (''s'', 1, 9, [0, 0, 0, 0])"

lemma demo_parts_ok: "parts_ok demo_parts"
proof -
  have "utf8_valid (as_bytes ''s'')"
    by (rule utf8_valid_ascii) (simp add: as_bytes_def byte_of_char_def)
  then show ?thesis by (simp add: parts_ok_def demo_parts_def frame_parts_ok_def MAX_TOTAL_LEN_def)
qed

lemma demo_frame_parts: "demo_frame = parts_bytes demo_parts"
  by (simp add: demo_frame_def parts_bytes_def demo_parts_def)

lemma length_demo_frame: "length demo_frame = 17"
  by (simp add: demo_frame_def length_frame_bytes)

lemma demo_frame_fits: "fits (cfg_max_buffer_size demo_config) [] [[1, 2], demo_frame]"
  by (rule fits_whole) (simp add: demo_config_def length_demo_frame)

section \<open>An RzID service\<close>

text \<open>One zone with two routers and one segment; every resource has version 1.\<close>

definition demo_manifest :: version_manifest where
  "demo_manifest = \<lparr>vm_global_version = 1,
     vm_versions = [(''zones/z/routers'', 1), (''zones/z/segments'', 1)]\<rparr>"

definition demo_rzid :: rzid_server where
  "demo_rzid =
     \<lparr>rz_versions = (\<lambda>_ _. Fetched demo_manifest),
      rz_routers = (\<lambda>_ _. Fetched \<lparr>zr_version = 1, zr_routers = [''a'', ''b'']\<rparr>),
      rz_segments = (\<lambda>_ _. Fetched \<lparr>zs_version = 1, zs_segments = [''s'']\<rparr>),
      rz_shards = (\<lambda>_ _. Send_Failed ''down''),
      rz_shard_segments = (\<lambda>_ _. Send_Failed ''down''),
      rz_codecs = (\<lambda>_ _. Fetched \<lparr>co_rate_features = [''x'', ''y''], co_hash = 0\<rparr>),
      rz_register = (\<lambda>_ _ _. Post_Reply 200 ''200 OK'' None)\<rparr>"

definition demo_client :: rzid_client where
  "demo_client = \<lparr>rc_base_url = ''http://r'', rc_mode = ModeEdge, rc_router_id = '''', rc_zone_id = '''',
     rc_local_versions = [], rc_requests = 0\<rparr>"

lemma demo_start: "\<exists>ap. async_main_start demo_io demo_rzid None None None demo_config = Inr ap"
  by (simp add: async_main_start_def resolver_new_def rzid_new_def fetch_codecs_def http_get_def
      demo_rzid_def demo_config_def Let_def)

lemma demo_base: "http_base ''p'' = ''http://p''"
  by code_simp

lemma demo_reach:
  assumes "async_main_start demo_io srv None None None demo_config = Inr ap"
  shows "app_reach srv demo_site (ap_client ap, ap_world ap, [])"
proof (rule app_reach.init [OF assms])
  show "ap_site ap = demo_site"
    using assms by (auto simp: async_main_start_def bind_res_eq_Inr Let_def rzid_new_def fetch_codecs_def
        http_get_def resolver_new_def demo_site_def demo_config_def demo_base split: option.splits prod.splits if_splits)
qed

text \<open>A router that has started and refreshed its routing table once.\<close>

lemma demo_refreshed:
  "\<exists>ap c w. async_main_start demo_io demo_rzid None None None demo_config = Inr ap \<and>
     refresh_tick demo_rzid id (ap_client ap, ap_world ap) = Some (c, w) \<and> app_reach demo_rzid demo_site (c, w, [])"
proof -
  obtain ap where ap: "async_main_start demo_io demo_rzid None None None demo_config = Inr ap"
    using demo_start by blast
  note reach = demo_reach [OF ap]
  from app_reach_refresh [OF reach app_ok_routed [OF app_reach_ok [OF reach]], of id] ap show ?thesis by metis
qed

text \<open>What the refresh of that router does, and its first connection, opened by three steps of a maintenance task.\<close>

lemma demo_changes: "rc_mode c = ModeEdge \<Longrightarrow> rc_local_versions c = [] \<Longrightarrow>
    detect_changes c demo_manifest = [''zones/z/routers'', ''zones/z/segments'']"
  by (simp add: detect_changes_def relevant_key_def demo_manifest_def ends_with_def)

lemma demo_sync:
  assumes "rc_mode c = ModeEdge" and "rc_local_versions c = []" and "create_hops [''a'', ''b''] n = Some n1"
  shows "\<exists>c' new. sync_routing_state demo_rzid id (Some (Edge edge_new)) c n =
    Some (Inr (Some new), c', retire_unused (get_all_hop_ids new) n1)"
proof -
  have "valid_zones demo_manifest = [''z'']" by code_simp
  with assms show ?thesis
    by (simp add: sync_routing_state_def fetch_version_manifest_def http_get_def demo_changes Let_def
        demo_rzid_def sync_edge_state_def sync_zone_routers_def routers_key_def sync_zone_segments_def
        segments_key_def fetch_zone_routers_def fetch_zone_segments_def retain_valid_zones_def edge_new_def
        set_zone_routers_def replace_zone_segments_def edge_is_empty_def edge_prune_segments_def hm_insert_def
        hm_keys_def update_local_version_def del: create_hops.simps)
qed

lemma demo_resolve: "\<exists>a'. hop_resolve demo_io rs h a = (Inr ''h'', a') \<and> ar_next a' = ar_next a"
proof -
  have "trim ''h'' = ''h''" by code_simp
  then show ?thesis
    by (auto simp: hop_resolve_def resolve_def numeral_3_eq_3 demo_io_def Let_def is_success_def split: prod.split)
qed

lemma demo_open: "\<exists>a'. open_conn demo_io demo_config addr i a = (Inr (ar_next a), a') \<and> ar_next a' = Suc (ar_next a)"
  by (simp add: open_conn_cases dial_ok_def demo_io_def)

lemma demo_maint_opens:
  assumes "h < nt_next (wd_net w)" and "nt_hops (wd_net w) h = hop_new i" and "nt_tasks (wd_net w) h = M_Idle"
  shows "\<exists>w'. world_run demo_site [WE_Maint h False, WE_Maint h False, WE_Maint h False] w = Some w' \<and>
    conn_exists w' (ar_next (nt_arena (wd_net w)))"
proof -
  let ?rs = "st_resolver demo_site" and ?h = "(hop_new i)\<lparr>hp_address := Some ''h''\<rparr>"
  have site: "st_io demo_site = demo_io" "st_config demo_site = demo_config" by (simp_all add: demo_site_def)
  have m1: "maint_step demo_io demo_config ?rs False M_Idle (hop_new i) a = (M_Resolve [] 0, hop_new i, a, [])" for a
    by (simp add: begin_tick_def hop_new_def demo_config_def live_count_def)
  obtain a1 where r: "hop_resolve demo_io ?rs (hop_new i) (nt_arena (wd_net w)) = (Inr ''h'', a1)"
    "ar_next a1 = ar_next (nt_arena (wd_net w))" using demo_resolve by blast
  have m2: "maint_step demo_io demo_config ?rs False (M_Resolve [] 0) (hop_new i) (nt_arena (wd_net w)) =
      (M_Dial ''h'' 1 1 0 [], ?h, a1, [])"
    using r by (simp add: begin_dial_def demo_config_def)
  obtain a2 where o: "open_conn demo_io demo_config ''h'' 0 a1 = (Inr (ar_next a1), a2)" "ar_next a2 = Suc (ar_next a1)"
    using demo_open by blast
  obtain pc h2 rel where m3: "maint_step demo_io demo_config ?rs False (M_Dial ''h'' 1 1 0 []) ?h a1 = (pc, h2, a2, rel)"
    using o by (auto simp: next_dial_def replace_connections_def)
  show ?thesis
    using assms m1 m2 m3 o(2) r(2)
    by (simp add: on_net_def net_maint_def site conn_exists_def del: maint_step.simps One_nat_def)
qed

lemma demo_connected: "\<exists>c w. app_reach demo_rzid demo_site (c, w, []) \<and> conn_exists w 0"
proof -
  obtain ap where ap: "async_main_start demo_io demo_rzid None None None demo_config = Inr ap"
    using demo_start by blast
  note reach = demo_reach [OF ap] and S = async_main_start_Inr [OF ap]
  have w0: "wd_routing (ap_world ap) = Edge edge_new" "wd_net (ap_world ap) = net_new"
    and c0: "rc_mode (ap_client ap) = ModeEdge" "rc_local_versions (ap_client ap) = []"
    using S by (simp_all add: demo_config_def initial_snapshot_def)
  obtain n1 where n1: "create_hops [''a'', ''b''] net_new = Some n1" "nt_hops n1 0 = hop_new ''a''"
    "nt_tasks n1 0 = M_Idle" "nt_next n1 = 2" "ar_next (nt_arena n1) = 0"
    by (simp add: get_or_create_cases net_new_def hm_get_insert)
  have "net_ok n1" using create_hops_ok [OF net_ok_new, of "[''a'', ''b'']"] n1(1) by simp
  note R = retire_unused_spec [OF this]
  from app_reach_refresh [OF reach app_ok_routed [OF app_reach_ok [OF reach]], of id] obtain c1 w1 where
    r: "refresh_tick demo_rzid id (ap_client ap, ap_world ap) = Some (c1, w1)" "app_reach demo_rzid demo_site (c1, w1, [])"
    by blast
  from demo_sync [OF c0 n1(1)] r(1) obtain act where w1: "wd_net w1 = retire_unused act n1"
    by (auto simp: refresh_tick_def w0)
  have "\<exists>w2. world_run demo_site [WE_Maint 0 False, WE_Maint 0 False, WE_Maint 0 False] w1 = Some w2 \<and>
      conn_exists w2 (ar_next (nt_arena (wd_net w1)))"
    by (rule demo_maint_opens [where i = "''a''"]) (simp_all add: w1 R n1)
  then obtain w2 where w2: "world_run demo_site [WE_Maint 0 False, WE_Maint 0 False, WE_Maint 0 False] w1 = Some w2"
    "conn_exists w2 0" by (auto simp: w1 R n1)
  have "\<forall>e\<in>set [WE_Maint 0 False, WE_Maint 0 False, WE_Maint 0 False]. \<not> sync_event e" by (simp add: sync_event_def)
  from app_reach_tasks [OF r(2) this w2(1)] w2(2) show ?thesis by blast
qed

text \<open>The same service, with the request for the routers failing at the first refresh.\<close>

definition flaky_rzid :: rzid_server where
  "flaky_rzid = demo_rzid\<lparr>rz_routers := (\<lambda>n _. if n < 3 then Send_Failed ''down''
     else Fetched \<lparr>zr_version = 1, zr_routers = [''a'', ''b'']\<rparr>)\<rparr>"

text \<open>A service that has moved the zone to one of its two routers, and a client that does not know yet.\<close>

definition moved_manifest :: version_manifest where
  "moved_manifest = \<lparr>vm_global_version = 2,
     vm_versions = [(''zones/z/routers'', 2), (''zones/z/segments'', 1)]\<rparr>"

definition moved_rzid :: rzid_server where
  "moved_rzid = demo_rzid\<lparr>rz_versions := (\<lambda>_ _. Fetched moved_manifest),
     rz_routers := (\<lambda>_ _. Fetched \<lparr>zr_version = 2, zr_routers = [''b'']\<rparr>)\<rparr>"

definition settled_client :: rzid_client where
  "settled_client = demo_client\<lparr>rc_local_versions := [(''zones/z/routers'', 1), (''zones/z/segments'', 1)]\<rparr>"

definition moved_edge :: edge_state where
  "moved_edge = \<lparr>segment_to_zone = [(''s'', ''z'')], zone_to_routers = [(''z'', [''b''])]\<rparr>"

lemma moved_refresh:
  "\<exists>c. refresh_events moved_rzid id (settled_client, demo_world) = Some (c, [WE_Retire [''b''], WE_Install (Edge moved_edge)])"
proof -
  have "map_option snd (refresh_events moved_rzid id (settled_client, demo_world)) =
      Some [WE_Retire [''b''], WE_Install (Edge moved_edge)]" by code_simp
  then show ?thesis by auto
qed

text \<open>A world with the hops and no routes yet, and the client of a zone router.\<close>

definition empty_world :: world where
  "empty_world = \<lparr>wd_routing = Edge edge_new, wd_net = demo_net\<rparr>"

definition zone_client :: rzid_client where
  "zone_client = \<lparr>rc_base_url = ''http://r'', rc_mode = ModeZone, rc_router_id = ''q'', rc_zone_id = ''z'',
     rc_local_versions = [], rc_requests = 0\<rparr>"

text \<open>The demonstration service answers with the versions of its manifest.\<close>

lemma demo_manifest_versions: "hm_get (vm_versions demo_manifest) k = Some v \<Longrightarrow> v = 1"
  by (auto simp: demo_manifest_def split: if_splits)

lemma demo_honest: "honest demo_rzid base demo_manifest"
  by (auto simp: honest_def demo_rzid_def dest: demo_manifest_versions)

lemma demo_tidy: "tidy demo_client demo_manifest"
proof -
  have "\<exists>z. CHR ''/'' \<notin> set z \<and> (key = routers_key z \<or> key = segments_key z)"
    if "hm_has (vm_versions demo_manifest) key" for key
    using that by (intro exI [of _ "''z''"])
      (auto simp: demo_manifest_def routers_key_def segments_key_def split: if_splits)
  then show ?thesis by (auto simp: tidy_def demo_manifest_def hm_ok_def)
qed

end
