(* ===== verification/Api.thy ===== *)
theory Api
  imports Config Metrics
begin

text \<open>
  The HTTP API of \<open>src/api.rs\<close>: its two routes, and \<open>run_api_server\<close> with the parsing of its
  listen address. \<open>SocketAddr::from_str\<close> is that of the Rust standard library. Serving the routes
  is the \<open>axum\<close> crate's; its result is a parameter, as is the text of the Prometheus recorder.
\<close>

section \<open>Socket addresses\<close>

datatype socket_addr =
    SocketV4 "byte list" u16
  | SocketV6 "u16 list" u32 u16

type_synonym 'a parser = "string \<Rightarrow> ('a \<times> string) option"

definition digit_of :: "nat \<Rightarrow> char \<Rightarrow> nat option" where
  "digit_of radix c =
     (let n = of_char c :: nat;
          d = (if 48 \<le> n \<and> n < 58 then n - 48
               else if 97 \<le> n \<and> n < 123 then n - 87
               else if 65 \<le> n \<and> n < 91 then n - 55 else radix)
      in if d < radix then Some d else None)"

fun take_digits :: "nat \<Rightarrow> string \<Rightarrow> nat list \<times> string" where
  "take_digits radix [] = ([], [])"
| "take_digits radix (c # s) =
     (case digit_of radix c of
        None \<Rightarrow> ([], c # s)
      | Some d \<Rightarrow> (case take_digits radix s of (ds, rest) \<Rightarrow> (d # ds, rest)))"

definition number_of :: "nat \<Rightarrow> nat list \<Rightarrow> nat" where
  "number_of radix ds = foldl (\<lambda>n d. n * radix + d) 0 ds"

text \<open>A number below \<open>bound\<close>, the values of its type.\<close>

definition read_number :: "nat \<Rightarrow> nat option \<Rightarrow> bool \<Rightarrow> nat \<Rightarrow> nat parser" where
  "read_number radix max_digits allow_zero_prefix bound s =
     (let (ds, rest) = take_digits radix s; n = number_of radix ds in
      if ds = [] \<or> (case max_digits of Some m \<Rightarrow> m < length ds | None \<Rightarrow> False) \<or>
         \<not> allow_zero_prefix \<and> hd ds = 0 \<and> 1 < length ds \<or> bound \<le> n
      then None else Some (n, rest))"

fun read_given :: "char \<Rightarrow> string \<Rightarrow> string option" where
  "read_given c [] = None"
| "read_given c (x # s) = (if x = c then Some s else None)"

definition read_ipv4 :: "nat list parser" where
  "read_ipv4 s = (let octet = read_number 10 (Some 3) False 256 in do {
     (a, s) \<leftarrow> octet s;
     s \<leftarrow> read_given (CHR ''.'') s;
     (b, s) \<leftarrow> octet s;
     s \<leftarrow> read_given (CHR ''.'') s;
     (c, s) \<leftarrow> octet s;
     s \<leftarrow> read_given (CHR ''.'') s;
     (d, s) \<leftarrow> octet s;
     Some ([a, b, c, d], s)
   })"

definition read_separated :: "nat \<Rightarrow> 'a parser \<Rightarrow> 'a parser" where
  "read_separated i inner s = (if i = 0 then inner s else do { s \<leftarrow> read_given (CHR '':'') s; inner s })"

text \<open>Groups of an IPv6 address, from the \<open>i\<close>-th with so many left; the last two may be an IPv4 address.\<close>

fun read_groups :: "nat \<Rightarrow> nat \<Rightarrow> string \<Rightarrow> nat list \<times> bool \<times> string" where
  "read_groups i 0 s = ([], False, s)"
| "read_groups i (Suc left) s =
     (case (if left = 0 then None else read_separated i read_ipv4 s) of
        Some (v4, s) \<Rightarrow> ([v4 ! 0 * 256 + v4 ! 1, v4 ! 2 * 256 + v4 ! 3], True, s)
      | None \<Rightarrow>
          (case read_separated i (read_number 16 (Some 4) True 65536) s of
             None \<Rightarrow> ([], False, s)
           | Some (g, s) \<Rightarrow> (case read_groups (Suc i) left s of (gs, v4, s) \<Rightarrow> (g # gs, v4, s))))"

definition read_ipv6 :: "nat list parser" where
  "read_ipv6 s =
     (case read_groups 0 8 s of (head, v4, s) \<Rightarrow>
        if length head = 8 then Some (head, s)
        else if v4 then None
        else do {
          s \<leftarrow> read_given (CHR '':'') s;
          s \<leftarrow> read_given (CHR '':'') s;
          case read_groups 0 (8 - (length head + 1)) s of (tail, _, s) \<Rightarrow>
            Some (head @ replicate (8 - (length head + length tail)) 0 @ tail, s)
        })"

definition read_port :: "nat parser" where
  "read_port s = do { s \<leftarrow> read_given (CHR '':'') s; read_number 10 None True 65536 s }"

definition read_scope :: "string \<Rightarrow> nat \<times> string" where
  "read_scope s =
     (case do { s' \<leftarrow> read_given (CHR ''%'') s; read_number 10 None True 4294967296 s' } of
        Some r \<Rightarrow> r
      | None \<Rightarrow> (0, s))"

definition read_socket_v4 :: "socket_addr parser" where
  "read_socket_v4 s = do {
     (ip, s) \<leftarrow> read_ipv4 s;
     (port, s) \<leftarrow> read_port s;
     Some (SocketV4 (map word_of_nat ip) (word_of_nat port), s)
   }"

definition read_socket_v6 :: "socket_addr parser" where
  "read_socket_v6 s = do {
     s \<leftarrow> read_given (CHR ''['') s;
     (ip, s) \<leftarrow> read_ipv6 s;
     let (scope, s) = read_scope s;
     s \<leftarrow> read_given (CHR '']'') s;
     (port, s) \<leftarrow> read_port s;
     Some (SocketV6 (map word_of_nat ip) (word_of_nat scope) (word_of_nat port), s)
   }"

definition parse_socket_addr :: "string \<Rightarrow> string + socket_addr" where
  "parse_socket_addr s =
     (case (case read_socket_v4 s of None \<Rightarrow> read_socket_v6 s | r \<Rightarrow> r) of
        Some (addr, []) \<Rightarrow> Inr addr
      | _ \<Rightarrow> Inl ''invalid socket address syntax'')"

section \<open>The server\<close>

text \<open>
  The routes with the status and the body a \<open>GET\<close> answers, from the counters at that moment;
  \<open>render\<close> is the recorder's.
\<close>

type_synonym api = "router_metrics \<Rightarrow> (string \<times> nat \<times> string) list"

definition api_routes :: "(router_metrics \<Rightarrow> string) \<Rightarrow> api" where
  "api_routes render metrics = [(''/health'', 200, ''OK''), (''/metrics'', 200, render metrics)]"

text \<open>
  \<open>run_api_server\<close>; \<open>served\<close> gives the result of binding an address and serving the routes there
  until the shutdown.
\<close>

definition run_api_server ::
  "(router_metrics \<Rightarrow> string) \<Rightarrow> (api \<Rightarrow> socket_addr \<Rightarrow> string + unit) \<Rightarrow> string \<Rightarrow> rz_error + unit" where
  "run_api_server render served address =
     (let app = api_routes render in
      bind_res (map_err (\<lambda>e. RZ_Config (''invalid api listen addr: '' @ e)) (parse_socket_addr address))
        (\<lambda>addr. map_err (\<lambda>e. RZ_System (''api server error: '' @ e)) (served app addr)))"

section \<open>Which addresses are accepted\<close>

lemma digit_of_dec: "d < 10 \<Longrightarrow> digit_of 10 (char_of (48 + d)) = Some d"
  by (simp add: digit_of_def)

text \<open>The digits of a number, and reading them back.\<close>

fun digits :: "nat \<Rightarrow> nat list" where
  "digits n = (if n < 10 then [n] else digits (n div 10) @ [n mod 10])"

declare digits.simps [simp del]

lemma digits_less: "d \<in> set (digits n) \<Longrightarrow> d < 10"
proof (induction n rule: digits.induct)
  case (1 n)
  then show ?case by (cases "n < 10") (auto simp: digits.simps [of n])
qed

lemma dec_is_digits: "dec n = map (\<lambda>d. char_of (48 + d)) (digits n)"
  by (induction n rule: digits.induct) (simp add: dec.simps [of n for n] digits.simps [of n for n])

lemma number_of_digits: "number_of 10 (digits n) = n"
  by (induction n rule: digits.induct) (subst digits.simps, simp add: number_of_def)

lemma digits_zero: "hd (digits n) = 0 \<Longrightarrow> digits n = [0]"
proof (induction n rule: digits.induct)
  case (1 n)
  show ?case
  proof (cases "n < 10")
    case False
    then have n: "digits n = digits (n div 10) @ [n mod 10]" by (subst digits.simps) simp
    moreover have "digits (n div 10) \<noteq> []" by (subst digits.simps) simp
    ultimately have "digits (n div 10) = [0]" using 1 False by simp
    then have "n div 10 = 0" using number_of_digits [of "n div 10"] by (simp add: number_of_def)
    with False show ?thesis by simp
  next
    case True
    then have "digits n = [n]" by (simp add: digits.simps [of n])
    with 1 show ?thesis by simp
  qed
qed

lemma digits_nonempty [simp]: "digits n \<noteq> []"
  by (subst digits.simps) simp

definition no_digit :: "string \<Rightarrow> bool" where
  "no_digit s \<longleftrightarrow> s = [] \<or> digit_of 10 (hd s) = None"

lemma take_digits_dec:
  "\<forall>d\<in>set ds. d < 10 \<Longrightarrow> no_digit s \<Longrightarrow> take_digits 10 (map (\<lambda>d. char_of (48 + d)) ds @ s) = (ds, s)"
proof (induction ds)
  case Nil
  then show ?case by (cases s) (auto simp: no_digit_def)
qed (simp add: digit_of_dec)

lemma read_number_dec:
  assumes "no_digit s" and "n < bound" and "\<And>m. max_digits = Some m \<Longrightarrow> length (digits n) \<le> m"
  shows "read_number 10 max_digits zero_prefix bound (dec n @ s) = Some (n, s)"
proof -
  have "take_digits 10 (dec n @ s) = (digits n, s)"
    using take_digits_dec [OF _ assms(1)] digits_less by (simp add: dec_is_digits)
  moreover have "\<not> (hd (digits n) = 0 \<and> 1 < length (digits n))" using digits_zero [of n] by auto
  ultimately show ?thesis
    using assms(2,3) by (auto simp: read_number_def number_of_digits split: option.splits)
qed

lemma digits_octet: "n < 256 \<Longrightarrow> length (digits n) \<le> 3"
proof -
  assume "n < 256"
  then have "n div 10 div 10 < 10" by (simp add: div_mult2_eq [symmetric])
  then show ?thesis
    by (subst digits.simps, subst digits.simps, subst digits.simps) simp
qed

lemma read_octet: "no_digit s \<Longrightarrow> read_number 10 (Some 3) False 256 (dec (unat (b :: byte)) @ s) = Some (unat b, s)"
  using unsigned_less [of b] digits_octet [of "unat b"] by (intro read_number_dec) auto

lemma no_digit_simps [simp]: "no_digit []" "no_digit (CHR ''.'' # s)" "no_digit (CHR '':'' # s)"
  by (simp_all add: no_digit_def digit_of_def)

lemma read_port_dec: "read_port (CHR '':'' # dec (unat (port :: u16))) = Some (unat port, [])"
  using read_number_dec [of "[]" "unat port" 65536 None True] unsigned_less [of port] by (simp add: read_port_def)

fun dotted :: "byte \<Rightarrow> byte \<Rightarrow> byte \<Rightarrow> byte \<Rightarrow> string" where
  "dotted a b c d = dec (unat a) @ ''.'' @ dec (unat b) @ ''.'' @ dec (unat c) @ ''.'' @ dec (unat d)"

lemma parse_dotted: "parse_socket_addr (host_port (dotted a b c d) port) = Inr (SocketV4 [a, b, c, d] port)"
  by (simp add: parse_socket_addr_def host_port_def read_socket_v4_def read_ipv4_def read_octet read_port_dec)

text \<open>A host that starts with neither a digit nor a bracket, as a name does, is not accepted.\<close>

lemma parse_name:
  assumes "host \<noteq> []" and "digit_of 10 (hd host) = None" and "hd host \<noteq> CHR ''[''"
  shows "parse_socket_addr (host_port host port) = Inl ''invalid socket address syntax''"
proof -
  obtain c s where host: "host = c # s" using assms(1) by (cases host) auto
  have "read_number 10 (Some 3) False 256 (c # t) = None" for t
    using assms(2) host by (simp add: read_number_def)
  then show ?thesis
    using assms(3) host
    by (simp add: parse_socket_addr_def host_port_def read_socket_v4_def read_ipv4_def read_socket_v6_def)
qed

end
