(* ===== verification/Process.thy ===== *)
theory Process
  imports Async_Main Api
begin

text \<open>
  The process: \<open>src/main.rs\<close>, and \<open>async_main\<close> of \<open>src/lib.rs\<close> as a whole. Two things exist
  once per process, the tracing subscriber and the recorder of the \<open>metrics\<close> crate; the latter
  can be installed once. The runtime of tokio is a parameter: the error of building it, and its
  documented panic for zero worker threads.
\<close>

section \<open>What exists once\<close>

datatype log_level = Level_Debug | Level_Info

record process =
  pr_log_level :: "log_level option"
  pr_recorder :: bool

definition process_new :: process where
  "process_new = \<lparr>pr_log_level = None, pr_recorder = False\<rparr>"

text \<open>\<open>INIT.call_once\<close>: the first level stays.\<close>

definition init_logging :: "log_level \<Rightarrow> process \<Rightarrow> process" where
  "init_logging level p = (case pr_log_level p of None \<Rightarrow> p\<lparr>pr_log_level := Some level\<rparr> | Some _ \<Rightarrow> p)"

text \<open>\<open>Metrics::new\<close>: installing a second recorder fails, and \<open>expect\<close> panics.\<close>

definition install_metrics :: "process \<Rightarrow> (router_metrics \<times> process) run" where
  "install_metrics p = (if pr_recorder p then None else Some (metrics_new, p\<lparr>pr_recorder := True\<rparr>))"

section \<open>\<open>async_main\<close>\<close>

text \<open>The errors of the start, from outside; the result of the TCP server, \<open>None\<close> if it is cancelled.\<close>

record start_errors =
  se_point :: "string option"
  se_id :: "string option"
  se_bind :: "string option"

definition async_main ::
  "io \<Rightarrow> rzid_server \<Rightarrow> start_errors \<Rightarrow> (app \<Rightarrow> (string + unit) option) \<Rightarrow> config \<Rightarrow> process \<Rightarrow>
   ((rz_error + unit) \<times> process) run" where
  "async_main io srv errors served config p =
     (let p = init_logging Level_Info p in
      case async_main_start io srv (se_point errors) (se_id errors) (se_bind errors) config of
        Inl e \<Rightarrow> Some (Inl e, p)
      | Inr ap \<Rightarrow> do {
          (metrics, p) \<leftarrow> install_metrics p;
          Some (async_main_end (served (ap\<lparr>ap_server := server_new metrics\<rparr>)), p)
        })"

text \<open>The task that runs the API; it logs its error, if it ends with one.\<close>

definition api_task ::
  "(router_metrics \<Rightarrow> string) \<Rightarrow> (api \<Rightarrow> socket_addr \<Rightarrow> string + unit) \<Rightarrow> config \<Rightarrow> string option" where
  "api_task render served config =
     (case run_api_server render served (api_listen_addr config) of
        Inl e \<Rightarrow> Some (''API server failed: '' @ rz_error_display e)
      | Inr _ \<Rightarrow> None)"

section \<open>\<open>main\<close>\<close>

definition build_runtime :: "string option \<Rightarrow> nat \<Rightarrow> (rz_error + unit) run" where
  "build_runtime build_error desired_workers =
     (if desired_workers = 0 then None
      else Some (map_err (\<lambda>e. RZ_System (''Failed to build runtime: '' @ e))
        (case build_error of Some e \<Rightarrow> Inl e | None \<Rightarrow> Inr ())))"

text \<open>\<open>main\<close> from what clap has parsed.\<close>

definition router_main ::
  "io \<Rightarrow> rzid_server \<Rightarrow> string option \<Rightarrow> start_errors \<Rightarrow> (app \<Rightarrow> (string + unit) option) \<Rightarrow> config \<Rightarrow>
   (rz_error + unit) run" where
  "router_main io srv build_error errors served parsed =
     (case config_check parsed of
        Inl e \<Rightarrow> Some (Inl e)
      | Inr config \<Rightarrow> do {
          rt \<leftarrow> build_runtime build_error (cfg_worker_threads config);
          case rt of
            Inl e \<Rightarrow> Some (Inl e)
          | Inr _ \<Rightarrow> do { (r, _) \<leftarrow> async_main io srv errors served config process_new; Some r }
        })"

section \<open>Outcomes\<close>

text \<open>
  The first \<open>async_main\<close> of a process does not panic, and the process keeps the recorder exactly
  if the start succeeded.
\<close>

lemma async_main_first:
  assumes "\<not> pr_recorder p"
  shows "\<exists>r p'. async_main io srv errors served config p = Some (r, p') \<and>
    (pr_recorder p' \<longleftrightarrow> (\<exists>ap. async_main_start io srv (se_point errors) (se_id errors) (se_bind errors) config = Inr ap))"
  using assms
  by (auto simp: async_main_def init_logging_def install_metrics_def Let_def split: sum.splits option.splits)

lemma async_main_again:
  assumes "pr_recorder p"
    and "async_main_start io srv (se_point errors) (se_id errors) (se_bind errors) config = Inr ap"
  shows "async_main io srv errors served config p = None"
  using assms by (simp add: async_main_def init_logging_def install_metrics_def Let_def split: option.splits)

text \<open>\<open>main\<close> panics exactly if the configuration is accepted with no worker threads.\<close>

lemma router_main_panics:
  "router_main io srv build_error errors served parsed = None \<longleftrightarrow>
     config_valid parsed \<and> cfg_worker_threads parsed = 0"
proof (cases "config_check parsed")
  case (Inl e)
  then have "\<not> config_valid parsed" using config_check_iff [of parsed parsed] by auto
  with Inl show ?thesis by (simp add: router_main_def)
next
  case (Inr c)
  then have c: "c = parsed" "config_valid parsed" by (simp_all add: config_check_iff)
  obtain r p where "async_main io srv errors served parsed process_new = Some (r, p)"
    using async_main_first [of process_new] by (force simp: process_new_def)
  with Inr c show ?thesis
    by (auto simp: router_main_def build_runtime_def split: option.splits sum.splits)
qed

text \<open>An invalid configuration stops \<open>main\<close> with a configuration error.\<close>

lemma router_main_invalid:
  "\<not> config_valid parsed \<Longrightarrow> \<exists>m. router_main io srv build_error errors served parsed = Some (Inl (RZ_Config m))"
  using config_check_error [of parsed] by (auto simp: router_main_def)

end
