(* ===== verification/Spec2Isabelle.thy ===== *)
theory Spec2Isabelle
  imports Demo Process
begin

text \<open>
  A model of rzrouter, a TCP router between clients and the hops (routers, shards) that own the
  segments of their requests, and its correctness properties. File and function names refer to
  \<open>src/\<close>. The properties C1 to C40 stand below; what is left out is listed at the end of this text.

  How the program works. \<open>tcp_server.rs\<close> accepts clients; one task per client reads frames
  from its socket (\<open>protocol.rs\<close>) and hands each to the forwarder. \<open>forwarder.rs\<close> looks the
  segment up in the routing snapshot (\<open>routing_state.rs\<close>), takes the hops of the segment from
  the registry (\<open>hop_manager.rs\<close>), picks a connection of a hop (\<open>hop.rs\<close>), replaces the
  correlation id of the frame by a fresh id of that connection and waits for the reply on the
  multiplexed connection (\<open>connection.rs\<close>, whose waiters are kept in \<open>demux.rs\<close>). In the
  background every hop maintains its connections, resolving its address through RzPoint
  (\<open>resolver.rs\<close>), and a refresh task asks RzID (\<open>rzid.rs\<close>) which resources changed, creates
  and retires hops and installs a new snapshot. \<open>lib.rs\<close> starts all of this, with the HTTP API
  of \<open>api.rs\<close>, and \<open>main.rs\<close> runs it.

  The theories, in the order of their imports:
  \<^item> \<open>Prelude\<close>: machine integers and little-endian bytes, slices (an access out of range is a
    panic), UTF-8, hash maps; the collections and lemmas all theories share.
  \<^item> \<open>Errors\<close> (\<open>error.rs\<close>), \<open>Config\<close> (\<open>config.rs\<close>), \<open>Metrics\<close> (\<open>metrics.rs\<close>).
  \<^item> \<open>Protocol\<close> (\<open>protocol.rs\<close>): the decoder of router frames and the builders of answers,
    with the wire grammar \<open>frame_bytes\<close> as the reference.
  \<^item> \<open>Routing_State\<close>: the edge and the zone table as instances of the locale \<open>two_level_table\<close>.
  \<^item> \<open>Demux\<close>: 64 shards of waiters, and the locale \<open>waiter_table\<close> with the laws a connection
    relies on, interpreted (\<open>dx\<close>) on the sharded table.
  \<^item> \<open>Connection\<close>: the record \<open>conn\<close> of a connection with the queue, socket and one-shot
    channels of its tasks; one definition per step of the writer, reader and keepalive task;
    \<open>send_and_wait\<close> as \<open>send_begin\<close>, any steps of the tasks, \<open>send_end\<close>.
  \<^item> \<open>Resolver\<close>; \<open>Hop\<close> with the operations of a hop over the \<open>arena\<close> of all connections,
    \<open>Hop_Lifecycle\<close> (the specification \<open>tick_step\<close> of maintenance, refinement, recovery),
    \<open>Hop_Local\<close> (the operations of a hop leave the connections of others alone), \<open>Hop_Task\<close>:
    the maintenance task and the resolution for a request, cut at their awaits into steps
    between program points, which compute the tick when nothing comes between.
  \<^item> \<open>Hop_Manager\<close>: the registry with the hops and spawned tasks, and the locale \<open>hop_registry\<close>,
    interpreted as \<open>hm\<close>: the laws the synchronisation relies on.
  \<^item> \<open>World\<close>: the state all tasks share and the events that change it; \<open>Hop_Bounds\<close>: the
    bounds of every hop and the whereabouts of every connection under all events.
  \<^item> \<open>Forwarder\<close>: \<open>forward\<close> over the world, with the log of the frames a call sends;
    \<open>Delivery\<close>: a reply that arrives on an open connection is what the request and the call
    return.
  \<^item> \<open>Stream_Frames\<close>: the frames of a byte stream, a reference for the read loop;
    \<open>Tcp_Server\<close>: the accept loop and \<open>handle_connection\<close>.
  \<^item> \<open>Rzid\<close> (operations), \<open>Rzid_Sync\<close> (safety of synchronisation), \<open>Rzid_Versions\<close>
    (the recorded versions, when a synchronisation settles).
  \<^item> \<open>Async_Main\<close> (\<open>lib.rs\<close>): the start, the refresh and the heartbeat task; \<open>Running\<close>: a
    refresh as a sequence of events, the states \<open>app_reach\<close> the running router can reach when
    the steps of all tasks interleave, and their invariant.
  \<^item> \<open>Api\<close> (\<open>api.rs\<close>): routes and listen address; \<open>Process\<close> (\<open>main.rs\<close> and the whole of
    \<open>async_main\<close>): what exists once per process, and the outcomes of \<open>main\<close>.
  \<^item> \<open>Client\<close>: the client of the integration tests (\<open>tests/common/command.rs\<close>), used as the
    other end of the wire format; \<open>End_To_End\<close>: a request from the client through session,
    forwarder and connection and back; \<open>Demo\<close>: concrete instances for the witnesses.

  How code corresponds to definitions. A struct is a record with its fields (\<open>ConnectionInner\<close>
  is \<open>conn\<close>, \<open>Hop\<close> is \<open>hop\<close>), integers keep their width, a \<open>HashMap\<close> is an association list
  in an arbitrary order, and \<open>Arc\<close>s are indices into a store. \<open>Result\<close> is a sum with the error
  on the left. A result type \<open>option\<close> around a state means that \<open>None\<close> is a panic: out of
  range slices, arithmetic that panics, \<open>unwrap\<close>. The theorems that say \<open>\<exists>s. f x = Some s\<close>
  therefore state the absence of panics and, since all definitions are total functions, that the
  code returns.

  Concurrency. Tasks interleave at their awaits: one event is what a task does between two of
  them, and theorems quantify over all lists of events. The maintenance task of a hop, the
  resolution for a request and the effects of a refresh are cut this way; a refresh shows its
  creations, its retirement and its installation as separate events, since the routing table and
  the registry are written by the refresh task alone and its requests to RzID touch nothing
  shared. Two parts are coarser than the runtime: \<open>send_and_wait\<close> before its wait, and the end
  of a reader or writer, are one event each, although they await a lock. A call of the forwarder
  and a session see arbitrary events of the other tasks while they wait (the schedule of a call,
  the peer of a session). A replaced connection and a dropped hop go at any later time, when the
  last reference to them does.

  Bounds. Endless loops (ticks, reads, accepts) are functions of the finite list of inputs they
  have consumed, and theorems hold for every such list; no fuel cuts off a loop that ends. The
  resolver's three attempts and the forwarder's \<open>max_retries\<close> are those of the code. A tick has at
  most as many awaits as connections are wanted and two more, the fuel of C14. Three ticks in C15
  are one from \<open>Unavailable\<close> to \<open>Recovering\<close>, one to reconnect and one to fill up. A frame
  is decoded only up to 16 MiB; lengths below \<open>2 ^ 32\<close> or \<open>2 ^ 64\<close> are assumed where a cast or a
  counter of the code would otherwise wrap, and the assumption is in the statement.

  What the properties show. C1 to C12 follow a request: it goes through the router and back, it
  is answered once, under its own id, a write is not repeated after an ambiguous error, the
  shared state stays in order, replies reach their own waiters and no waiter is forgotten. C13 to
  C15 are about hops, C16 and C29 to C31 about routing tables and synchronisation, C17 to C22
  about frames on the wire and the read loop, C23 and C24 about connections to hops, C25 about the
  limit of the server, C26 about client and router together, C27 and C28 about the bounds and the
  ownership of connections. C32 to C40 are behaviours of the code that its comments or its
  callers do not expect.

  Parameters, because their code is not part of the repository: the results of socket
  operations and of dialling, HTTP replies with their parsed JSON, clocks, the text of a UUID,
  the iteration order of hash maps, the runtime, and the HTTP server and the recorder behind the
  API. \<open>SocketAddr::from_str\<close> is of the standard library and is written out in \<open>Api\<close>.

  Not modelled: the parsing of the command line (clap), the text of the logs, and the integration
  test harness, which starts a router against live services.
\<close>
section \<open>Requests through the router\<close>

text \<open>
  C1: a request goes through the router and back. A client sends a request with its own code;
  the hop its segment is routed to has an open connection with room, between two replies; and
  while the router waits the peer answers the request with some payload, after and before any
  steps of other tasks that leave this connection open. Then the session writes exactly one
  answer, and the client's own code reads its correlation id and that payload from it.
\<close>

theorem request_round_trip:
  assumes "world_ok w"
    and "segment \<noteq> GETSEGMENTS" "segment \<noteq> GETCODECS" "segment \<noteq> KEEPALIVE_SEGMENT"
      "length segment < 256" "utf8_valid (as_bytes segment)"
    and "config_check config = Inr config"
    and "16 + length segment + length payload \<le> cfg_max_frame_size config"
      "16 + length segment + length payload \<le> MAX_TOTAL_LEN"
    and "kind_peer config peer now" and "0 < fw_max_retries fw"
    and "first_choice w segment clrid = Some c" and "fst (next_corr_id (conn_at w c)) = cid"
    and "accepts cid (conn_at w c)"
    and "sc_events (pe_sched peer 0) 0 = before @ WE_Conn c (Ev_Read (reply_bytes cid answer @ trail)) # after"
    and "\<forall>e\<in>set before. undisturbed c cid e" and "answer \<noteq> []" "length answer < 2 ^ 32"
  shows "\<exists>s. handle_connection site config peer fw
      [([], Read_Bytes (prepend_router_header segment is_write clrid payload))] (session_start now metrics_new w) = Some s \<and>
    ss_out s = [reply_bytes clrid answer] \<and>
    drain_frame reads (concat (ss_out s)) = Some (Inr (clrid, answer), reads, [])"
  by (rule end_to_end [OF assms])

theorem request_round_trip_witness:
  "\<exists>s. handle_connection demo_site demo_config answering_peer (forwarder_new [])
      [([], Read_Bytes (prepend_router_header ''s'' True 9 []))] (session_start 0 metrics_new demo_world) = Some s \<and>
    drain_frame [] (concat (ss_out s)) = Some (Inr (9, [42]), [], [])"
proof -
  have seg: "''s'' \<noteq> KEEPALIVE_SEGMENT" "length ''s'' < 256" "utf8_valid (as_bytes ''s'')"
    using demo_parts_ok by (simp_all add: KEEPALIVE_SEGMENT_def parts_ok_def demo_parts_def frame_parts_ok_def)
  have size: "config_check demo_config = Inr demo_config"
    "16 + length ''s'' + length ([] :: byte list) \<le> cfg_max_frame_size demo_config"
    "16 + length ''s'' + length ([] :: byte list) \<le> MAX_TOTAL_LEN"
    by (simp_all add: config_check_def demo_config_def MAX_TOTAL_LEN_def)
  have conn: "fst (next_corr_id (conn_at demo_world 1)) = 1" "accepts 1 (conn_at demo_world 1)"
    using demo_next_id demo_accepts by simp_all
  have ev: "sc_events (pe_sched answering_peer 0) 0 =
      [WE_Conn 1 (Ev_Writer True True)] @ WE_Conn 1 (Ev_Read (reply_bytes 1 [42] @ [])) # []"
    by (simp add: answering_peer_def answer_sched_def demo_reply_def)
  have "\<forall>e\<in>set [WE_Conn 1 (Ev_Writer True True)]. undisturbed 1 1 e" "0 < fw_max_retries (forwarder_new [])"
    by (simp_all add: forwarder_new_def)
  from request_round_trip [OF demo_world_ok demo_segment seg size answering_kind_peer this(2)
      demo_first_choice conn ev this(1), of demo_site True "[]"]
  show ?thesis by auto
qed

text \<open>
  C2: a session never panics. The frames it takes are a prefix of the frames of the client's
  byte stream; every request among them has exactly one answer, in order and under the
  client's own correlation id; and what is written to the client are these answers, all of
  them or, when the last write failed, all but the last.
\<close>

theorem session_answers_requests:
  assumes "world_ok w"
  shows "\<exists>s. handle_connection site config peer fw reads (session_start now metrics_new w) = Some s \<and>
    (\<exists>n. ss_frames s = take n (fst (frames_of (stream_of reads)))) \<and>
    map fst (ss_answers s) = map fst (filter is_request (ss_frames s)) \<and>
    (\<forall>(f, answer)\<in>set (ss_answers s). reply_for (rf_original_clrid f) answer) \<and>
    (ss_out s = map snd (ss_answers s) \<or> ss_out s = map snd (butlast (ss_answers s))) \<and>
    world_ok (ss_world s)"
proof -
  let ?s = "session_start now metrics_new w"
  have "session_inv ?s" "all_written ?s"
    using session_start_inv [OF assms, of metrics_new now] by (simp_all add: metrics_new_def)
  from handle_connection_ok [OF this, of site config peer fw reads] obtain s where
    s: "handle_connection site config peer fw reads ?s = Some s" "session_inv s"
    "all_written s \<or> last_lost s" by blast
  have "\<exists>n. ss_frames s = take n (fst (frames_of (stream_of reads)))"
    using handle_connection_frames [OF s(1)] by (simp add: session_start_def frames_of_short)
  with s show ?thesis by (auto simp: session_inv_def all_written_def last_lost_def)
qed

theorem session_answers_requests_witness:
  "\<exists>s. handle_connection demo_site demo_config demo_peer (forwarder_new [])
      [([], Read_Bytes demo_frame)] (session_start 0 metrics_new demo_world) = Some s \<and>
    map fst (ss_answers s) = map fst (filter is_request (ss_frames s)) \<and> world_ok (ss_world s)"
  using session_answers_requests [OF demo_world_ok, of demo_site demo_config demo_peer
      "forwarder_new []" "[([], Read_Bytes demo_frame)]" 0] by blast

text \<open>
  C3: a write is sent again only after a result that says the connection was closed; any other
  error ends the call with a timeout, and a timeout is reported in no other case.
\<close>

theorem write_not_repeated:
  assumes "world_ok w" and "segment \<noteq> GETSEGMENTS" and "segment \<noteq> GETCODECS"
    and "forward site sched fw frame segment off clrid True w = Some (r, s)"
  shows "(\<forall>e\<in>set (butlast (cl_log s)). sd_result e = Inl RZ_ConnectionClosed) \<and>
    (r = Inl FE_Timeout \<longleftrightarrow> cl_log s \<noteq> [] \<and>
       (\<exists>err. sd_result (last (cl_log s)) = Inl err \<and> err \<noteq> RZ_ConnectionClosed))"
proof -
  from write_log [OF forward_log(1) [OF assms refl]] show ?thesis by simp
qed

theorem write_not_repeated_witness:
  "\<exists>r s. forward demo_site demo_sched (forwarder_new []) demo_frame ''s'' 9 9 True demo_world = Some (r, s) \<and>
     (\<forall>e\<in>set (butlast (cl_log s)). sd_result e = Inl RZ_ConnectionClosed)"
proof -
  from forward_outcome [OF demo_world_ok demo_segment] obtain r s where
    "forward demo_site demo_sched (forwarder_new []) demo_frame ''s'' 9 9 True demo_world = Some (r, s)"
    by blast
  with write_not_repeated [OF demo_world_ok demo_segment this] show ?thesis by blast
qed

text \<open>
  C4: a call returns and leaves the world in order, and it sends no more frames than the number
  of attempts times the largest number of hops of the segment in any snapshot of the call.
\<close>

theorem forward_returns:
  assumes "world_ok w"
  shows "\<exists>r s. forward site sched fw frame segment off clrid is_write w = Some (r, s) \<and>
    world_ok (cl_world s) \<and>
    (\<forall>K. hops_bound sched segment K (wd_routing w) \<longrightarrow> length (cl_log s) \<le> fw_max_retries fw * K)"
proof (cases "segment = GETSEGMENTS \<or> segment = GETCODECS")
  case True
  with assms show ?thesis by (auto simp: forward_get_segments forward_get_codecs)
next
  case False
  with forward_outcome [OF assms] obtain r s n where
    r: "forward site sched fw frame segment off clrid is_write w = Some (r, s)"
    "outcome \<lparr>jb_segment = segment, jb_offset = off, jb_clrid = clrid, jb_write = is_write\<rparr> frame
      (start_call w frame) (Some r) s n"
    "\<forall>K. hops_bound sched segment K (wd_routing w) \<longrightarrow> n \<le> fw_max_retries fw * K" by metis
  then have "length (cl_log s) \<le> n" "world_ok (cl_world s)" by (auto simp: outcome_def world_le_def)
  with r show ?thesis by (meson le_trans)
qed

theorem forward_returns_witness:
  "\<exists>r s. forward demo_site quiet_sched (forwarder_new []) demo_frame ''s'' 9 9 False demo_world = Some (r, s) \<and>
     length (cl_log s) \<le> 6"
proof -
  have "hops_bound quiet_sched ''s'' 2 (wd_routing demo_world)"
    by (simp add: hops_bound_def quiet_sched_def demo_world_def demo_edge_def edge_lookup_def)
  with forward_returns [OF demo_world_ok, of demo_site quiet_sched "forwarder_new []" demo_frame "''s''" 9 9 False]
  show ?thesis by (fastforce simp: forwarder_new_def)
qed



section \<open>The shared state\<close>

text \<open>
  C6: whatever the tasks of the router do, in any order, nothing panics and the invariant of
  the shared state holds: registered hops are distinct, live and own disjoint sets of
  connections, every connection satisfies its own invariant. Connections stay, values that
  were delivered stay, closing is final, and no waiter is forgotten except by its own deadline.
\<close>

theorem world_runs_safely:
  assumes "world_ok w"
  shows "\<exists>w'. world_run site es w = Some w' \<and> world_ok w' \<and>
    (\<forall>c. conn_exists w c \<longrightarrow> conn_exists w' c \<and> conn_le (conn_at w c) (conn_at w' c)) \<and>
    (\<forall>c t. conn_exists w c \<longrightarrow> WE_Conn c (Ev_Expire t) \<notin> set es \<longrightarrow> tracked (conn_at w c) t \<longrightarrow>
       tracked (conn_at w' c) t)"
  using world_run_ok [OF assms, of site es] by (fastforce simp: world_le_def)

theorem world_runs_safely_witness:
  "\<exists>w'. world_run demo_site [WE_Maint 0 False, WE_Conn 0 Ev_Eof, WE_Create ''c'', WE_Retire [''a''], WE_Shutdown 0,
      WE_Maint 0 True, WE_Drop 0, WE_Release 0]
      demo_world = Some w' \<and> world_ok w'"
  using world_runs_safely [OF demo_world_ok] by blast





text \<open>
  C9: a request on a shared connection returns whatever happens while it waits: with a complete
  reply that carries its own id, or with one of the three errors of \<open>send_and_wait\<close>.
\<close>

theorem request_safe:
  assumes "world_ok w" and "conn_exists w c"
  shows "\<exists>r w'. request site events now c frame cid w = Some (r, w') \<and> world_ok w' \<and>
    (\<forall>response. r = Inr response \<longrightarrow> reply_ok cid response) \<and>
    (\<forall>e. r = Inl e \<longrightarrow> e = RZ_ConnectionClosed \<or> e = RZ_Timeout \<or> (\<exists>m. e = RZ_Validation m))"
  using request_ok [OF assms, of site events now frame cid] world_le_ok by blast

theorem request_safe_witness:
  "\<exists>r w'. request demo_site [WE_Conn 0 (Ev_Writer True True), WE_Conn 0 (Ev_Read (demo_reply 5))]
      0 0 demo_frame 5 demo_world = Some (r, w') \<and> (\<forall>response. r = Inr response \<longrightarrow> reply_ok 5 response)"
proof -
  have "conn_exists demo_world 0"
    by (simp add: conn_exists_def demo_world_def demo_net_def demo_arena_def)
  from request_safe [OF demo_world_ok this] show ?thesis by blast
qed

text \<open>
  C10: a reply reaches the request that waits for it. On an open connection with room, between
  two replies and with the id not in use, a request returns exactly the reply that arrives for
  its id, whatever else is read with it, whatever happens afterwards (a lost connection
  included), and whatever other tasks do before, as long as they leave this connection open.
\<close>

theorem reply_reaches_waiter:
  assumes "world_ok w" and "conn_exists w c" and "accepts cid (conn_at w c)"
    and "\<forall>e\<in>set before. undisturbed c cid e" and "reply_ok cid response"
  shows "\<exists>w'. request site (before @ WE_Conn c (Ev_Read (response @ trail)) # after) now c frame cid w =
    Some (Inr response, w')"
  by (rule request_delivers [OF assms])

theorem reply_reaches_waiter_witness:
  "\<exists>w'. request demo_site ([WE_Create ''c'', WE_Conn 1 Ev_Eof, WE_Conn 0 (Ev_Writer True True)] @
      WE_Conn 0 (Ev_Read (demo_reply 1 @ [0xFF])) # [WE_Conn 0 Ev_Eof]) 0 0 demo_frame 1 demo_world =
    Some (Inr (demo_reply 1), w')"
proof -
  have "conn_exists demo_world 0"
    by (simp add: conn_exists_def demo_world_def demo_net_def demo_arena_def)
  moreover have "accepts 1 (conn_at demo_world 0)" using demo_accepts by simp
  moreover have "\<forall>e\<in>set [WE_Create ''c'', WE_Conn 1 Ev_Eof, WE_Conn 0 (Ev_Writer True True)]. undisturbed 0 1 e"
    by simp
  moreover have "reply_ok 1 (demo_reply 1)"
    unfolding demo_reply_def by (rule reply_ok_reply_bytes) simp
  ultimately show ?thesis by (rule reply_reaches_waiter [OF demo_world_ok])
qed

text \<open>
  C11: the replies in one read reach their own waiters: each request that waits for one of them
  gets exactly the reply with its id, in whatever order they come; replies nobody waits for are
  dropped; nobody else gets anything, and the requests without a reply keep waiting.
\<close>

theorem replies_demultiplexed:
  assumes "conn_ok c" and "cn_reader c" and "cn_rbuf c = []"
    and "distinct (map fst rs)" and "\<forall>(i, f)\<in>set rs. reply_ok i f"
  shows "\<exists>c'. reader_read (concat (map snd rs)) c = Some c' \<and> conn_ok c' \<and>
    (\<forall>i f t. (i, f) \<in> set rs \<longrightarrow> dx.waiting (cn_demux c) i = Some t \<longrightarrow> hm_get (cn_mail c') t = Some (Inr f)) \<and>
    (\<forall>t. (\<forall>i\<in>fst ` set rs. dx.waiting (cn_demux c) i \<noteq> Some t) \<longrightarrow> hm_get (cn_mail c') t = hm_get (cn_mail c) t) \<and>
    dx.waiting (cn_demux c') = (\<lambda>i. if i \<in> fst ` set rs then None else dx.waiting (cn_demux c) i)"
proof -
  have "reader_frames (concat (map snd rs)) = Some (rs, [])"
    using assms(5) by (intro reader_frames_replies) auto
  moreover have same: "c\<lparr>cn_rbuf := []\<rparr> = c" using assms(3) by (cases c) simp
  ultimately have "reader_read (concat (map snd rs)) c = dispatch rs c"
    using assms(2,3) by (simp add: reader_read_def same)
  with dispatch_replies [OF assms(1,4,5)] show ?thesis by simp
qed

theorem replies_demultiplexed_witness:
  "\<exists>r c c'. send_begin demo_conn demo_frame 1 0 = Some (r, c) \<and>
     reader_read (concat (map snd [(7, demo_reply 7), (1, demo_reply 1)])) c = Some c' \<and>
     hm_get (cn_mail c') 0 = Some (Inr (demo_reply 1))"
proof -
  have free: "dx.waiting (cn_demux demo_conn) 1 = None" "length (cn_queue demo_conn) < cn_capacity demo_conn"
    and conn: "cn_owner demo_conn = []" "cn_reader demo_conn" "cn_rbuf demo_conn = []"
    using demo_accepts by (simp_all add: accepts_def) (simp_all add: demo_conn_def)
  obtain c where c: "send_begin demo_conn demo_frame 1 0 = Some (Inr 0, c)" "conn_ok c"
    and w: "cn_reader c" "cn_rbuf c = []" "dx.waiting (cn_demux c) 1 = Some 0"
    using send_begin_accepted [OF demo_conn_ok demo_conn_open free, of demo_frame 0] conn by auto
  have "\<forall>(i, f)\<in>set [(7, demo_reply 7), (1, demo_reply 1)]. reply_ok i f"
    by (simp add: demo_reply_def reply_ok_reply_bytes)
  moreover have "distinct (map fst [(7 :: u32, demo_reply 7), (1, demo_reply 1)])" by simp
  ultimately show ?thesis using replies_demultiplexed [OF c(2) w(1,2)] c(1) w(3) by fastforce
qed

text \<open>
  C12: no sequence of steps of a connection panics or forgets a waiter: as long as its own
  deadline has not passed, a waiter is registered or has been answered, so its sender is never
  dropped without a value.
\<close>

theorem no_waiter_forgotten:
  assumes "conn_ok c"
  shows "\<exists>c'. conn_run es c = Some c' \<and> conn_ok c' \<and>
    (\<forall>t. tracked c t \<longrightarrow> Ev_Expire t \<notin> set es \<longrightarrow> tracked c' t \<and> wait_outcome c' t \<noteq> SenderDropped)"
  using conn_run_ok [OF assms, of es] wait_not_dropped by blast

theorem no_waiter_forgotten_witness:
  "\<exists>r c c'. send_begin demo_conn demo_frame 1 0 = Some (r, c) \<and>
     conn_run [Ev_Writer True True, Ev_Read [0xFF], Ev_Eof] c = Some c' \<and>
     (\<forall>t. tracked c t \<longrightarrow> wait_outcome c' t \<noteq> SenderDropped)"
proof -
  obtain r c where c: "send_begin demo_conn demo_frame 1 0 = Some (r, c)" "conn_ok c"
    using send_begin_ok [OF demo_conn_ok] by blast
  from no_waiter_forgotten [OF c(2), of "[Ev_Writer True True, Ev_Read [0xFF], Ev_Eof]"] c(1)
  show ?thesis by fastforce
qed

section \<open>Hops\<close>

text \<open>
  C13: a maintenance tick is a step of the specification of ticks on the abstract view of a hop
  (its state, whether an address is known, how many connections are open).
\<close>

theorem maintenance_refines:
  assumes "hop_ok a h" and "maintenance_tick io config rs h a = (h', a')"
  shows "tick_step (hop_target config) (view a h) (view a' h') \<and> hop_ok a' h' \<and> hp_id h' = hp_id h"
  using maintenance_tick_refines [OF assms] by (simp add: keeps_hop_def)

theorem maintenance_refines_witness:
  "\<exists>h' a'. maintenance_tick demo_io demo_config (st_resolver demo_site) (hop_new ''a'') demo_arena = (h', a') \<and>
     tick_step 1 (view demo_arena (hop_new ''a'')) (view a' h')"
proof -
  obtain h' a' where run:
    "maintenance_tick demo_io demo_config (st_resolver demo_site) (hop_new ''a'') demo_arena = (h', a')"
    by fastforce
  from maintenance_refines [OF hop_ok_new this] run show ?thesis
    by (simp add: hop_target_def demo_config_def)
qed


text \<open>
  C15: a hop that knows an address and can dial it is healthy with all its connections open
  after at most three ticks, whatever state it starts from.
\<close>

theorem hop_recovers:
  assumes "hop_ok a h" and "hp_address h = Some addr" and "\<forall>n. dial_ok io config addr n"
    and "\<not> hp_cancelled h" and "hop_live a h \<le> hop_target config" and "3 \<le> ticks"
    and "maintenance_loop io config rs ticks h a = (h', a')"
  shows "state_of h' = Healthy \<and> hop_live a' h' = hop_target config"
proof -
  have "ticks_needed (state_of h) \<le> ticks" using assms(6) by (cases "state_of h") auto
  from maintenance_recovers [OF assms(1-5) this assms(7)] show ?thesis .
qed

theorem hop_recovers_witness:
  "\<exists>h' a'. maintenance_loop demo_io demo_config (st_resolver demo_site) 3
      (set_state Unavailable (demo_hop ''a'' 0)) demo_arena = (h', a') \<and> state_of h' = Healthy"
proof -
  let ?h = "set_state Unavailable (demo_hop ''a'' 0)"
  have ok: "hop_ok demo_arena ?h" by (simp add: demo_hop_def demo_arena_def)
  have addr: "hp_address ?h = Some ''h''" "\<not> hp_cancelled ?h" by (simp_all add: demo_hop_def hop_new_def)
  have dial: "\<forall>n. dial_ok demo_io demo_config ''h'' n" by (simp add: dial_ok_def demo_io_def)
  have live: "hop_live demo_arena ?h \<le> hop_target demo_config"
    by (simp add: hop_live_def live_count_def demo_hop_def hop_target_def)
  obtain h' a' where run: "maintenance_loop demo_io demo_config (st_resolver demo_site) 3 ?h demo_arena = (h', a')"
    by fastforce
  from hop_recovers [OF ok addr(1) dial addr(2) live order_refl run] run show ?thesis by blast
qed

section \<open>Synchronisation with RzID\<close>

text \<open>
  C16: a synchronisation never panics. A new routing table is closed (no segment points at a
  group without hops), has the kind of the mode, and after it the registry holds exactly the
  hops the table names; a hop that stays keeps its handle, hence its connections. Without a
  new table no hop is lost.
\<close>

theorem sync_reconciles:
  assumes "net_ok n" and "snapshot_ok snap" and "set (get_all_hop_ids snap) \<subseteq> set (get_all_ids n)"
  shows "\<exists>r c' n'. sync_routing_state srv ho (Some snap) c n = Some (r, c', n') \<and> net_ok n' \<and>
    (\<forall>new. r = Inr (Some new) \<longrightarrow> snapshot_closed new \<and> (rc_mode c = ModeEdge \<longleftrightarrow> is_edge new) \<and>
       set (get_all_ids n') = set (get_all_hop_ids new)) \<and>
    (\<forall>i h. registry_get n i = Some h \<longrightarrow> (\<forall>new. r = Inr (Some new) \<longrightarrow> i \<in> set (get_all_hop_ids new)) \<longrightarrow>
       registry_get n' i = Some h)"
proof -
  from sync_routing_state_ok [OF assms, of srv ho c] obtain r c' n' where
    r: "sync_routing_state srv ho (Some snap) c n = Some (r, c', n')" "net_ok n'"
    "\<forall>new. r = Inr (Some new) \<longrightarrow> snapshot_ok new \<and> snapshot_closed new \<and>
       (rc_mode c = ModeEdge \<longleftrightarrow> is_edge new) \<and> set (get_all_ids n') = set (get_all_hop_ids new) \<and>
       (\<forall>i h. i \<in> set (get_all_hop_ids new) \<longrightarrow> registry_get n i = Some h \<longrightarrow> registry_get n' i = Some h)"
    "\<forall>e. r = Inl e \<or> r = Inr None \<longrightarrow> (\<forall>i h. registry_get n i = Some h \<longrightarrow> registry_get n' i = Some h)"
    by blast
  moreover have "registry_get n' i = Some h"
    if "registry_get n i = Some h" "\<forall>new. r = Inr (Some new) \<longrightarrow> i \<in> set (get_all_hop_ids new)" for i h
  proof (cases "\<exists>new. r = Inr (Some new)")
    case True
    with that r(3) show ?thesis by blast
  next
    case False
    then have "(\<exists>e. r = Inl e) \<or> r = Inr None" by (metis sum.exhaust option.exhaust)
    with that(1) r(4) show ?thesis by blast
  qed
  ultimately show ?thesis by blast
qed

theorem sync_reconciles_witness:
  "\<exists>r c' n'. sync_routing_state demo_rzid id (Some (Edge demo_edge)) demo_client demo_net = Some (r, c', n') \<and>
     (\<forall>new. r = Inr (Some new) \<longrightarrow> set (get_all_ids n') = set (get_all_hop_ids new))"
proof -
  have "snapshot_ok (Edge demo_edge)" "set (get_all_hop_ids (Edge demo_edge)) \<subseteq> set (get_all_ids demo_net)"
    using demo_routed by (simp_all add: routed_def demo_world_def)
  from sync_reconciles [OF demo_net_ok this, of demo_rzid id demo_client] show ?thesis
    by (elim exE conjE) (intro exI conjI; assumption | simp)
qed

section \<open>Frames\<close>

text \<open>C17: every frame of the wire grammar at the front of the receive buffer is decoded to its parts.\<close>

theorem decode_router_complete:
  assumes "frame_parts_ok seg rest"
  shows "try_decode_router (frame_bytes seg w clrid rest @ ys) =
    Some (Inr (Some (frame_of seg w clrid rest)))"
  using decode_frame_bytes [OF assms] by (simp add: try_decode_router_run)

theorem decode_router_complete_witness:
  "frame_parts_ok KEEPALIVE_SEGMENT [0, 0, 0, 0] \<and>
   try_decode_router (frame_bytes KEEPALIVE_SEGMENT 0 7 [0, 0, 0, 0] @ [0xFE]) =
     Some (Inr (Some (frame_of KEEPALIVE_SEGMENT 0 7 [0, 0, 0, 0])))"
  using keepalive_parts_ok decode_router_complete [OF keepalive_parts_ok] by blast

text \<open>C18: whatever is decoded is a frame of the grammar: its bytes are those of its parts.\<close>

theorem decoded_frame_is_grammatical:
  assumes "try_decode_router buf = Some (Inr (Some f))"
  shows "\<exists>w rest. frame_parts_ok (rf_segment f) rest \<and>
    take (rf_frame_len f) buf = frame_bytes (rf_segment f) w (rf_original_clrid f) rest \<and>
    f = frame_of (rf_segment f) w (rf_original_clrid f) rest"
proof -
  have "decode_router buf = Inr (Some f)" using assms by (simp add: try_decode_router_run)
  then show ?thesis by (rule decode_router_sound) blast
qed

theorem decoded_frame_is_grammatical_witness:
  "\<exists>w rest. take 29 (build_keepalive_frame 7) = frame_bytes KEEPALIVE_SEGMENT w 7 rest"
proof -
  have "try_decode_router (build_keepalive_frame 7) =
      Some (Inr (Some (frame_of KEEPALIVE_SEGMENT 0 7 [0, 0, 0, 0])))"
    using decode_frame_bytes [OF keepalive_parts_ok, of 0 7 "[]"]
    by (simp add: try_decode_router_run build_keepalive_frame_grammar)
  from decoded_frame_is_grammatical [OF this] show ?thesis
    by (auto simp: frame_of_def length_KEEPALIVE_SEGMENT)
qed

text \<open>
  C19: the decoder never panics. A decoded frame lies in the buffer, within the size limit, and
  its id bytes, where the forwarder writes the new id, lie in the frame and hold the id; a
  decoder that wants more bytes never waits for more than the limit.
\<close>

theorem decoder_bounds:
  "\<exists>r. try_decode_router buf = Some r \<and>
     (\<forall>f. r = Inr (Some f) \<longrightarrow> 16 \<le> rf_frame_len f \<and> rf_frame_len f \<le> length buf \<and>
        rf_frame_len f \<le> 5 + 16 * 1024 * 1024 \<and> rf_clrid_offset f + 4 \<le> rf_frame_len f \<and>
        take 4 (drop (rf_clrid_offset f) (take (rf_frame_len f) buf)) = u32_le (rf_original_clrid f)) \<and>
     (r = Inr None \<longrightarrow> length buf < 5 + 16 * 1024 * 1024)"
proof -
  have "length buf < 5 + 16 * 1024 * 1024" if "decode_router buf = Inr None"
    using decode_router_NoneD [OF that] by (auto simp: MAX_TOTAL_LEN_def)
  moreover have "16 \<le> rf_frame_len f \<and> rf_frame_len f \<le> length buf \<and>
      rf_frame_len f \<le> 5 + 16 * 1024 * 1024 \<and> rf_clrid_offset f + 4 \<le> rf_frame_len f \<and>
      take 4 (drop (rf_clrid_offset f) (take (rf_frame_len f) buf)) = u32_le (rf_original_clrid f)"
    if "decode_router buf = Inr (Some f)" for f
    using decode_router_bounds [OF that] by (simp add: MAX_TOTAL_LEN_def)
  ultimately show ?thesis by (simp add: try_decode_router_run)
qed

theorem decoder_bounds_witness:
  "\<exists>r. try_decode_router [0xFE, 0, 0, 0, 1] = Some r \<and>
     (r = Inr None \<longrightarrow> length [0xFE, 0, 0, 0, 1 :: byte] < 5 + 16 * 1024 * 1024)"
  using decoder_bounds [of "[0xFE, 0, 0, 0, 1]"] by blast

text \<open>
  C20: one pass of the frame loop that goes back to reading has taken the frames of its buffer
  and keeps the rest, and this extraction does not depend on how the stream is cut into reads:
  the frames of \<open>xs @ ys\<close> are those of \<open>xs\<close> and then those of what is kept followed by \<open>ys\<close>.
\<close>

theorem frame_loop_chunking:
  assumes "serve site config peer fw s = Some (Wait_More, s')"
  shows "ss_frames s' = ss_frames s @ fst (frames_of (ss_buf s)) \<and> ss_buf s' = snd (frames_of (ss_buf s)) \<and>
    fst (frames_of (ss_buf s @ ys)) = fst (frames_of (ss_buf s)) @ fst (frames_of (ss_buf s' @ ys))"
  using serve_frames [OF assms] frames_of_append [of "ss_buf s" ys] by simp

theorem frame_loop_chunking_witness:
  "\<exists>s'. serve demo_site demo_config demo_peer (forwarder_new [])
      ((session_start 0 metrics_new demo_world)\<lparr>ss_buf := [0xFE, 9]\<rparr>) = Some (Wait_More, s') \<and>
    ss_buf s' = snd (frames_of [0xFE, 9])"
proof -
  let ?s = "(session_start 0 metrics_new demo_world)\<lparr>ss_buf := [0xFE, 9]\<rparr>"
  have inv: "session_inv ?s" "all_written ?s"
    using session_start_inv [OF demo_world_ok, of metrics_new 0]
    by (simp_all add: session_inv_def all_written_def metrics_new_def session_start_def)
  obtain t s' where s': "serve demo_site demo_config demo_peer (forwarder_new []) ?s = Some (t, s')"
    using serve_ok [OF inv] by blast
  have "t = Wait_More"
    using serve_kind [OF s' demo_kind_peer] by (simp add: session_start_def demo_config_def frames_of_short)
  with s' frame_loop_chunking [of demo_site demo_config demo_peer "forwarder_new []" ?s s'] show ?thesis
    by simp
qed

text \<open>
  C21: a client whose socket works, whose reads fit into the buffer and whose frames respect
  the size limit, in a session no longer than the frame timeout, has every request of its
  stream served: all frames are taken, and all answers are written, in order.
\<close>

theorem session_serves_all:
  assumes "world_ok w" and "kind_peer config peer now" and "\<forall>(es, b)\<in>set cs. b \<noteq> []"
    and "fits (cfg_max_buffer_size config) [] (map snd cs)"
    and "\<forall>(f, fb)\<in>set (fst (frames_of (concat (map snd cs)))). rf_frame_len f \<le> cfg_max_frame_size config"
  shows "\<exists>s. handle_connection site config peer fw (map (\<lambda>(es, b). (es, Read_Bytes b)) cs)
      (session_start now metrics_new w) = Some s \<and>
    ss_frames s = fst (frames_of (concat (map snd cs))) \<and>
    map fst (ss_answers s) = map fst (filter is_request (ss_frames s)) \<and>
    ss_out s = map snd (ss_answers s)"
proof -
  let ?s = "session_start now metrics_new w"
  have inv: "session_inv ?s" "all_written ?s"
    using session_start_inv [OF assms(1), of metrics_new now] by (simp_all add: metrics_new_def)
  from handle_connection_ok [OF inv, of site config peer fw "map (\<lambda>(es, b). (es, Read_Bytes b)) cs"]
  obtain s where s: "handle_connection site config peer fw (map (\<lambda>(es, b). (es, Read_Bytes b)) cs) ?s = Some s"
    "session_inv s" by blast
  have start: "ss_buf ?s = []" "ss_last ?s = now" "ss_frames ?s = []" by (simp_all add: session_start_def)
  note K = s(1) assms(2) eq_refl [OF start(2) [symmetric]] assms(3)
  have "ss_frames s = fst (frames_of (concat (map snd cs)))"
    using handle_connection_kind [OF K] assms(4,5) by (simp add: start frames_of_short)
  moreover have "all_written s"
    using handle_connection_kind_written [OF K] assms(4,5) inv by (simp add: start frames_of_short)
  ultimately show ?thesis using s by (auto simp: session_inv_def all_written_def)
qed

theorem session_serves_all_witness:
  "\<exists>s. handle_connection demo_site demo_config demo_peer (forwarder_new [])
      [([], Read_Bytes [1, 2]), ([], Read_Bytes demo_frame)] (session_start 0 metrics_new demo_world) = Some s \<and>
    ss_frames s = [(parts_frame demo_parts, demo_frame)]"
proof -
  have fr: "fst (frames_of (concat [[1, 2], demo_frame])) = [(parts_frame demo_parts, demo_frame)]"
    using frames_of_noisy [of "[([1, 2], demo_parts)]"] demo_parts_ok
    by (simp add: demo_frame_parts garbage_def ROUTER_MAGIC_def)
  have len: "rf_frame_len (parts_frame demo_parts) \<le> cfg_max_frame_size demo_config"
    by (simp add: parts_frame_def demo_parts_def frame_of_def demo_config_def)
  have ne: "demo_frame \<noteq> []" using length_demo_frame by auto
  from session_serves_all [OF demo_world_ok demo_kind_peer, of "[([], [1, 2]), ([], demo_frame)]" demo_site
      "forwarder_new []"] fr len ne demo_frame_fits
  show ?thesis by fastforce
qed



section \<open>Connections to hops\<close>

text \<open>C23: how the bytes of a hop are cut into reads makes no difference to the connection.\<close>

theorem reader_chunking: "reader_read a c \<bind> reader_read b = reader_read (a @ b) c"
  by (rule reader_read_append)

text \<open>
  C24: the sharded demultiplexer is one table of waiters: insertion refuses an id in use and
  adds it otherwise, removal returns the waiter once, failing everything empties the table and
  notifies exactly the waiters it held, and the count is their number.
\<close>

theorem demux_refines_map:
  assumes "demux_ok d"
  shows "(\<exists>d'. demux_insert d i t at = Some (dx.waiting d i = None, d') \<and> demux_ok d' \<and>
      dx.waiting d' = (if dx.waiting d i = None then (dx.waiting d)(i \<mapsto> t) else dx.waiting d)) \<and>
    (\<exists>d'. demux_remove d i = Some (dx.waiting d i, d') \<and> demux_ok d' \<and>
      dx.waiting d' = (dx.waiting d)(i := None)) \<and>
    (\<exists>d' sent. demux_fail_all d = (d', sent) \<and> demux_ok d' \<and> dx.waiting d' = Map.empty \<and>
      set sent = {(t, Inl DE_ConnectionClosed) | t. t \<in> ran (dx.waiting d)}) \<and>
    demux_pending_count d = card (dom (dx.waiting d))"
proof (intro conjI)
  obtain b d1 where d1: "demux_insert d i t at = Some (b, d1)" using dx.ins_run [OF assms] by blast
  with dx.ins_waiting [OF assms d1] show "\<exists>d'. demux_insert d i t at = Some (dx.waiting d i = None, d') \<and>
      demux_ok d' \<and> dx.waiting d' = (if dx.waiting d i = None then (dx.waiting d)(i \<mapsto> t) else dx.waiting d)"
    by auto
  obtain d2 where d2: "demux_remove d i = Some (dx.waiting d i, d2)" using dx.rem_run [OF assms] by blast
  with dx.rem_waiting [OF assms d2] show "\<exists>d'. demux_remove d i = Some (dx.waiting d i, d') \<and>
      demux_ok d' \<and> dx.waiting d' = (dx.waiting d)(i := None)" by auto
  obtain d3 sent where d3: "demux_fail_all d = (d3, sent)" by fastforce
  from dx.fail_all_waiting [OF assms d3] obtain ids where ids: "demux_ok d3" "dx.waiting d3 = Map.empty"
    "set ids = dom (dx.waiting d)" "sent = map (\<lambda>i. (the (dx.waiting d i), Inl DE_ConnectionClosed)) ids"
    by blast
  have "set sent = {(t, Inl DE_ConnectionClosed) | t. t \<in> ran (dx.waiting d)}"
    unfolding ids(4) set_map ids(3) by (force simp: ran_def dom_def)
  with d3 ids(1,2) show "\<exists>d' sent. demux_fail_all d = (d', sent) \<and> demux_ok d' \<and> dx.waiting d' = Map.empty \<and>
      set sent = {(t, Inl DE_ConnectionClosed) | t. t \<in> ran (dx.waiting d)}" by blast
  have "dom (dx.waiting d) = dom (demux_entry_of d)" by (auto simp: dx.waiting_def)
  then show "demux_pending_count d = card (dom (dx.waiting d))"
    using demux_pending_count_card [OF assms] by simp
qed

theorem demux_refines_map_witness:
  "\<exists>d'. demux_insert demux_default 70 0 0 = Some (True, d') \<and> dx.waiting d' 70 = Some 0"
proof -
  have "dx.waiting demux_default 70 = None" by (simp add: dx.waiting_def)
  with demux_refines_map [OF demux_ok_default, of 70 0 0] show ?thesis by auto
qed

section \<open>The limit of the server\<close>

text \<open>
  C25: the server never serves more clients than configured, in any sequence of accepts, ends
  and cancellations; its counter of active connections is the number of sessions running or
  about to be counted out, and the metrics agree with it.
\<close>

theorem server_limit:
  assumes "cfg_max_connections config < 2 ^ 64"
  shows "let sv = fold (server_step config) es (server_new metrics_new) in
    sv_running sv \<le> cfg_max_connections config \<and> unat (sv_active sv) = sv_running sv + sv_closing sv \<and>
    mt_connections_opened (sv_metrics sv) =
      mt_connections_closed (sv_metrics sv) + sv_running sv + sv_closing sv"
  using server_run_ok [OF assms, of es] unfolding server_ok_def Let_def
  by (elim conjE, intro conjI; linarith)

theorem server_limit_witness:
  "sv_running (fold (server_step demo_config) [Sv_Accept, Sv_Accept, Sv_Accept, Sv_End, Sv_Close_Message]
     (server_new metrics_new)) \<le> 2"
proof -
  have "cfg_max_connections demo_config = 2" by (simp add: demo_config_def)
  with server_limit [of demo_config "[Sv_Accept, Sv_Accept, Sv_Accept, Sv_End, Sv_Close_Message]"]
  show ?thesis unfolding Let_def by simp
qed

section \<open>Client and router\<close>



section \<open>Bounds\<close>





section \<open>Routing tables\<close>

text \<open>
  C29: the segment list of a zone is authoritative: after it is replaced, the listed segments
  go to the routers of the zone, those it no longer lists go nowhere, and all others are where
  they were; the same holds for shards.
\<close>

theorem segments_replaced:
  assumes "edge_ok s" and "zone_ok z"
  shows "edge_lookup (replace_zone_segments s zone_id segments) seg =
     (if seg \<in> set segments
      then (case hm_get (zone_to_routers s) zone_id of Some routers \<Rightarrow> routers | None \<Rightarrow> [])
      else if hm_get (segment_to_zone s) seg = Some zone_id then [] else edge_lookup s seg) \<and>
   zone_lookup (replace_shard_segments z shard_id segments) seg =
     (if seg \<in> set segments
      then (case hm_get (shard_to_bridges z) shard_id of Some bridges \<Rightarrow> bridges | None \<Rightarrow> [])
      else if hm_get (segment_to_shard z) seg = Some shard_id then [] else zone_lookup z seg)"
  using edge_table.look_replace [OF assms(1)] zone_table.look_replace [OF assms(2)] by blast

theorem segments_replaced_witness:
  "edge_lookup (replace_zone_segments demo_edge ''z'' [''t'']) ''t'' = [''a'', ''b''] \<and>
   edge_lookup (replace_zone_segments demo_edge ''z'' [''t'']) ''s'' = []"
proof -
  have ok: "edge_ok demo_edge" "zone_ok zone_new"
    using demo_routed by (simp_all add: routed_def demo_world_def zone_ok_def zone_new_def)
  from segments_replaced [OF ok, of "''z''" "[''t'']" "''t''"] segments_replaced [OF ok, of "''z''" "[''t'']" "''s''"]
  show ?thesis by (simp add: demo_edge_def)
qed

section \<open>Refreshes and resolution\<close>





section \<open>Findings\<close>


text \<open>
  C33: the client cannot tell the error codes of the router apart: for every code it reports
  the same text, the bytes of a length field.
\<close>

theorem error_code_unreadable:
  "\<exists>payload. drain_frame reads (build_error_response clrid code @ rest) = Some (Inr (clrid, payload), reads, rest) \<and>
     process_response uuid_text ''GETPROPROOMDAY'' payload =
       Some (Inl (RZ_System (''ERROR: '' @ of_bytes (from_utf8_lossy [3, 0, 0, 0]))))"
  using error_answer_reading error_answer_decoded by blast

text \<open>
  C34: a zone router never settles: a manifest that lists the routers of its zone counts as
  changed at every refresh, because that key is never recorded.
\<close>

theorem zone_sync_repeats:
  assumes "rc_mode c = ModeZone"
    and "hm_get (rc_local_versions c) (routers_key (rc_zone_id c)) = None"
    and "sync_routing_state srv ho current c n = Some (r, c', n')"
    and "hm_ok (vm_versions m)" and "hm_has (vm_versions m) (routers_key (rc_zone_id c))"
  shows "hm_get (rc_local_versions c') (routers_key (rc_zone_id c')) = None \<and> detect_changes c' m \<noteq> []"
  using zone_never_settles [OF assms(1-3)] assms(4,5) by (auto simp: same_client_def)

theorem zone_sync_repeats_witness:
  "\<exists>r c' n'. sync_routing_state demo_rzid id (Some (Zone zone_new)) zone_client demo_net = Some (r, c', n') \<and>
     detect_changes c' demo_manifest \<noteq> []"
proof -
  have mode: "rc_mode zone_client = ModeZone"
    and new: "hm_get (rc_local_versions zone_client) (routers_key (rc_zone_id zone_client)) = None"
    by (simp_all add: zone_client_def)
  have "snapshot_ok (Zone zone_new)" "set (get_all_hop_ids (Zone zone_new)) \<subseteq> set (get_all_ids demo_net)"
    by (simp_all add: zone_ok_def zone_new_def hm_values_def)
  from sync_routing_state_ok [OF demo_net_ok this, of demo_rzid id zone_client] obtain r c' n' where
    run: "sync_routing_state demo_rzid id (Some (Zone zone_new)) zone_client demo_net = Some (r, c', n')" by blast
  have "hm_ok (vm_versions demo_manifest)" "hm_has (vm_versions demo_manifest) (routers_key (rc_zone_id zone_client))"
    by (simp_all add: demo_manifest_def hm_ok_def routers_key_def zone_client_def)
  from zone_sync_repeats [OF mode new run this] run show ?thesis by blast
qed




text \<open>
  C37: a refresh retires hops before it installs the table without them. After the retirement,
  a lookup still yields a hop that has left the registry, and a request whose segment has no
  other hop finds none until the table is there.
\<close>

theorem retired_before_installed:
  assumes "routed w" and "refresh_events srv ho (c, w) = Some (c', es @ [WE_Retire ids, WE_Install new])"
    and "i \<in> set (snapshot_lookup (wd_routing w) seg)" and "i \<notin> set ids"
  shows "\<exists>v. world_run site (es @ [WE_Retire ids]) w = Some v \<and>
    i \<in> set (snapshot_lookup (wd_routing v) seg) \<and> registry_get (wd_net v) i = None \<and>
    try_hop site sched job i (start_call v frame) = Some (None, start_call v frame)"
proof -
  from refresh_events_ok [OF assms(1), of srv ho c site] obtain js tail w' where
    r: "es @ [WE_Retire ids, WE_Install new] = map WE_Create js @ tail"
    "tail = [] \<or> (\<exists>new. tail = [WE_Retire (get_all_hop_ids new), WE_Install new] \<and> fits_mode (rc_mode c) new \<and>
      set (get_all_hop_ids new) \<subseteq> set (get_all_ids (wd_net w)) \<union> set js)"
    using assms(2) by (metis option.inject prod.inject)
  have "tail \<noteq> []"
  proof
    assume "tail = []"
    have "WE_Install new \<in> set (es @ [WE_Retire ids, WE_Install new])" by simp
    then have "WE_Install new \<in> set (map WE_Create js)" unfolding r(1) \<open>tail = []\<close> append_Nil2 .
    then show False by auto
  qed
  then have es: "es = map WE_Create js" using r by auto
  have net: "net_ok (wd_net w)" using assms(1) by (simp add: routed_def world_ok_def)
  obtain n where n: "create_hops js (wd_net w) = Some n" "net_ok n" using create_hops_ok [OF net] by blast
  let ?v = "on_net (retire_unused ids) (w\<lparr>wd_net := n\<rparr>)"
  have "world_run site (es @ [WE_Retire ids]) w = Some ?v"
    using world_run_creates [OF n(1), of site] by (simp add: world_run_append es)
  moreover have none: "registry_get (wd_net ?v) i = None"
    using hm.retire_get [OF n(2), of ids i] assms(4) by (simp add: on_net_def)
  moreover have "try_hop site sched job i (start_call ?v frame) = Some (None, start_call ?v frame)"
    using none by (simp add: try_hop_def start_call_def Let_def)
  ultimately show ?thesis using assms(3) by (auto simp: on_net_def)
qed

theorem retired_before_installed_witness:
  "\<exists>c v. refresh_events moved_rzid id (settled_client, demo_world) =
      Some (c, [] @ [WE_Retire [''b''], WE_Install (Edge moved_edge)]) \<and>
    world_run demo_site ([] @ [WE_Retire [''b'']]) demo_world = Some v \<and>
    ''a'' \<in> set (snapshot_lookup (wd_routing v) ''s'') \<and> registry_get (wd_net v) ''a'' = None"
proof -
  obtain c where c: "refresh_events moved_rzid id (settled_client, demo_world) =
      Some (c, [] @ [WE_Retire [''b''], WE_Install (Edge moved_edge)])" using moved_refresh by auto
  have "''a'' \<in> set (snapshot_lookup (wd_routing demo_world) ''s'')" by code_simp
  from retired_before_installed [OF demo_routed c this, of demo_site] c show ?thesis by fastforce
qed

text \<open>
  C38: the validation accepts configurations the process cannot run with. \<open>main\<close> panics exactly
  for a valid configuration without worker threads; an invalid one stops it with a configuration
  error; and with a refresh interval of zero, which is valid too, the refresh task panics when it
  creates its ticker, so that the router never learns a route.
\<close>

theorem accepted_config_panics:
  "(router_main io srv build_error errors served config = None \<longleftrightarrow> config_valid config \<and> cfg_worker_threads config = 0) \<and>
   (config_valid config \<or> (\<exists>m. router_main io srv build_error errors served config = Some (Inl (RZ_Config m)))) \<and>
   (\<exists>other. config_check other = Inr other \<and>
      (\<forall>ho ticks cw. run_refresh_task srv ho (cfg_refresh_interval_secs other) ticks cw = None))"
proof (intro conjI)
  have "config_check demo_config = Inr demo_config" "cfg_refresh_interval_secs demo_config = 0"
    by (simp_all add: config_check_def demo_config_def)
  then show "\<exists>other. config_check other = Inr other \<and>
      (\<forall>ho ticks cw. run_refresh_task srv ho (cfg_refresh_interval_secs other) ticks cw = None)"
    using zero_interval_panics by metis
qed (use router_main_panics router_main_invalid in blast)+

text \<open>
  C39: the API serves its two routes on every host written as an IPv4 address, and fails on a
  host name (any host that begins with neither a digit nor a bracket) with a configuration
  error, although the validation does not look at the host.
\<close>

theorem api_listens_on_addresses:
  assumes "cfg_api_listening_addr config = host" and "host \<noteq> []" and "digit_of 10 (hd host) = None"
    and "hd host \<noteq> CHR ''[''"
  shows "api_task render served config =
      Some ''API server failed: config error: invalid api listen addr: invalid socket address syntax'' \<and>
    api_task render served (config\<lparr>cfg_api_listening_addr := dotted a b c d\<rparr>) =
      (case served (api_routes render) (SocketV4 [a, b, c, d] (cfg_api_port config)) of
         Inl e \<Rightarrow> Some (''API server failed: system error: api server error: '' @ e) | Inr _ \<Rightarrow> None) \<and>
    config_valid (config\<lparr>cfg_api_listening_addr := dotted a b c d\<rparr>) = config_valid config \<and>
    map_of (api_routes render metrics) ''/health'' = Some (200, ''OK'') \<and>
    map_of (api_routes render metrics) ''/metrics'' = Some (200, render metrics)"
  using parse_name [OF assms(2-4)] parse_dotted [of a b c d "cfg_api_port config"] assms(1)
  by (simp add: api_task_def run_api_server_def api_routes_def api_listen_addr_def config_valid_def frame_timeout_def
      config_zone_id_def config_router_id_def split: sum.split del: dotted.simps)

theorem api_listens_on_addresses_witness:
  "api_task (\<lambda>_. []) (\<lambda>_ _. Inr ()) (demo_config\<lparr>cfg_api_listening_addr := ''localhost''\<rparr>) =
     Some ''API server failed: config error: invalid api listen addr: invalid socket address syntax''"
  using api_listens_on_addresses [of "demo_config\<lparr>cfg_api_listening_addr := ''localhost''\<rparr>" "''localhost''" "\<lambda>_. []" "\<lambda>_ _. Inr ()"]
  by (simp add: digit_of_def)

text \<open>
  C40: the field count of the answer to a segment request is 16 bits wide, so a client reads
  twice the number of segments modulo 65536.
\<close>

theorem segment_count_wraps:
  "\<exists>payload n. serialize_get_segments segs clrid = Some (reply_bytes clrid payload) \<and>
     read_status payload = Some (Inr (as_bytes ''SUCCESS'', n, 10)) \<and> unat n = 2 * length segs mod 2 ^ 16"
proof -
  let ?payload = "reply_payload ''SUCCESS'' (segment_fields 0 segs)"
  have "read_status ?payload = Some (Inr (as_bytes ''SUCCESS'', word_of_nat (2 * length segs), 10))"
    using read_status_reply [of "''SUCCESS''" "segment_fields 0 segs"] by simp
  moreover have "unat (word_of_nat (2 * length segs) :: u16) = 2 * length segs mod 2 ^ 16"
    by (simp only: unat_of_nat) simp
  ultimately show ?thesis using serialize_get_segments_eq by blast
qed

end
